(* ===== verification/Prelude.thy ===== *)
theory Prelude
  imports Main "HOL-Library.Word"
begin

unbundle bit_operations_syntax

text \<open>
  Shared vocabulary of the development.

  \<^item> C's integer types as machine words, with the values of the kernel's address
    arithmetic kept at 32 bits, so that every addition wraps as it does in C.
  \<^item> The ways a kernel routine fails to return, as values of the type \<open>err\<close>:
    a call of \<open>panic\<close>, a spin lock that is held by somebody else (the CPU spins),
    a sleep (the caller gives up the CPU), an access that C leaves undefined, and a loop
    that uses up the bound on its iterations that the model gives it.
  \<^item> \<open>bindE\<close>, the sequencing of two fallible steps, with the rewrite rules that
    take a sequence apart (collection \<open>res_simps\<close>).
  \<^item> Byte-addressed memory with little-endian 32-bit loads and stores, block fill and
    block copy, and the laws that say which loads a store changes (collection
    \<open>mem_simps\<close>).
\<close>

named_theorems res_simps \<open>taking sequences of fallible steps apart\<close>
named_theorems mem_simps \<open>loads after stores\<close>

section \<open>C types\<close>

type_synonym byte = "8 word"
type_synonym ushort = "16 word"
type_synonym uint = "32 word"

section \<open>Outcomes\<close>

datatype err =
    Panic string
  | Spin
  | Sleeps
  | Undef
  | Loops

type_synonym 'a res = "err + 'a"

abbreviation Ok :: "'a \<Rightarrow> 'a res" where
  "Ok x \<equiv> Inr x"

abbreviation panic :: "string \<Rightarrow> 'a res" where
  "panic msg \<equiv> Inl (Panic msg)"

definition bindE :: "'a res \<Rightarrow> ('a \<Rightarrow> 'b res) \<Rightarrow> 'b res" where
  "bindE m f = (case m of Inl e \<Rightarrow> Inl e | Inr x \<Rightarrow> f x)"

definition whenE :: "bool \<Rightarrow> ('s \<Rightarrow> 's res) \<Rightarrow> 's \<Rightarrow> 's res" where
  "whenE c f s = (if c then f s else Ok s)"

lemma bindE_Ok [simp]: "bindE (Inr x) f = f x"
  by (simp add: bindE_def)

lemma bindE_Err [simp]: "bindE (Inl e) f = Inl e"
  by (simp add: bindE_def)

lemma bindE_eq_Ok [res_simps]: "bindE m f = Inr y \<longleftrightarrow> (\<exists>x. m = Inr x \<and> f x = Inr y)"
  by (cases m) simp_all

lemma bindE_eq_Err [res_simps]:
  "bindE m f = Inl e \<longleftrightarrow> m = Inl e \<or> (\<exists>x. m = Inr x \<and> f x = Inl e)"
  by (cases m) simp_all

lemma bindE_assoc: "bindE (bindE m f) g = bindE m (\<lambda>x. bindE (f x) g)"
  by (cases m) simp_all

lemma bindE_cong [fundef_cong]:
  "m = m' \<Longrightarrow> (\<And>x. m' = Inr x \<Longrightarrow> f x = f' x) \<Longrightarrow> bindE m f = bindE m' f'"
  by (cases m') simp_all

lemma whenE_True [simp]: "whenE True f s = f s"
  by (simp add: whenE_def)

lemma whenE_False [simp]: "whenE False f s = Inr s"
  by (simp add: whenE_def)

lemma whenE_eq_Ok [res_simps]:
  "whenE c f s = Inr s' \<longleftrightarrow> (if c then f s = Inr s' else s' = s)"
  by (auto simp: whenE_def)

text \<open>A step repeated: for its effect, and collecting its results.\<close>

primrec repeatE :: "nat \<Rightarrow> ('s \<Rightarrow> 's res) \<Rightarrow> 's \<Rightarrow> 's res" where
  "repeatE 0 f s = Ok s"
| "repeatE (Suc n) f s = bindE (f s) (repeatE n f)"

primrec collectE :: "('s \<Rightarrow> ('a \<times> 's) res) \<Rightarrow> nat \<Rightarrow> 's \<Rightarrow> ('a list \<times> 's) res" where
  "collectE f 0 s = Ok ([], s)"
| "collectE f (Suc n) s =
     bindE (f s) (\<lambda>(x, s). bindE (collectE f n s) (\<lambda>(xs, s). Ok (x # xs, s)))"

lemma repeatE_snoc: "repeatE (Suc n) f s = bindE (repeatE n f s) f"
proof (induction n arbitrary: s)
  case 0
  then show ?case by (cases "f s") simp_all
next
  case (Suc n)
  then show ?case by (cases "f s") simp_all
qed

section \<open>Memory\<close>

type_synonym memory = "uint \<Rightarrow> byte"

definition load32 :: "memory \<Rightarrow> uint \<Rightarrow> uint" where
  "load32 m a = ucast (m a) OR push_bit 8 (ucast (m (a + 1)))
     OR push_bit 16 (ucast (m (a + 2))) OR push_bit 24 (ucast (m (a + 3)))"

definition store32 :: "memory \<Rightarrow> uint \<Rightarrow> uint \<Rightarrow> memory" where
  "store32 m a v = m(a := ucast v, a + 1 := ucast (drop_bit 8 v),
     a + 2 := ucast (drop_bit 16 v), a + 3 := ucast (drop_bit 24 v))"

text \<open>\<open>fill m a c n\<close> is the memory after the \<open>n\<close> bytes from \<open>a\<close> are set to \<open>c\<close>, and
  \<open>blit m d s n\<close> after \<open>n\<close> bytes are copied from \<open>s\<close> to \<open>d\<close>.\<close>

definition fill :: "memory \<Rightarrow> uint \<Rightarrow> byte \<Rightarrow> uint \<Rightarrow> memory" where
  "fill m a c n = (\<lambda>x. if x - a < n then c else m x)"

definition blit :: "memory \<Rightarrow> uint \<Rightarrow> uint \<Rightarrow> uint \<Rightarrow> memory" where
  "blit m d s n = (\<lambda>x. if x - d < n then m (s + (x - d)) else m x)"

definition word_aligned :: "uint \<Rightarrow> bool" where
  "word_aligned a \<longleftrightarrow> a AND 3 = 0"

lemma word_aligned_unat: "word_aligned a \<longleftrightarrow> unat a mod 4 = 0"
proof -
  have "a AND 3 = a mod 4"
    using take_bit_eq_mask [of 2 a] take_bit_eq_mod [of 2 a]
    by (simp add: mask_eq_exp_minus_1)
  moreover have "unat (a mod 4) = unat a mod 4"
    by (simp add: unat_mod_distrib)
  ultimately show ?thesis
    by (metis unat_eq_zero word_aligned_def)
qed

lemma load32_store32_same [simp, mem_simps]: "load32 (store32 m a v) a = v"
proof (rule bit_word_eqI)
  fix n :: nat
  assume "n < LENGTH(32)"
  then consider "n < 8" | "8 \<le> n" "n < 16" | "16 \<le> n" "n < 24" | "24 \<le> n" "n < 32"
    by fastforce
  then show "bit (load32 (store32 m a v) a) n = bit v n"
    by cases (auto simp: load32_def store32_def bit_simps)
qed

lemma aligned_bound:
  assumes "(a :: nat) mod d = 0" "a < d * n" "k < d"
  shows "a + k < d * n"
proof -
  obtain q where q: "a = d * q" using assms(1) by auto
  have "q < n" using assms(2) q by simp
  then have "d * Suc q \<le> d * n" by (intro mult_le_mono2) simp
  then show ?thesis using assms(3) q by simp
qed

lemma unat_add_offset:
  assumes "word_aligned a" and "k < 4"
  shows "unat (a + of_nat k) = unat a + k"
proof -
  have "unat a < 2 ^ 32" "unat a mod 4 = 0"
    using assms unsigned_less [of a] by (simp_all add: word_aligned_unat)
  then have "unat a + k < 2 ^ 32"
    using aligned_bound [of "unat a" 4 "2 ^ 30" k] assms(2) by simp
  then show ?thesis
    using assms(2) by (simp add: unat_word_ariths unat_of_nat)
qed

lemma offset_inj:
  assumes "word_aligned a" "word_aligned b" "j < 4" "k < 4"
    and "a + of_nat j = b + of_nat k"
  shows "a = b"
proof -
  have "unat a + j = unat b + k"
    using assms unat_add_offset by metis
  moreover have "unat a mod 4 = 0" "unat b mod 4 = 0"
    using assms by (simp_all add: word_aligned_unat)
  then obtain p q where "unat a = 4 * p" "unat b = 4 * q" by (auto elim!: dvdE)
  ultimately have "unat a = unat b"
    using assms(3,4) by simp
  then show ?thesis by (rule word_unat_eq_iff [THEN iffD2])
qed

lemma store32_other:
  assumes "word_aligned a" "word_aligned b" "a \<noteq> b" "k < 4"
  shows "store32 m a v (b + of_nat k) = m (b + of_nat k)"
proof -
  have "b + of_nat k \<noteq> a + of_nat j" if "j < 4" for j
    using offset_inj [OF assms(2,1,4) that] assms(3) by blast
  from this [of 0] this [of 1] this [of 2] this [of 3] show ?thesis
    by (simp add: store32_def)
qed

lemma load32_store32_other [mem_simps]:
  assumes "word_aligned a" "word_aligned b" "a \<noteq> b"
  shows "load32 (store32 m a v) b = load32 m b"
  using store32_other [OF assms, of 0 m v] store32_other [OF assms, of 1 m v]
    store32_other [OF assms, of 2 m v] store32_other [OF assms, of 3 m v]
  by (simp add: load32_def)

text \<open>Bytes put into and taken out of memory.\<close>

primrec put :: "memory \<Rightarrow> uint \<Rightarrow> byte list \<Rightarrow> memory" where
  "put m a [] = m"
| "put m a (b # bs) = put (m(a := b)) (a + 1) bs"

definition get :: "memory \<Rightarrow> uint \<Rightarrow> nat \<Rightarrow> byte list" where
  "get m a n = map (\<lambda>i. m (a + of_nat i)) [0..<n]"

lemma length_get [simp]: "length (get m a n) = n"
  by (simp add: get_def)

lemma put_other: "(\<And>i. i < length bs \<Longrightarrow> x \<noteq> a + of_nat i) \<Longrightarrow> put m a bs x = m x"
proof (induction bs arbitrary: m a)
  case (Cons b bs)
  have "x \<noteq> a" using Cons.prems [of 0] by simp
  moreover have "x \<noteq> a + 1 + of_nat i" if "i < length bs" for i
    using Cons.prems [of "Suc i"] that by (simp add: algebra_simps)
  ultimately show ?case by (simp add: Cons.IH)
qed simp

lemma put_same: "length bs \<le> 2 ^ 32 \<Longrightarrow> i < length bs \<Longrightarrow> put m a bs (a + of_nat i) = bs ! i"
proof (induction bs arbitrary: m a i)
  case (Cons b bs)
  show ?case
  proof (cases i)
    case 0
    have "a \<noteq> a + 1 + of_nat j" if "j < length bs" for j
    proof -
      have "unat (1 + of_nat j :: uint) = 1 + j"
        using that Cons.prems(1) by (simp add: unat_word_ariths unat_of_nat)
      then have "1 + of_nat j \<noteq> (0 :: uint)" by (metis add_is_0 one_neq_zero unat_0)
      then show ?thesis by (simp add: add.assoc)
    qed
    then show ?thesis using 0 by (simp add: put_other)
  next
    case (Suc j)
    then have "put m' (a + 1) bs (a + 1 + of_nat j) = bs ! j" for m'
      using Cons.prems by (intro Cons.IH) simp_all
    then show ?thesis using Suc by (simp add: algebra_simps)
  qed
qed simp

lemma get_put: "length bs \<le> 2 ^ 32 \<Longrightarrow> get (put m a bs) a (length bs) = bs"
  by (intro nth_equalityI) (simp_all add: get_def put_same)

end
