(* ===== verification/Spinlock.thy ===== *)
theory Spinlock
  imports Prelude
begin

text \<open>
  Mutual exclusion spin locks (\<open>spinlock.h\<close>, \<open>spinlock.c\<close>) and the per-CPU state they
  rest on (\<open>struct cpu\<close> of \<open>proc.h\<close>, \<open>mycpu\<close> and \<open>cpuid\<close> of \<open>proc.c\<close>).

  All spin locks of the kernel live in one table indexed by \<open>lockid\<close>, which stands for
  the address passed to \<open>acquire\<close>. The record \<open>hw\<close> holds the per-CPU structures, the
  CPU that is executing (\<open>me\<close>), what its local APIC and its interrupt flag read, and
  the lock table. \<open>frame\<close> is the stack address of the argument of \<open>acquire\<close>, from
  which \<open>getcallerpcs\<close> walks the stack. The nesting depth \<open>ncli\<close> is an integer, which the
  statements keep in the range of \<open>int\<close> where a caller may nest arbitrarily deep.

  A spin on a lock that another CPU holds is the outcome \<open>Spin\<close>; the interleaving of
  several CPUs on one lock is the step relation \<open>lstep\<close>, whose reachable states satisfy
  mutual exclusion.
\<close>

named_theorems hw_simps \<open>what lock operations do to the lock state\<close>

section \<open>Locks and CPUs\<close>

datatype slockid = BufLock nat | InodeLock nat

datatype lockid =
    KmemLock
  | PtableLock
  | TicksLock
  | BcacheLock
  | IcacheLock
  | LogLock
  | FtableLock
  | ConsLock
  | IdeLock
  | PipeLock uint
  | SleepLk slockid

record spinlock =
  locked :: uint
  lkname :: string
  holder :: "nat option"
  pcs :: "uint list"

record cpu =
  apicid :: byte
  ncli :: int
  intena :: bool
  cproc :: "nat option"

record hw =
  cpus :: "cpu list"
  me :: nat
  lapic :: "nat \<Rightarrow> byte"
  ifl :: "nat \<Rightarrow> bool"
  frame :: uint
  locks :: "lockid \<Rightarrow> spinlock"

section \<open>Finding the current CPU\<close>

fun find_cpu :: "nat \<Rightarrow> cpu list \<Rightarrow> byte \<Rightarrow> nat option" where
  "find_cpu i [] a = None"
| "find_cpu i (c # cs) a = (if apicid c = a then Some i else find_cpu (Suc i) cs a)"

definition mycpu :: "hw \<Rightarrow> nat res" where
  "mycpu h =
     (if ifl h (me h) then panic (''mycpu called with interrupts enabled'' @ [CHR 0x0A])
      else case find_cpu 0 (cpus h) (lapic h (me h)) of
             None \<Rightarrow> panic (''unknown apicid'' @ [CHR 0x0A])
           | Some i \<Rightarrow> Ok i)"

text \<open>\<open>cpuid()\<close> is \<open>mycpu()-cpus\<close>: the index itself.\<close>

definition cpuid :: "hw \<Rightarrow> nat res" where
  "cpuid h = mycpu h"

definition upd_cpu :: "nat \<Rightarrow> (cpu \<Rightarrow> cpu) \<Rightarrow> hw \<Rightarrow> hw" where
  "upd_cpu c f h = h\<lparr>cpus := (cpus h)[c := f (cpus h ! c)]\<rparr>"

definition cli :: "hw \<Rightarrow> hw" where
  "cli h = h\<lparr>ifl := (ifl h)(me h := False)\<rparr>"

definition sti :: "hw \<Rightarrow> hw" where
  "sti h = h\<lparr>ifl := (ifl h)(me h := True)\<rparr>"

section \<open>pushcli and popcli\<close>

definition pushcli :: "hw \<Rightarrow> hw res" where
  "pushcli h =
     (let eflags = ifl h (me h); h = cli h in
      bindE (mycpu h) (\<lambda>c.
      let h = (if ncli (cpus h ! c) = 0 then upd_cpu c (\<lambda>p. p\<lparr>intena := eflags\<rparr>) h else h) in
      Ok (upd_cpu c (\<lambda>p. p\<lparr>ncli := ncli p + 1\<rparr>) h)))"

definition popcli :: "hw \<Rightarrow> hw res" where
  "popcli h =
     (if ifl h (me h) then panic ''popcli - interruptible''
      else bindE (mycpu h) (\<lambda>c.
      let h = upd_cpu c (\<lambda>p. p\<lparr>ncli := ncli p - 1\<rparr>) h in
      if ncli (cpus h ! c) < 0 then panic ''popcli''
      else if ncli (cpus h ! c) = 0 \<and> intena (cpus h ! c) then Ok (sti h) else Ok h))"

definition myproc :: "hw \<Rightarrow> (nat option \<times> hw) res" where
  "myproc h =
     bindE (pushcli h) (\<lambda>h.
     bindE (mycpu h) (\<lambda>c.
     let p = cproc (cpus h ! c) in
     bindE (popcli h) (\<lambda>h. Ok (p, h))))"

section \<open>acquire and release\<close>

definition initlock_rec :: "string \<Rightarrow> spinlock \<Rightarrow> spinlock" where
  "initlock_rec nm l = l\<lparr>lkname := nm, locked := 0, holder := None\<rparr>"

definition initlock :: "lockid \<Rightarrow> string \<Rightarrow> hw \<Rightarrow> hw" where
  "initlock lk nm h = h\<lparr>locks := (locks h)(lk := initlock_rec nm (locks h lk))\<rparr>"

text \<open>\<open>getcallerpcs\<close>: the first argument is the memory, \<open>v\<close> the address of the caller's
  argument. Ten entries are filled, the rest with 0.\<close>

fun walk_ebp :: "memory \<Rightarrow> uint \<Rightarrow> nat \<Rightarrow> uint list" where
  "walk_ebp m ebp 0 = []"
| "walk_ebp m ebp (Suc n) =
     (if ebp = 0 \<or> ebp < 0x80000000 \<or> ebp = 0xffffffff then replicate (Suc n) 0
      else load32 m (ebp + 4) # walk_ebp m (load32 m ebp) n)"

definition getcallerpcs :: "memory \<Rightarrow> uint \<Rightarrow> uint list" where
  "getcallerpcs m v = walk_ebp m (v - 8) 10"

definition holding :: "lockid \<Rightarrow> hw \<Rightarrow> (bool \<times> hw) res" where
  "holding lk h =
     bindE (pushcli h) (\<lambda>h.
     bindE (mycpu h) (\<lambda>c.
     let r = (locked (locks h lk) \<noteq> 0 \<and> holder (locks h lk) = Some c) in
     bindE (popcli h) (\<lambda>h. Ok (r, h))))"

definition acquire :: "memory \<Rightarrow> lockid \<Rightarrow> hw \<Rightarrow> hw res" where
  "acquire m lk h =
     bindE (pushcli h) (\<lambda>h.
     bindE (holding lk h) (\<lambda>(r, h).
     if r then panic ''acquire''
     else if locked (locks h lk) \<noteq> 0 then Inl Spin
     else
       let h = h\<lparr>locks := (locks h)(lk := (locks h lk)\<lparr>locked := 1\<rparr>)\<rparr> in
       bindE (mycpu h) (\<lambda>c.
       Ok (h\<lparr>locks := (locks h)(lk := (locks h lk)\<lparr>holder := Some c, pcs := getcallerpcs m (frame h)\<rparr>)\<rparr>))))"

definition release :: "lockid \<Rightarrow> hw \<Rightarrow> hw res" where
  "release lk h =
     bindE (holding lk h) (\<lambda>(r, h).
     if \<not> r then panic ''release''
     else popcli (h\<lparr>locks := (locks h)(lk := (locks h lk)
            \<lparr>pcs := (pcs (locks h lk))[0 := 0], holder := None, locked := 0\<rparr>)\<rparr>))"

section \<open>Well-formed CPU state\<close>

definition cpus_ok :: "hw \<Rightarrow> bool" where
  "cpus_ok h \<longleftrightarrow> me h < length (cpus h)
     \<and> (\<forall>i < length (cpus h). apicid (cpus h ! i) = lapic h i)
     \<and> distinct (map apicid (cpus h))"

text \<open>The discipline of \<open>pushcli\<close> and \<open>popcli\<close>: the nesting depth is never negative, and
  interrupts are off while it is positive.\<close>

definition cli_ok :: "hw \<Rightarrow> bool" where
  "cli_ok h \<longleftrightarrow> 0 \<le> ncli (cpus h ! me h) \<and> (0 < ncli (cpus h ! me h) \<longrightarrow> \<not> ifl h (me h))"

definition hw_ok :: "hw \<Rightarrow> bool" where
  "hw_ok h \<longleftrightarrow> cpus_ok h \<and> cli_ok h"

definition lock_free :: "lockid \<Rightarrow> hw \<Rightarrow> bool" where
  "lock_free lk h \<longleftrightarrow> locked (locks h lk) = 0"

definition lock_mine :: "lockid \<Rightarrow> hw \<Rightarrow> bool" where
  "lock_mine lk h \<longleftrightarrow> locked (locks h lk) \<noteq> 0 \<and> holder (locks h lk) = Some (me h)"

abbreviation depth :: "hw \<Rightarrow> int" where
  "depth h \<equiv> ncli (cpus h ! me h)"

abbreviation irq_on :: "hw \<Rightarrow> bool" where
  "irq_on h \<equiv> ifl h (me h)"

text \<open>Two lock states are the same to every later lock operation and to every other CPU
  when they agree on all of the following.\<close>

definition hw_same :: "hw \<Rightarrow> hw \<Rightarrow> bool" where
  "hw_same h h' \<longleftrightarrow> me h' = me h \<and> lapic h' = lapic h \<and> frame h' = frame h \<and> ifl h' = ifl h
     \<and> length (cpus h') = length (cpus h)
     \<and> (\<forall>i < length (cpus h). apicid (cpus h' ! i) = apicid (cpus h ! i)
           \<and> ncli (cpus h' ! i) = ncli (cpus h ! i) \<and> cproc (cpus h' ! i) = cproc (cpus h ! i)
           \<and> (ncli (cpus h ! i) \<noteq> 0 \<longrightarrow> intena (cpus h' ! i) = intena (cpus h ! i)))
     \<and> (\<forall>lk. locked (locks h' lk) = locked (locks h lk)
           \<and> (locked (locks h lk) \<noteq> 0 \<longrightarrow> holder (locks h' lk) = holder (locks h lk)))"

section \<open>The lock operations in closed form\<close>

definition pushed :: "hw \<Rightarrow> hw" where
  "pushed h = h\<lparr>ifl := (ifl h)(me h := False),
     cpus := (cpus h)[me h := (cpus h ! me h)
       \<lparr>intena := (if depth h = 0 then irq_on h else intena (cpus h ! me h)), ncli := depth h + 1\<rparr>]\<rparr>"

definition popped :: "hw \<Rightarrow> hw" where
  "popped h = h\<lparr>ifl := (ifl h)(me h := (depth h = 1 \<and> intena (cpus h ! me h))),
     cpus := (cpus h)[me h := (cpus h ! me h)\<lparr>ncli := depth h - 1\<rparr>]\<rparr>"

definition peeked :: "hw \<Rightarrow> hw" where
  "peeked h = h\<lparr>cpus := (cpus h)[me h := (cpus h ! me h)
     \<lparr>intena := (if depth h = 0 then irq_on h else intena (cpus h ! me h))\<rparr>]\<rparr>"

definition acquired :: "memory \<Rightarrow> lockid \<Rightarrow> hw \<Rightarrow> hw" where
  "acquired m lk h = (pushed h)\<lparr>locks := (locks h)(lk := (locks h lk)
     \<lparr>locked := 1, holder := Some (me h), pcs := getcallerpcs m (frame h)\<rparr>)\<rparr>"

definition released :: "lockid \<Rightarrow> hw \<Rightarrow> hw" where
  "released lk h = popped (h\<lparr>locks := (locks h)(lk := (locks h lk)
     \<lparr>pcs := (pcs (locks h lk))[0 := 0], holder := None, locked := 0\<rparr>)\<rparr>)"

lemma find_cpu_nth:
  "i < length cs \<Longrightarrow> distinct (map apicid cs) \<Longrightarrow> find_cpu k cs (apicid (cs ! i)) = Some (k + i)"
proof (induction cs arbitrary: i k)
  case Nil
  then show ?case by simp
next
  case (Cons c cs)
  show ?case
  proof (cases i)
    case 0
    then show ?thesis by simp
  next
    case (Suc j)
    with Cons.prems have "apicid (cs ! j) \<in> apicid ` set cs" by simp
    with Cons.prems have "apicid c \<noteq> apicid (cs ! j)" by auto
    with Suc Cons show ?thesis by simp
  qed
qed

lemma mycpu_ok [hw_simps]: "cpus_ok h \<Longrightarrow> \<not> irq_on h \<Longrightarrow> mycpu h = Ok (me h)"
  using find_cpu_nth [of "me h" "cpus h" 0] by (auto simp: mycpu_def cpus_ok_def)

lemma cpus_ok_upd:
  assumes "cpus_ok h" "apicid c = apicid (cpus h ! me h)"
  shows "cpus_ok (h\<lparr>ifl := f, cpus := (cpus h)[me h := c]\<rparr>)"
proof -
  have "(map apicid (cpus h))[me h := apicid (cpus h ! me h)] = map apicid (cpus h)"
    using assms(1) by (metis cpus_ok_def list_update_id nth_map)
  then show ?thesis
    using assms by (auto simp: cpus_ok_def map_update nth_list_update)
qed

lemma pushcli_ok [hw_simps]: "cpus_ok h \<Longrightarrow> pushcli h = Ok (pushed h)"
proof -
  assume ok: "cpus_ok h"
  then have "cpus_ok (cli h)" by (simp add: cpus_ok_def cli_def)
  then have "mycpu (cli h) = Ok (me h)"
    using mycpu_ok [of "cli h"] by (simp add: cli_def)
  then show ?thesis
    using ok by (simp add: pushcli_def pushed_def upd_cpu_def cli_def cpus_ok_def Let_def)
qed

lemma popcli_ok [hw_simps]:
  assumes "cpus_ok h" "\<not> irq_on h" "0 < depth h"
  shows "popcli h = Ok (popped h)"
proof -
  have "(ifl h)(me h := False) = ifl h" using assms(2) by (simp add: fun_upd_idem)
  then show ?thesis
    using assms mycpu_ok [of h]
    by (auto simp: popcli_def popped_def upd_cpu_def cpus_ok_def sti_def Let_def
        intro!: hw.equality)
qed

lemma pushed_sel [simp]:
  "me (pushed h) = me h" "lapic (pushed h) = lapic h" "frame (pushed h) = frame h"
  "locks (pushed h) = locks h" "length (cpus (pushed h)) = length (cpus h)"
  by (simp_all add: pushed_def)

lemma popped_sel [simp]:
  "me (popped h) = me h" "lapic (popped h) = lapic h" "frame (popped h) = frame h"
  "locks (popped h) = locks h" "length (cpus (popped h)) = length (cpus h)"
  by (simp_all add: popped_def)

lemma hw_ok_pushed:
  assumes "hw_ok h"
  shows "hw_ok (pushed h)" and "0 < depth (pushed h)" and "\<not> irq_on (pushed h)"
proof -
  have "me h < length (cpus h)" and "cpus_ok h" using assms by (simp_all add: hw_ok_def cpus_ok_def)
  then show "0 < depth (pushed h)" and "\<not> irq_on (pushed h)" and "hw_ok (pushed h)"
    using assms cpus_ok_upd [of h] by (auto simp: hw_ok_def cli_ok_def pushed_def)
qed

lemma hw_ok_popped:
  assumes "hw_ok h" "0 < depth h"
  shows "hw_ok (popped h)"
proof -
  have "me h < length (cpus h)" and "cpus_ok h" using assms by (simp_all add: hw_ok_def cpus_ok_def)
  then show ?thesis
    using assms cpus_ok_upd [of h] by (auto simp: hw_ok_def cli_ok_def popped_def)
qed

lemma popped_pushed: "hw_ok h \<Longrightarrow> popped (pushed h) = peeked h"
  by (auto simp: popped_def pushed_def peeked_def hw_ok_def cli_ok_def cpus_ok_def
      fun_upd_idem intro!: hw.equality)

lemma peeked_nested: "0 < depth h \<Longrightarrow> peeked h = h"
  by (auto simp: peeked_def intro!: hw.equality)

lemma myproc_ok [hw_simps]: "hw_ok h \<Longrightarrow> myproc h = Ok (cproc (cpus h ! me h), peeked h)"
  using hw_ok_pushed [of h]
  by (simp add: myproc_def hw_simps hw_ok_def popped_pushed [unfolded hw_ok_def])
    (simp add: pushed_def cpus_ok_def)

lemma holding_ok [hw_simps]: "hw_ok h \<Longrightarrow> holding lk h = Ok (lock_mine lk h, peeked h)"
  using hw_ok_pushed [of h]
  by (simp add: holding_def hw_simps hw_ok_def popped_pushed [unfolded hw_ok_def] lock_mine_def)

lemma acquire_ok [hw_simps]:
  assumes "hw_ok h" "lock_free lk h"
  shows "acquire m lk h = Ok (acquired m lk h)"
proof -
  have ok: "hw_ok (pushed h)" "0 < depth (pushed h)" "\<not> irq_on (pushed h)"
    using hw_ok_pushed [OF assms(1)] by auto
  then have "mycpu (pushed h\<lparr>locks := l\<rparr>) = Ok (me h)" for l
    using mycpu_ok [of "pushed h\<lparr>locks := l\<rparr>"] by (simp add: hw_ok_def cpus_ok_def)
  then show ?thesis
    using ok assms
    by (simp add: acquire_def hw_simps peeked_nested acquired_def lock_mine_def lock_free_def
        hw_ok_def Let_def)
qed

lemma acquire_held: "hw_ok h \<Longrightarrow> lock_mine lk h \<Longrightarrow> acquire m lk h = panic ''acquire''"
  using hw_ok_pushed [of h] by (simp add: acquire_def hw_simps lock_mine_def hw_ok_def)

lemma acquire_other:
  "hw_ok h \<Longrightarrow> \<not> lock_free lk h \<Longrightarrow> \<not> lock_mine lk h \<Longrightarrow> acquire m lk h = Inl Spin"
  using hw_ok_pushed [of h]
  by (simp add: acquire_def hw_simps peeked_nested lock_mine_def lock_free_def hw_ok_def)

lemma release_ok [hw_simps]:
  assumes "hw_ok h" "lock_mine lk h" "0 < depth h"
  shows "release lk h = Ok (released lk h)"
proof -
  have "\<not> irq_on h" using assms by (simp add: hw_ok_def cli_ok_def)
  moreover have "cpus_ok (h\<lparr>locks := l\<rparr>)" for l
    using assms by (simp add: hw_ok_def cpus_ok_def)
  ultimately show ?thesis
    using assms by (simp add: release_def hw_simps peeked_nested released_def)
qed

lemma release_not_held: "hw_ok h \<Longrightarrow> \<not> lock_mine lk h \<Longrightarrow> release lk h = panic ''release''"
  by (simp add: release_def hw_simps)

lemma acquired_state:
  assumes "hw_ok h"
  shows "hw_ok (acquired m lk h)" and "lock_mine lk (acquired m lk h)"
    and "0 < depth (acquired m lk h)"
  using hw_ok_pushed [OF assms]
  by (simp_all add: acquired_def lock_mine_def hw_ok_def cpus_ok_def cli_ok_def)

lemma released_state:
  assumes "hw_ok h" "0 < depth h"
  shows "hw_ok (released lk h)" and "lock_free lk (released lk h)"
proof -
  have "hw_ok (h\<lparr>locks := l\<rparr>)" for l
    using assms by (simp add: hw_ok_def cpus_ok_def cli_ok_def)
  with assms show "hw_ok (released lk h)"
    unfolding released_def by (intro hw_ok_popped) simp_all
  show "lock_free lk (released lk h)"
    by (simp add: released_def lock_free_def)
qed

section \<open>Same lock state\<close>

lemma hw_same_refl [simp]: "hw_same h h"
  by (simp add: hw_same_def)

lemma hw_same_trans: "hw_same h h' \<Longrightarrow> hw_same h' h'' \<Longrightarrow> hw_same h h''"
  by (simp add: hw_same_def)

lemma hw_same_ok:
  assumes "hw_same h h'" "hw_ok h"
  shows "hw_ok h'"
proof -
  have "map apicid (cpus h') = map apicid (cpus h)"
    using assms(1) by (auto simp: hw_same_def intro: nth_equalityI)
  then show ?thesis
    using assms by (auto simp: hw_ok_def cpus_ok_def cli_ok_def hw_same_def)
qed

lemma hw_same_free: "hw_same h h' \<Longrightarrow> lock_free lk h' \<longleftrightarrow> lock_free lk h"
  by (simp add: hw_same_def lock_free_def)

lemma hw_same_mine: "hw_same h h' \<Longrightarrow> lock_mine lk h' \<longleftrightarrow> lock_mine lk h"
  by (auto simp: hw_same_def lock_mine_def)

lemma hw_same_depth: "hw_same h h' \<Longrightarrow> hw_ok h \<Longrightarrow> depth h' = depth h"
  by (simp add: hw_same_def hw_ok_def cpus_ok_def)

lemma hw_same_peeked [simp]: "hw_ok h \<Longrightarrow> hw_same h (peeked h)"
  by (simp add: hw_same_def peeked_def hw_ok_def cpus_ok_def nth_list_update)

lemma hw_same_section:
  assumes "hw_ok h" "lock_free lk h" "hw_same (acquired m lk h) h1"
  shows "hw_same h (released lk h1)"
proof -
  have i: "me h < length (cpus h)" and c: "0 \<le> depth h" "0 < depth h \<longrightarrow> \<not> irq_on h"
    using assms(1) by (simp_all add: hw_ok_def cpus_ok_def cli_ok_def)
  have same: "me h1 = me h" "lapic h1 = lapic h" "frame h1 = frame h"
    "ifl h1 = (ifl h)(me h := False)" "length (cpus h1) = length (cpus h)"
    "\<And>lk'. lk' \<noteq> lk \<Longrightarrow> locked (locks h1 lk') = locked (locks h lk')"
    "\<And>lk'. lk' \<noteq> lk \<Longrightarrow> locked (locks h lk') \<noteq> 0 \<Longrightarrow> holder (locks h1 lk') = holder (locks h lk')"
    using assms(3) by (simp_all add: hw_same_def acquired_def) (simp_all add: pushed_def)
  have cpu: "apicid (cpus h1 ! j) = apicid (cpus h ! j)" "cproc (cpus h1 ! j) = cproc (cpus h ! j)"
    "ncli (cpus h1 ! j) = ncli (cpus h ! j) + (if j = me h then 1 else 0)"
    "j \<noteq> me h \<Longrightarrow> ncli (cpus h ! j) \<noteq> 0 \<Longrightarrow> intena (cpus h1 ! j) = intena (cpus h ! j)"
    if "j < length (cpus h)" for j
    using assms(3) that i by (auto simp: hw_same_def acquired_def pushed_def nth_list_update)
  have int: "intena (cpus h1 ! me h) = (if depth h = 0 then irq_on h else intena (cpus h ! me h))"
    using assms(3) i c(1) by (auto simp: hw_same_def acquired_def pushed_def)
  have "ifl (released lk h1) = ifl h"
    using i c cpu(3) [OF i] int by (auto simp: released_def popped_def same fun_upd_idem)
  then show ?thesis
    using i cpu int same assms(2)
    by (auto simp: hw_same_def released_def popped_def nth_list_update lock_free_def)
qed

section \<open>The interface of a lock\<close>

text \<open>
  What the code relies on wherever it brackets a critical section by a lock's two
  operations. \<open>same\<close> relates two states that no later operation on locks tells apart.
\<close>

locale mutex =
  fixes acq :: "'h \<Rightarrow> 'h res"
    and rel :: "'h \<Rightarrow> 'h res"
    and ok :: "'h \<Rightarrow> bool"
    and free :: "'h \<Rightarrow> bool"
    and held :: "'h \<Rightarrow> bool"
    and same :: "'h \<Rightarrow> 'h \<Rightarrow> bool"
  assumes acq_free: "ok h \<Longrightarrow> free h \<Longrightarrow> \<exists>h'. acq h = Inr h' \<and> ok h' \<and> held h'"
    and acq_held: "ok h \<Longrightarrow> held h \<Longrightarrow> acq h \<noteq> Inr h'"
    and rel_held: "ok h \<Longrightarrow> held h \<Longrightarrow> \<exists>h'. rel h = Inr h' \<and> ok h' \<and> free h'"
    and rel_free: "ok h \<Longrightarrow> free h \<Longrightarrow> rel h \<noteq> Inr h'"
    and ok_same: "ok h \<Longrightarrow> same h h' \<Longrightarrow> ok h'"
    and held_same: "ok h \<Longrightarrow> held h \<Longrightarrow> same h h' \<Longrightarrow> held h'"
    and section_same:
      "ok h \<Longrightarrow> free h \<Longrightarrow> acq h = Inr h1 \<Longrightarrow> same h1 h2 \<Longrightarrow> rel h2 = Inr h3 \<Longrightarrow> same h h3"
begin

text \<open>A critical section whose body leaves the lock state alone returns, gives the lock
  back, and is invisible in the lock state.\<close>

lemma critical:
  assumes "ok h" and "free h"
    and body: "\<And>h1. ok h1 \<Longrightarrow> held h1 \<Longrightarrow> \<exists>h2. body h1 = Inr h2 \<and> same h1 h2"
  shows "\<exists>h3. bindE (acq h) (\<lambda>h. bindE (body h) rel) = Inr h3 \<and> ok h3 \<and> free h3 \<and> same h h3"
proof -
  obtain h1 where h1: "acq h = Inr h1" "ok h1" "held h1"
    using acq_free assms(1,2) by blast
  obtain h2 where h2: "body h1 = Inr h2" "same h1 h2"
    using body h1 by blast
  obtain h3 where h3: "rel h2 = Inr h3" "ok h3" "free h3"
    using rel_held ok_same held_same h1 h2 by blast
  then show ?thesis
    using h1 h2 section_same [OF assms(1,2) h1(1) h2(2) h3(1)] by auto
qed

text \<open>Taking the lock twice never returns: the code must not nest sections of one lock.\<close>

lemma no_nesting: "ok h \<Longrightarrow> free h \<Longrightarrow> bindE (acq h) acq \<noteq> Inr h'"
  using acq_free acq_held by (fastforce simp: res_simps)

end

interpretation spin: mutex "acquire m lk" "release lk" hw_ok "lock_free lk"
    "\<lambda>h. lock_mine lk h \<and> 0 < depth h" hw_same for m lk
proof unfold_locales
  fix h h1 h2 h3 h'
  show "hw_ok h \<Longrightarrow> lock_free lk h \<Longrightarrow>
      \<exists>h'. acquire m lk h = Inr h' \<and> hw_ok h' \<and> lock_mine lk h' \<and> 0 < depth h'"
    using acquired_state by (auto simp: hw_simps)
  show "hw_ok h \<Longrightarrow> lock_mine lk h \<and> 0 < depth h \<Longrightarrow> acquire m lk h \<noteq> Inr h'"
    by (simp add: acquire_held)
  show "hw_ok h \<Longrightarrow> lock_mine lk h \<and> 0 < depth h \<Longrightarrow>
      \<exists>h'. release lk h = Inr h' \<and> hw_ok h' \<and> lock_free lk h'"
    using released_state by (auto simp: hw_simps)
  show "hw_ok h \<Longrightarrow> lock_free lk h \<Longrightarrow> release lk h \<noteq> Inr h'"
    by (simp add: release_not_held lock_mine_def lock_free_def)
  show "hw_ok h \<Longrightarrow> hw_same h h' \<Longrightarrow> hw_ok h'"
    by (rule hw_same_ok)
  show "hw_ok h \<Longrightarrow> lock_mine lk h \<and> 0 < depth h \<Longrightarrow> hw_same h h' \<Longrightarrow>
      lock_mine lk h' \<and> 0 < depth h'"
    by (simp add: hw_same_mine hw_same_depth)
  assume "hw_ok h" "lock_free lk h" "acquire m lk h = Inr h1" "hw_same h1 h2" "release lk h2 = Inr h3"
  moreover from this have h1: "h1 = acquired m lk h" by (simp add: hw_simps)
  ultimately have "hw_ok h1" "lock_mine lk h1" "0 < depth h1" "hw_same h (released lk h2)"
    using acquired_state [of h] hw_same_section [of h lk m h2] by auto
  with \<open>hw_same h1 h2\<close> \<open>release lk h2 = Inr h3\<close> show "hw_same h h3"
    by (simp add: hw_same_ok hw_same_mine hw_same_depth release_ok)
qed

section \<open>Locks in the machine state\<close>

text \<open>The state the components extend: the lock state and the memory that kernel virtual
  addresses reach. \<open>lock\<close> and \<open>unlock\<close> are \<open>acquire\<close> and \<open>release\<close> on it.\<close>

record machine =
  hw :: hw
  mem :: memory

definition lock :: "lockid \<Rightarrow> 'z machine_scheme \<Rightarrow> 'z machine_scheme res" where
  "lock lk s = bindE (acquire (mem s) lk (hw s)) (\<lambda>h. Ok (s\<lparr>hw := h\<rparr>))"

definition unlock :: "lockid \<Rightarrow> 'z machine_scheme \<Rightarrow> 'z machine_scheme res" where
  "unlock lk s = bindE (release lk (hw s)) (\<lambda>h. Ok (s\<lparr>hw := h\<rparr>))"

text \<open>The lock state after a whole section.\<close>

definition cycled :: "memory \<Rightarrow> lockid \<Rightarrow> hw \<Rightarrow> hw" where
  "cycled m lk h = released lk (acquired m lk h)"

lemma lock_ok [hw_simps]:
  "hw_ok (hw s) \<Longrightarrow> lock_free lk (hw s) \<Longrightarrow> lock lk s = Ok (s\<lparr>hw := acquired (mem s) lk (hw s)\<rparr>)"
  by (simp add: lock_def hw_simps)

lemma unlock_ok [hw_simps]:
  "hw s = acquired m lk h \<Longrightarrow> hw_ok h \<Longrightarrow> unlock lk s = Ok (s\<lparr>hw := cycled m lk h\<rparr>)"
  using acquired_state [of h] by (simp add: unlock_def hw_simps cycled_def)

lemma hw_same_cycled: "hw_ok h \<Longrightarrow> lock_free lk h \<Longrightarrow> hw_same h (cycled m lk h)"
  unfolding cycled_def by (rule hw_same_section [OF _ _ hw_same_refl])

text \<open>Sections of different locks nest: what a section sees of the other locks, and that the
  outer lock is given back after a body that leaves the lock state alone.\<close>

lemma lock_free_acquired [simp]: "lock_free k (acquired m lk h) \<longleftrightarrow> k \<noteq> lk \<and> lock_free k h"
  by (simp add: lock_free_def acquired_def)

lemma cproc_acquired [simp]:
  "me (acquired m lk h) = me h" "hw_ok h \<Longrightarrow> cproc (cpus (acquired m lk h) ! i) = cproc (cpus h ! i)"
  by (simp_all add: acquired_def pushed_def hw_ok_def cpus_ok_def nth_list_update)

lemma unlock_same:
  assumes "hw_ok h" "lock_free lk h" "hw_same (acquired m lk h) (hw s)"
  shows "unlock lk s = Ok (s\<lparr>hw := released lk (hw s)\<rparr>)" and "hw_same h (released lk (hw s))"
proof -
  have "hw_ok (hw s)" "lock_mine lk (hw s)" "0 < depth (hw s)"
    using acquired_state [OF assms(1)] hw_same_ok [OF assms(3)] hw_same_mine [OF assms(3)]
      hw_same_depth [OF assms(3)] by auto
  then show "unlock lk s = Ok (s\<lparr>hw := released lk (hw s)\<rparr>)" by (simp add: unlock_def release_ok)
  show "hw_same h (released lk (hw s))" using assms by (rule hw_same_section)
qed

lemma hw_same_cproc: "hw_ok h \<Longrightarrow> hw_same h k \<Longrightarrow> cproc (cpus k ! me k) = cproc (cpus h ! me h)"
  by (simp add: hw_same_def hw_ok_def cpus_ok_def)

section \<open>Several CPUs on one lock\<close>

text \<open>
  The atomic steps of \<open>acquire\<close> and \<open>release\<close> on one lock, taken by any CPU in any
  order: the check of \<open>holding\<close>, each \<open>xchg\<close>, the write of \<open>lk->cpu\<close>, the write of
  \<open>lk->cpu = 0\<close> in \<open>release\<close> after its own check, and the final store of 0.
\<close>

datatype lpc = Outside | Spinning | Got | Critical | Leaving

record lsys =
  lpcs :: "nat \<Rightarrow> lpc"
  llocked :: uint
  lholder :: "nat option"

definition linit :: lsys where
  "linit = \<lparr>lpcs = (\<lambda>_. Outside), llocked = 0, lholder = None\<rparr>"

inductive lstep :: "lsys \<Rightarrow> lsys \<Rightarrow> bool" where
  enter: "lpcs s c = Outside \<Longrightarrow> \<not> (llocked s \<noteq> 0 \<and> lholder s = Some c) \<Longrightarrow>
     lstep s (s\<lparr>lpcs := (lpcs s)(c := Spinning)\<rparr>)"
| xchg_busy: "lpcs s c = Spinning \<Longrightarrow> llocked s \<noteq> 0 \<Longrightarrow> lstep s (s\<lparr>llocked := 1\<rparr>)"
| xchg_take: "lpcs s c = Spinning \<Longrightarrow> llocked s = 0 \<Longrightarrow>
     lstep s (s\<lparr>llocked := 1, lpcs := (lpcs s)(c := Got)\<rparr>)"
| record_cpu: "lpcs s c = Got \<Longrightarrow>
     lstep s (s\<lparr>lholder := Some c, lpcs := (lpcs s)(c := Critical)\<rparr>)"
| clear_cpu: "lpcs s c = Critical \<Longrightarrow> llocked s \<noteq> 0 \<and> lholder s = Some c \<Longrightarrow>
     lstep s (s\<lparr>lholder := None, lpcs := (lpcs s)(c := Leaving)\<rparr>)"
| unlock: "lpcs s c = Leaving \<Longrightarrow>
     lstep s (s\<lparr>llocked := 0, lpcs := (lpcs s)(c := Outside)\<rparr>)"

inductive lreach :: "lsys \<Rightarrow> bool" where
  lreach_init: "lreach linit"
| lreach_step: "lreach s \<Longrightarrow> lstep s t \<Longrightarrow> lreach t"

definition owns :: "lsys \<Rightarrow> nat \<Rightarrow> bool" where
  "owns s c \<longleftrightarrow> lpcs s c \<in> {Got, Critical, Leaving}"

definition linv :: "lsys \<Rightarrow> bool" where
  "linv s \<longleftrightarrow> (\<forall>i j. owns s i \<longrightarrow> owns s j \<longrightarrow> i = j)
     \<and> (llocked s \<noteq> 0 \<longleftrightarrow> (\<exists>i. owns s i))
     \<and> (\<forall>c. lholder s = Some c \<longleftrightarrow> lpcs s c = Critical)"

lemma linv_init: "linv linit"
  by (simp add: linv_def linit_def owns_def)

lemma owns_upd:
  "owns (s\<lparr>lpcs := (lpcs s)(c := p)\<rparr>) i \<longleftrightarrow>
     (if i = c then p \<in> {Got, Critical, Leaving} else owns s i)"
  "owns (s\<lparr>llocked := l, lpcs := (lpcs s)(c := p)\<rparr>) i \<longleftrightarrow>
     (if i = c then p \<in> {Got, Critical, Leaving} else owns s i)"
  "owns (s\<lparr>lholder := h, lpcs := (lpcs s)(c := p)\<rparr>) i \<longleftrightarrow>
     (if i = c then p \<in> {Got, Critical, Leaving} else owns s i)"
  "owns (s\<lparr>llocked := l\<rparr>) i \<longleftrightarrow> owns s i"
  by (simp_all add: owns_def)

lemma linvI:
  assumes "\<And>i j. owns s i \<Longrightarrow> owns s j \<Longrightarrow> i = j"
    and "llocked s \<noteq> 0 \<longleftrightarrow> (\<exists>i. owns s i)"
    and "\<And>c. lholder s = Some c \<longleftrightarrow> lpcs s c = Critical"
  shows "linv s"
  unfolding linv_def using assms by blast

lemma linv_owner:
  assumes "linv s" "owns s c"
  shows "owns s i \<longleftrightarrow> i = c" and "llocked s \<noteq> 0" and "lpcs s i = Critical \<Longrightarrow> i = c"
  using assms unfolding linv_def owns_def by blast+

lemma linv_step: "lstep s t \<Longrightarrow> linv s \<Longrightarrow> linv t"
proof (induction rule: lstep.induct)
  case (enter s c)
  then have "\<not> owns s c" by (simp add: owns_def)
  then have "owns (s\<lparr>lpcs := (lpcs s)(c := Spinning)\<rparr>) i \<longleftrightarrow> owns s i" for i
    by (simp add: owns_upd)
  with enter show ?case by (intro linvI) (auto simp: linv_def)
next
  case (xchg_busy s c)
  then show ?case by (intro linvI) (auto simp: linv_def owns_upd)
next
  case (xchg_take s c)
  then have no: "\<not> owns s i" for i by (auto simp: linv_def)
  then have "lpcs s i \<noteq> Critical" for i by (auto simp: owns_def)
  with no xchg_take show ?case by (intro linvI) (auto simp: linv_def owns_upd split: if_splits)
next
  case (record_cpu s c)
  then have "owns s c" by (simp add: owns_def)
  note own = linv_owner [OF record_cpu.prems this]
  show ?case
    by (rule linvI) (use own record_cpu in \<open>auto simp: owns_upd split: if_splits\<close>)
next
  case (clear_cpu s c)
  then have "owns s c" by (simp add: owns_def)
  note own = linv_owner [OF clear_cpu.prems this]
  have "lpcs s d \<noteq> Critical" if "d \<noteq> c" for d using own(3) [of d] that by blast
  then show ?case
    by (intro linvI) (simp_all add: owns_upd own split: if_splits)
next
  case (unlock s c)
  then have o: "owns s c" by (simp add: owns_def)
  note own = linv_owner [OF unlock.prems this]
  have "lholder s \<noteq> Some d" for d
    using unlock own(3) [of d] by (auto simp: linv_def)
  moreover have "lpcs s d \<noteq> Critical" for d using unlock own(3) [of d] by fastforce
  ultimately show ?case
    by (intro linvI) (simp_all add: owns_upd own split: if_splits)
qed

lemma linv_reach: "lreach s \<Longrightarrow> linv s"
  by (induction rule: lreach.induct) (auto intro: linv_init linv_step)

section \<open>Nesting\<close>

text \<open>Inside nested \<open>pushcli\<close> the interrupt flag is off, and the value it had comes back
  with the last \<open>popcli\<close>.\<close>

lemma hw_same_pop:
  assumes "hw_ok h" "hw_same (pushed h) g"
  shows "popcli g = Ok (popped g)" and "hw_same h (popped g)"
proof -
  have i: "me h < length (cpus h)" and c: "0 \<le> depth h" "0 < depth h \<longrightarrow> \<not> irq_on h"
    using assms(1) by (simp_all add: hw_ok_def cpus_ok_def cli_ok_def)
  have g: "hw_ok g" "0 < depth g" "\<not> irq_on g"
    using hw_same_ok [OF assms(2)] hw_same_depth [OF assms(2)] hw_ok_pushed [OF assms(1)]
    by (auto simp: hw_ok_def cli_ok_def)
  then show "popcli g = Ok (popped g)" by (simp add: popcli_ok hw_ok_def)
  have same: "me g = me h" "lapic g = lapic h" "frame g = frame h" "ifl g = (ifl h)(me h := False)"
    "length (cpus g) = length (cpus h)"
    "locked (locks g lk) = locked (locks h lk)"
    "locked (locks h lk) \<noteq> 0 \<Longrightarrow> holder (locks g lk) = holder (locks h lk)" for lk
    using assms(2) by (simp_all add: hw_same_def) (simp_all add: pushed_def)
  have cpu: "apicid (cpus g ! j) = apicid (cpus h ! j)" "cproc (cpus g ! j) = cproc (cpus h ! j)"
    "ncli (cpus g ! j) = ncli (cpus h ! j) + (if j = me h then 1 else 0)"
    "j \<noteq> me h \<Longrightarrow> ncli (cpus h ! j) \<noteq> 0 \<Longrightarrow> intena (cpus g ! j) = intena (cpus h ! j)"
    if "j < length (cpus h)" for j
    using assms(2) that i by (auto simp: hw_same_def pushed_def nth_list_update)
  have int: "intena (cpus g ! me h) = (if depth h = 0 then irq_on h else intena (cpus h ! me h))"
    using assms(2) i c(1) by (auto simp: hw_same_def pushed_def)
  have "ifl (popped g) = ifl h"
    using i c cpu(3) [OF i] int by (auto simp: popped_def same fun_upd_idem)
  then show "hw_same h (popped g)"
    using i cpu int same by (auto simp: hw_same_def popped_def nth_list_update)
qed

lemma nest_closed:
  "hw_ok h \<Longrightarrow> \<exists>g k. repeatE n pushcli h = Ok g \<and> hw_ok g \<and> (0 < n \<longrightarrow> \<not> irq_on g) \<and> depth g = depth h + int n
     \<and> repeatE n popcli g = Ok k \<and> hw_same h k"
proof (induction n arbitrary: h)
  case 0
  then show ?case by simp
next
  case (Suc n)
  have push: "pushcli h = Ok (pushed h)" "hw_ok (pushed h)" "\<not> irq_on (pushed h)"
    using Suc.prems hw_ok_pushed by (auto simp: hw_ok_def pushcli_ok)
  from Suc.IH [OF push(2)] obtain g k where
    g: "repeatE n pushcli (pushed h) = Ok g" "hw_ok g" "0 < n \<longrightarrow> \<not> irq_on g"
      "repeatE n popcli g = Ok k" "hw_same (pushed h) k" and d: "depth g = depth (pushed h) + int n" by blast
  have "depth (pushed h) = depth h + 1" using Suc.prems by (simp add: pushed_def hw_ok_def cpus_ok_def)
  with d have d': "depth g = depth h + int (Suc n)" by simp
  from g have "\<not> irq_on g" using push(3) by (cases n) auto
  then show ?case
    using g d' push(1) hw_same_pop [OF Suc.prems g(5)] repeatE_snoc [of n popcli g] by auto
qed

section \<open>Properties\<close>

text \<open>A machine with one CPU, as the examples use it.\<close>

definition boot_hw :: hw where
  "boot_hw = \<lparr>cpus = [\<lparr>apicid = 0, ncli = 0, intena = False, cproc = None\<rparr>], me = 0, lapic = (\<lambda>_. 0),
     ifl = (\<lambda>_. True), frame = 0, locks = (\<lambda>_. \<lparr>locked = 0, lkname = [], holder = None, pcs = []\<rparr>)\<rparr>"

lemma boot_hw_ok: "hw_ok boot_hw" and boot_hw_free: "lock_free lk boot_hw"
  by (simp_all add: boot_hw_def hw_ok_def cpus_ok_def cli_ok_def lock_free_def)

text \<open>C12: mutual exclusion. In every state that any number of CPUs reach by the steps of
  \<open>acquire\<close> and \<open>release\<close> on one lock, at most one CPU is between its successful
  \<open>xchg\<close> and its final store; the lock word is then set, and inside the critical
  section the lock names that CPU, so the check in \<open>release\<close> passes.\<close>

theorem lock_mutual_exclusion:
  assumes "lreach s" "lpcs s i \<in> {Got, Critical, Leaving}" "lpcs s j \<in> {Got, Critical, Leaving}"
  shows "i = j \<and> llocked s \<noteq> 0 \<and> (lpcs s i = Critical \<longrightarrow> lholder s = Some i)"
proof -
  have inv: "linv s" using linv_reach [OF assms(1)] .
  have o: "owns s i" "owns s j" using assms by (simp_all add: owns_def)
  have "j = i" "llocked s \<noteq> 0" using linv_owner(1,2) [OF inv o(1)] o(2) by blast+
  then show ?thesis using inv by (auto simp: linv_def)
qed

theorem lock_mutual_exclusion_witness:
  "\<exists>s. lreach s \<and> lpcs s 3 = Critical \<and> llocked s \<noteq> 0 \<and> lholder s = Some 3"
proof -
  let ?s = "\<lparr>lpcs = (\<lambda>_. Outside)(3 := Critical), llocked = 1, lholder = Some 3\<rparr> :: lsys"
  have 1: "lreach (linit\<lparr>lpcs := (lpcs linit)(3 := Spinning)\<rparr>)"
    by (rule lreach_step [OF lreach_init enter]) (simp_all add: linit_def)
  have 2: "lreach (linit\<lparr>llocked := 1, lpcs := (\<lambda>_. Outside)(3 := Got)\<rparr>)"
    using lreach_step [OF 1 xchg_take [of _ 3]] by (simp add: linit_def)
  have "lreach ?s"
    using lreach_step [OF 2 record_cpu [of _ 3]] by (simp add: linit_def)
  then show ?thesis using lock_mutual_exclusion [of ?s 3 3] by (intro exI [of _ ?s]) simp
qed

text \<open>C27: \<open>pushcli\<close> and \<open>popcli\<close> nest, as long as the depth stays in the range of the C type of \<open>ncli\<close>. After \<open>n\<close>
  calls of \<open>pushcli\<close> interrupts are off and the depth has grown by \<open>n\<close>, and \<open>n\<close> calls of \<open>popcli\<close> then return
  without a panic and give back the interrupt flag, the depth, and the state of every lock.\<close>

theorem pushcli_popcli_nest:
  assumes "hw_ok h" "depth h + int n < 2 ^ 31"
  shows "\<exists>g k. repeatE n pushcli h = Ok g \<and> (0 < n \<longrightarrow> \<not> irq_on g) \<and> depth g = depth h + int n
     \<and> repeatE n popcli g = Ok k \<and> hw_same h k"
  using nest_closed [OF assms(1), of n] by blast

theorem pushcli_popcli_nest_witness:
  "\<exists>g k. repeatE 2 pushcli boot_hw = Ok g \<and> \<not> irq_on g \<and> repeatE 2 popcli g = Ok k \<and> hw_same boot_hw k"
  proof -
  have "depth boot_hw + int 2 < 2 ^ 31" by (simp add: boot_hw_def)
  from pushcli_popcli_nest [OF boot_hw_ok this] show ?thesis by auto
qed

text \<open>C28: the outcomes of \<open>acquire\<close> and \<open>release\<close>. A free lock is taken; a lock this CPU
  holds makes \<open>acquire\<close> panic, a lock of another CPU makes it spin; \<open>release\<close> panics
  unless this CPU holds the lock; and a critical section that leaves the locks alone
  returns with interrupts, depth and locks as they were.\<close>

theorem acquire_release_spec:
  assumes "hw_ok h"
  shows "acquire m lk h = (if lock_mine lk h then panic ''acquire''
           else if lock_free lk h then Ok (acquired m lk h) else Inl Spin)
     \<and> (\<not> lock_mine lk h \<longrightarrow> release lk h = panic ''release'')
     \<and> (lock_free lk h \<longrightarrow> (\<exists>k. bindE (acquire m lk h) (release lk) = Ok k \<and> hw_same h k))"
proof (intro conjI impI)
  have "\<not> (lock_mine lk h \<and> lock_free lk h)" by (simp add: lock_mine_def lock_free_def)
  then show "acquire m lk h = (if lock_mine lk h then panic ''acquire''
       else if lock_free lk h then Ok (acquired m lk h) else Inl Spin)"
    using assms by (simp add: acquire_ok acquire_held acquire_other)
  show "release lk h = panic ''release''" if "\<not> lock_mine lk h"
    using assms that by (rule release_not_held)
  show "\<exists>k. bindE (acquire m lk h) (release lk) = Ok k \<and> hw_same h k" if "lock_free lk h"
    using spin.critical [OF assms that, of Inr m] by auto
qed

theorem acquire_release_spec_witness:
  "acquire (\<lambda>_. 0) KmemLock boot_hw = Ok (acquired (\<lambda>_. 0) KmemLock boot_hw)
     \<and> release KmemLock boot_hw = panic ''release''
     \<and> (\<exists>k. bindE (acquire (\<lambda>_. 0) KmemLock boot_hw) (release KmemLock) = Ok k \<and> hw_same boot_hw k)"
  using acquire_release_spec [OF boot_hw_ok, of "\<lambda>_. 0" KmemLock] boot_hw_free [of KmemLock]
  by (auto simp: lock_mine_def lock_free_def)

end
