(* ===== verification/Mmu.thy ===== *)
theory Mmu
  imports Prelude
begin

text \<open>
  The address arithmetic of \<open>mmu.h\<close> and \<open>memlayout.h\<close>: the split of a virtual address
  into directory index, table index and offset, rounding to page boundaries, the parts of
  a page table entry, and the map between kernel virtual and physical addresses. All of
  it is on 32-bit words.

  The lemmas give each macro its arithmetic meaning, the split and its inverse, and what a
  fill, a copy or a store within one page leaves alone in the others (added to
  \<open>mem_simps\<close>).
\<close>

section \<open>Constants\<close>

definition PGSIZE :: uint where [simp]: "PGSIZE = 4096"
definition PGSHIFT :: nat where [simp]: "PGSHIFT = 12"
definition PTXSHIFT :: nat where [simp]: "PTXSHIFT = 12"
definition PDXSHIFT :: nat where [simp]: "PDXSHIFT = 22"
definition NPDENTRIES :: nat where [simp]: "NPDENTRIES = 1024"
definition NPTENTRIES :: nat where [simp]: "NPTENTRIES = 1024"

definition PTE_P :: uint where [simp]: "PTE_P = 0x001"
definition PTE_W :: uint where [simp]: "PTE_W = 0x002"
definition PTE_U :: uint where [simp]: "PTE_U = 0x004"
definition PTE_PS :: uint where [simp]: "PTE_PS = 0x080"

definition EXTMEM :: uint where [simp]: "EXTMEM = 0x100000"
definition PHYSTOP :: uint where [simp]: "PHYSTOP = 0xE000000"
definition DEVSPACE :: uint where [simp]: "DEVSPACE = 0xFE000000"
definition KERNBASE :: uint where [simp]: "KERNBASE = 0x80000000"
definition KERNLINK :: uint where [simp]: "KERNLINK = KERNBASE + EXTMEM"

section \<open>Macros\<close>

definition PDX :: "uint \<Rightarrow> uint" where
  "PDX va = drop_bit PDXSHIFT va AND 0x3FF"

definition PTX :: "uint \<Rightarrow> uint" where
  "PTX va = drop_bit PTXSHIFT va AND 0x3FF"

definition PGADDR :: "uint \<Rightarrow> uint \<Rightarrow> uint \<Rightarrow> uint" where
  "PGADDR d t off = push_bit PDXSHIFT d OR push_bit PTXSHIFT t OR off"

definition PGROUNDUP :: "uint \<Rightarrow> uint" where
  "PGROUNDUP sz = (sz + PGSIZE - 1) AND NOT (PGSIZE - 1)"

definition PGROUNDDOWN :: "uint \<Rightarrow> uint" where
  "PGROUNDDOWN a = a AND NOT (PGSIZE - 1)"

definition PTE_ADDR :: "uint \<Rightarrow> uint" where
  "PTE_ADDR pte = pte AND NOT 0xFFF"

definition PTE_FLAGS :: "uint \<Rightarrow> uint" where
  "PTE_FLAGS pte = pte AND 0xFFF"

definition V2P :: "uint \<Rightarrow> uint" where
  "V2P a = a - KERNBASE"

definition P2V :: "uint \<Rightarrow> uint" where
  "P2V a = a + KERNBASE"

section \<open>Pages\<close>

definition page_aligned :: "uint \<Rightarrow> bool" where
  "page_aligned a \<longleftrightarrow> a mod PGSIZE = 0"

lemma unat_mod_4096: "unat (a mod 4096 :: uint) = unat a mod 4096"
  by (simp add: unat_mod_distrib)

lemma and_4095: "(a :: uint) AND 4095 = a mod 4096"
  using take_bit_eq_mask [of 12 a] take_bit_eq_mod [of 12 a]
  by (simp add: mask_eq_exp_minus_1)

lemma and_not_4095: "(a :: uint) AND NOT 4095 = a - a mod 4096"
proof -
  have "a = (a AND NOT 4095) + (a AND 4095)"
    by (subst disjunctive_add) (auto simp: bit_simps intro!: bit_word_eqI)
  then show ?thesis by (simp add: and_4095 algebra_simps)
qed

lemma and_m4096: "(a :: uint) AND - 4096 = a - a mod 4096"
  using and_not_4095 [of a] by simp

lemma PGROUNDDOWN_mod: "PGROUNDDOWN a = a - a mod 4096"
  by (simp add: PGROUNDDOWN_def and_m4096)

lemma PTE_ADDR_eq: "PTE_ADDR a = PGROUNDDOWN a"
  by (simp add: PTE_ADDR_def PGROUNDDOWN_def)

lemma unat_PGROUNDDOWN: "unat (PGROUNDDOWN a) = unat a - unat a mod 4096"
proof -
  have "a mod 4096 \<le> a" by (simp add: word_le_nat_alt unat_mod_distrib)
  then show ?thesis by (simp add: PGROUNDDOWN_mod unat_sub unat_mod_4096)
qed

lemma unat_PGROUNDDOWN_div: "unat (PGROUNDDOWN a) = unat a div 4096 * 4096"
  by (simp add: unat_PGROUNDDOWN minus_mod_eq_div_mult)

lemma page_aligned_unat: "page_aligned a \<longleftrightarrow> unat a mod 4096 = 0"
  unfolding page_aligned_def PGSIZE_def using unat_mod_4096 [of a] by (metis unat_eq_zero)

lemma page_aligned_PGROUNDDOWN [simp]: "page_aligned (PGROUNDDOWN a)"
  by (simp add: page_aligned_unat unat_PGROUNDDOWN_div)

lemma PGROUNDDOWN_aligned: "page_aligned a \<longleftrightarrow> PGROUNDDOWN a = a"
  by (metis PGROUNDDOWN_mod PGSIZE_def diff_zero page_aligned_PGROUNDDOWN page_aligned_def)

lemma PGROUNDDOWN_eq_iff: "PGROUNDDOWN a = PGROUNDDOWN b \<longleftrightarrow> unat a div 4096 = unat b div 4096"
  by (simp add: word_unat_eq_iff unat_PGROUNDDOWN_div)

lemma page_aligned_word_aligned: "page_aligned a \<Longrightarrow> word_aligned a"
  unfolding page_aligned_unat word_aligned_unat mod_eq_0_iff_dvd
  by (rule dvd_trans [OF dvdI [of _ _ 1024]]) simp_all

lemma PGROUNDDOWN_idem [simp]: "PGROUNDDOWN (PGROUNDDOWN a) = PGROUNDDOWN a"
  using PGROUNDDOWN_aligned page_aligned_PGROUNDDOWN by blast

lemma unat_page_add:
  assumes "page_aligned p" "k < 4096"
  shows "unat (p + of_nat k) = unat p + k"
proof -
  have "unat p < 2 ^ 32" "unat p mod 4096 = 0"
    using assms unsigned_less [of p] by (simp_all add: page_aligned_unat)
  then have "unat p + k < 2 ^ 32"
    using aligned_bound [of "unat p" 4096 "2 ^ 20" k] assms(2) by simp
  then show ?thesis
    using assms(2) by (simp add: unat_word_ariths unat_of_nat)
qed

lemma PGROUNDDOWN_add:
  assumes "page_aligned p" "k < 4096"
  shows "PGROUNDDOWN (p + of_nat k) = p"
proof -
  have "unat (PGROUNDDOWN (p + of_nat k)) = unat p"
    using assms unat_page_add [OF assms] by (auto simp: unat_PGROUNDDOWN_div page_aligned_unat)
  then show ?thesis by (simp add: word_unat_eq_iff)
qed

text \<open>Membership in a page, as the loops of block fill and block copy test it.\<close>

lemma in_page_iff:
  assumes "page_aligned p"
  shows "x - p < 4096 \<longleftrightarrow> PGROUNDDOWN x = p"
proof
  assume l: "x - p < 4096"
  then have "unat (x - p) < 4096" by (simp add: word_less_nat_alt)
  moreover have "x = p + of_nat (unat (x - p))" by simp
  ultimately show "PGROUNDDOWN x = p" using PGROUNDDOWN_add [OF assms] by metis
next
  assume "PGROUNDDOWN x = p"
  then have "x - p = x mod 4096" by (auto simp: PGROUNDDOWN_mod)
  then show "x - p < 4096" by (simp add: word_less_nat_alt unat_mod_4096)
qed

lemma PGROUNDDOWN_offset:
  assumes "word_aligned a" "k < 4"
  shows "PGROUNDDOWN (a + of_nat k) = PGROUNDDOWN a"
proof -
  obtain q where q: "unat a = 4 * q"
    using assms(1) by (auto simp: word_aligned_unat elim!: dvdE simp flip: dvd_eq_mod_eq_0)
  have "unat (a + of_nat k) = 4 * q + k" using unat_add_offset [OF assms] q by simp
  moreover have "(4 * q + k) div 4096 = (4 * q + k) div 4 div 1024"
    by (simp flip: div_mult2_eq)
  ultimately have "unat (a + of_nat k) div 4096 = unat a div 4096"
    using assms(2) q by simp
  then show ?thesis by (simp add: PGROUNDDOWN_eq_iff)
qed

lemmas PGROUNDDOWN_bytes =
  PGROUNDDOWN_offset [of _ 1, simplified] PGROUNDDOWN_offset [of _ 2, simplified]
  PGROUNDDOWN_offset [of _ 3, simplified]

section \<open>Memory by pages\<close>

lemma store32_page:
  assumes "word_aligned a" "PGROUNDDOWN x \<noteq> PGROUNDDOWN a"
  shows "store32 m a v x = m x"
proof -
  have "x \<noteq> a" "x \<noteq> a + 1" "x \<noteq> a + 2" "x \<noteq> a + 3"
    using assms PGROUNDDOWN_bytes [OF assms(1)] by auto
  then show ?thesis by (simp add: store32_def)
qed

definition page_fill :: "memory \<Rightarrow> uint \<Rightarrow> byte \<Rightarrow> memory" where
  "page_fill m p c = fill m p c PGSIZE"

definition page_copy :: "memory \<Rightarrow> uint \<Rightarrow> uint \<Rightarrow> memory" where
  "page_copy m d s = blit m d s PGSIZE"

lemma page_fill_apply:
  "page_aligned p \<Longrightarrow> page_fill m p c x = (if PGROUNDDOWN x = p then c else m x)"
  by (simp add: page_fill_def fill_def in_page_iff)

lemma page_copy_apply:
  "page_aligned d \<Longrightarrow> page_copy m d s x = (if PGROUNDDOWN x = d then m (s + (x - d)) else m x)"
  by (simp add: page_copy_def blit_def in_page_iff)

lemma load32_page_cong:
  assumes "word_aligned a" "\<And>x. PGROUNDDOWN x = PGROUNDDOWN a \<Longrightarrow> m x = m' x"
  shows "load32 m a = load32 m' a"
  using assms(2) [of a] assms(2) [of "a + 1"] assms(2) [of "a + 2"] assms(2) [of "a + 3"]
    PGROUNDDOWN_bytes [OF assms(1)]
  by (simp add: load32_def)

lemma load32_page_fill_other [mem_simps]:
  assumes "word_aligned a" "page_aligned p" "PGROUNDDOWN a \<noteq> p"
  shows "load32 (page_fill m p c) a = load32 m a"
  by (rule load32_page_cong [OF assms(1)]) (use assms in \<open>simp add: page_fill_apply\<close>)

lemma load32_page_fill_zero [mem_simps]:
  assumes "word_aligned a" "page_aligned p" "PGROUNDDOWN a = p"
  shows "load32 (page_fill m p 0) a = 0"
  using assms PGROUNDDOWN_bytes [OF assms(1)] by (simp add: load32_def page_fill_apply)

lemma load32_page_copy_other [mem_simps]:
  assumes "word_aligned a" "page_aligned d" "PGROUNDDOWN a \<noteq> d"
  shows "load32 (page_copy m d s) a = load32 m a"
  by (rule load32_page_cong [OF assms(1)]) (use assms in \<open>simp add: page_copy_apply\<close>)

lemma load32_store32_page:
  assumes "word_aligned a" "word_aligned b" "PGROUNDDOWN a \<noteq> PGROUNDDOWN b"
  shows "load32 (store32 m a v) b = load32 m b"
  using load32_store32_other [OF assms(1,2)] assms(3) by blast

section \<open>Splitting addresses\<close>

lemma and_1023: "(a :: uint) AND 0x3FF = a mod 1024"
  using take_bit_eq_mask [of 10 a] take_bit_eq_mod [of 10 a]
  by (simp add: mask_eq_exp_minus_1)

lemma unat_PDX: "unat (PDX va) = unat va div 4194304"
proof -
  have "unat va div 4194304 < 1024" using unsigned_less [of va] by (simp add: div_less_iff_less_mult)
  then show ?thesis
    by (simp add: PDX_def and_1023 drop_bit_eq_div unat_div_distrib unat_mod_distrib)
qed

lemma unat_PTX: "unat (PTX va) = unat va div 4096 mod 1024"
  by (simp add: PTX_def and_1023 drop_bit_eq_div unat_div_distrib unat_mod_distrib)

lemma PDX_less: "unat (PDX va) < 1024"
  using unsigned_less [of va] by (simp add: unat_PDX div_less_iff_less_mult)

lemma PTX_less: "unat (PTX va) < 1024"
  by (simp add: unat_PTX)

lemma PDX_PTX_page: "PDX a = PDX b \<and> PTX a = PTX b \<longleftrightarrow> PGROUNDDOWN a = PGROUNDDOWN b"
proof -
  have d: "n div 4194304 = n div 4096 div 1024" for n :: nat by (simp flip: div_mult2_eq)
  have "n div 1024 = m div 1024 \<and> n mod 1024 = m mod 1024 \<longleftrightarrow> n = m" for n m :: nat
    by (metis div_mult_mod_eq)
  then show ?thesis
    by (simp add: word_unat_eq_iff [of "PDX a"] word_unat_eq_iff [of "PTX a"] unat_PDX unat_PTX d
        PGROUNDDOWN_eq_iff)
qed

lemma PDX_PGROUNDDOWN [simp]: "PDX (PGROUNDDOWN a) = PDX a" "PTX (PGROUNDDOWN a) = PTX a"
  using PDX_PTX_page [of "PGROUNDDOWN a" a] by simp_all

lemma PGROUNDUP_down: "PGROUNDUP a = PGROUNDDOWN (a + 4095)"
  by (simp add: PGROUNDUP_def PGROUNDDOWN_def add.commute)

lemma unat_PGROUNDUP:
  assumes "unat a + 4095 < 2 ^ 32"
  shows "unat (PGROUNDUP a) = (unat a + 4095) div 4096 * 4096"
proof -
  have "unat (a + 4095) = unat a + 4095" using assms by (simp add: unat_word_ariths)
  then show ?thesis by (simp add: PGROUNDUP_down unat_PGROUNDDOWN_div)
qed

lemma page_aligned_PGROUNDUP [simp]: "page_aligned (PGROUNDUP a)"
  by (simp add: PGROUNDUP_down)

lemma PGROUNDUP_aligned: "page_aligned a \<Longrightarrow> PGROUNDUP a = a"
  using PGROUNDDOWN_add [of a 4095] by (simp add: PGROUNDUP_down)

lemma page_aligned_V2P [simp]: "page_aligned (V2P a) \<longleftrightarrow> page_aligned a"
proof -
  have k: "4096 dvd (0x80000000 :: nat)" by (rule dvdI [of _ _ 524288]) simp
  have "4096 dvd unat (V2P a) \<longleftrightarrow> 4096 dvd unat a"
  proof (cases "0x80000000 \<le> unat a")
    case True
    then have "unat (V2P a) + 0x80000000 = unat a" by (simp add: V2P_def unat_sub_if')
    then show ?thesis using dvd_add_left_iff [OF k, of "unat (V2P a)"] by simp
  next
    case False
    then have "unat (V2P a) = unat a + 0x80000000" by (simp add: V2P_def unat_sub_if')
    then show ?thesis using dvd_add_left_iff [OF k, of "unat a"] by simp
  qed
  then show ?thesis by (simp add: page_aligned_unat dvd_eq_mod_eq_0)
qed

lemma P2V_V2P [simp]: "P2V (V2P a) = a" "V2P (P2V a) = a"
  by (simp_all add: P2V_def V2P_def)

lemma page_aligned_P2V [simp]: "page_aligned (P2V a) \<longleftrightarrow> page_aligned a"
  using page_aligned_V2P [of "P2V a"] by simp

end
