(* ===== verification/Cstr.thy ===== *)
theory Cstr
  imports Prelude
begin

text \<open>
  The memory and string routines of the kernel, \<open>string.c\<close>, on byte-addressed memory,
  with \<open>stosb\<close> and \<open>stosl\<close> of \<open>x86.h\<close> (one iteration per repetition of the string
  instruction). Loops that count down recurse on the count; \<open>strlen\<close>, which need not
  end, returns an option.

  The lemmas reduce the routines to the two block operations of the prelude: \<open>memset\<close>
  is \<open>fill\<close> whichever of its two branches runs, \<open>memmove\<close> is \<open>blit\<close> whichever
  way the blocks overlap; and they describe the bytes that \<open>strncpy\<close> and
  \<open>safestrcpy\<close> leave and the order that \<open>strncmp\<close> decides.
\<close>

section \<open>Block operations\<close>

primrec stosb :: "nat \<Rightarrow> memory \<Rightarrow> uint \<Rightarrow> byte \<Rightarrow> memory" where
  "stosb 0 m a c = m"
| "stosb (Suc n) m a c = stosb n (m(a := c)) (a + 1) c"

primrec stosl :: "nat \<Rightarrow> memory \<Rightarrow> uint \<Rightarrow> uint \<Rightarrow> memory" where
  "stosl 0 m a v = m"
| "stosl (Suc n) m a v = stosl n (store32 m a v) (a + 4) v"

definition memset :: "memory \<Rightarrow> uint \<Rightarrow> uint \<Rightarrow> uint \<Rightarrow> memory" where
  "memset m dst c n =
     (if dst mod 4 = 0 \<and> n mod 4 = 0 then
        let c = c AND 0xFF in
        stosl (unat (n div 4)) m dst (push_bit 24 c OR push_bit 16 c OR push_bit 8 c OR c)
      else stosb (unat n) m dst (ucast c))"

primrec copy_fwd :: "nat \<Rightarrow> memory \<Rightarrow> uint \<Rightarrow> uint \<Rightarrow> memory" where
  "copy_fwd 0 m d s = m"
| "copy_fwd (Suc n) m d s = copy_fwd n (m(d := m s)) (d + 1) (s + 1)"

primrec copy_bwd :: "nat \<Rightarrow> memory \<Rightarrow> uint \<Rightarrow> uint \<Rightarrow> memory" where
  "copy_bwd 0 m d s = m"
| "copy_bwd (Suc n) m d s = copy_bwd n (m(d - 1 := m (s - 1))) (d - 1) (s - 1)"

definition memmove :: "memory \<Rightarrow> uint \<Rightarrow> uint \<Rightarrow> uint \<Rightarrow> memory" where
  "memmove m dst src n =
     (if src < dst \<and> src + n > dst then copy_bwd (unat n) m (dst + n) (src + n)
      else copy_fwd (unat n) m dst src)"

definition memcpy :: "memory \<Rightarrow> uint \<Rightarrow> uint \<Rightarrow> uint \<Rightarrow> memory" where
  "memcpy m dst src n = memmove m dst src n"

text \<open>A pointer that is only read is its sequence of bytes, \<open>nat \<Rightarrow> byte\<close>;
  \<open>at m a\<close> is the one at address \<open>a\<close> of \<open>m\<close>.\<close>

definition at :: "memory \<Rightarrow> uint \<Rightarrow> nat \<Rightarrow> byte" where
  "at m a = (\<lambda>i. m (a + of_nat i))"

primrec memcmp :: "nat \<Rightarrow> (nat \<Rightarrow> byte) \<Rightarrow> (nat \<Rightarrow> byte) \<Rightarrow> int" where
  "memcmp 0 s1 s2 = 0"
| "memcmp (Suc n) s1 s2 =
     (if s1 0 \<noteq> s2 0 then uint (s1 0) - uint (s2 0)
      else memcmp n (\<lambda>i. s1 (Suc i)) (\<lambda>i. s2 (Suc i)))"

section \<open>Strings\<close>

primrec strncmp :: "nat \<Rightarrow> (nat \<Rightarrow> byte) \<Rightarrow> (nat \<Rightarrow> byte) \<Rightarrow> int" where
  "strncmp 0 p q = 0"
| "strncmp (Suc n) p q =
     (if p 0 \<noteq> 0 \<and> p 0 = q 0 then strncmp n (\<lambda>i. p (Suc i)) (\<lambda>i. q (Suc i))
      else uint (p 0) - uint (q 0))"

primrec zero_rest :: "nat \<Rightarrow> memory \<Rightarrow> uint \<Rightarrow> memory" where
  "zero_rest 0 m s = m"
| "zero_rest (Suc n) m s = zero_rest n (m(s := 0)) (s + 1)"

primrec strncpy_loop :: "nat \<Rightarrow> memory \<Rightarrow> uint \<Rightarrow> uint \<Rightarrow> memory" where
  "strncpy_loop 0 m s t = m"
| "strncpy_loop (Suc n) m s t =
     (if m t \<noteq> 0 then strncpy_loop n (m(s := m t)) (s + 1) (t + 1)
      else zero_rest n (m(s := m t)) (s + 1))"

definition strncpy :: "memory \<Rightarrow> uint \<Rightarrow> uint \<Rightarrow> int \<Rightarrow> memory" where
  "strncpy m s t n = strncpy_loop (nat n) m s t"

primrec safestrcpy_loop :: "nat \<Rightarrow> memory \<Rightarrow> uint \<Rightarrow> uint \<Rightarrow> memory" where
  "safestrcpy_loop 0 m s t = m(s := 0)"
| "safestrcpy_loop (Suc n) m s t =
     (if m t \<noteq> 0 then safestrcpy_loop n (m(s := m t)) (s + 1) (t + 1)
      else (m(s := m t))(s + 1 := 0))"

definition safestrcpy :: "memory \<Rightarrow> uint \<Rightarrow> uint \<Rightarrow> int \<Rightarrow> memory" where
  "safestrcpy m s t n = (if n \<le> 0 then m else safestrcpy_loop (nat (n - 1)) m s t)"

partial_function (option) strlen_from :: "memory \<Rightarrow> uint \<Rightarrow> nat \<Rightarrow> nat option" where
  "strlen_from m s n = (if m (s + of_nat n) = 0 then Some n else strlen_from m s (Suc n))"

definition strlen :: "memory \<Rightarrow> uint \<Rightarrow> nat option" where
  "strlen m s = strlen_from m s 0"

section \<open>memset\<close>

lemma less_Suc_word:
  assumes "Suc k < 2 ^ 32"
  shows "(d :: uint) < of_nat (Suc k) \<longleftrightarrow> d = 0 \<or> d - 1 < of_nat k"
proof (cases "d = 0")
  case True
  with assms show ?thesis by (simp add: word_less_nat_alt unat_of_nat del: of_nat_Suc)
next
  case False
  then have "0 < unat d" by (simp add: unat_gt_0)
  moreover have "unat (d - 1) = unat d - 1" using False by (simp add: unat_minus_one)
  ultimately show ?thesis
    using assms False by (simp add: word_less_nat_alt unat_of_nat del: of_nat_Suc) arith
qed

lemma stosb_fill: "n < 2 ^ 32 \<Longrightarrow> stosb n m a c = fill m a c (of_nat n)"
proof (induction n arbitrary: m a)
  case 0
  show ?case by (simp add: fill_def)
next
  case (Suc n)
  then have "stosb (Suc n) m a c = fill (m(a := c)) (a + 1) c (of_nat n)" by simp
  also have "\<dots> = fill m a c (of_nat (Suc n))"
    using less_Suc_word [OF Suc.prems]
    by (auto simp: fill_def fun_eq_iff diff_diff_eq simp del: of_nat_Suc)
  finally show ?case .
qed

lemma store32_rep:
  "store32 m a (push_bit 24 (ucast c) OR push_bit 16 (ucast c) OR push_bit 8 (ucast c) OR ucast c)
     = stosb 4 m a (c :: byte)" (is "store32 m a ?v = _")
proof -
  have "(ucast ?v :: byte) = c" "(ucast (drop_bit 8 ?v) :: byte) = c"
    "(ucast (drop_bit 16 ?v) :: byte) = c" "(ucast (drop_bit 24 ?v) :: byte) = c"
    by (rule bit_word_eqI; auto simp: bit_simps dest: bit_imp_le_length)+
  then show ?thesis
    by (simp add: store32_def numeral_eq_Suc add.assoc)
qed

lemma stosb_add: "stosb (j + k) m a c = stosb k (stosb j m a c) (a + of_nat j) c"
  by (induction j arbitrary: m a) (simp_all add: algebra_simps)

lemma stosl_stosb:
  "stosl n m a (push_bit 24 (ucast c) OR push_bit 16 (ucast c) OR push_bit 8 (ucast c) OR ucast c)
     = stosb (4 * n) m a (c :: byte)"
proof (induction n arbitrary: m a)
  case 0
  show ?case by simp
next
  case (Suc n)
  then show ?case
    using stosb_add [of 4 "4 * n" m a c] by (simp add: store32_rep)
qed

lemma memset_fill: "memset m dst c n = fill m dst (ucast c) n"
proof -
  have n: "stosb (unat n) m dst (ucast c) = fill m dst (ucast c) n"
    using stosb_fill [of "unat n" m dst "ucast c"] unsigned_less [of n] by simp
  show ?thesis
  proof (cases "dst mod 4 = 0 \<and> n mod 4 = 0")
    case True
    have c: "c AND 0xFF = ucast (ucast c :: byte)"
      using take_bit_eq_mask [of 8 c]
      by (simp add: mask_eq_exp_minus_1 unsigned_ucast_eq)
    have "unat n mod 4 = 0"
      using True unat_mod_distrib [of n 4] by simp
    then have "4 * unat (n div 4) = unat n"
      using mult_div_mod_eq [of 4 "unat n"] by (simp add: unat_div_distrib)
    then show ?thesis
      using True n stosl_stosb [of "unat (n div 4)" m dst "ucast c"]
      by (simp add: memset_def Let_def c)
  next
    case False
    then show ?thesis using n by (auto simp: memset_def)
  qed
qed

section \<open>memmove\<close>

lemma unat_add_le:
  assumes "unat (a :: uint) + n < 2 ^ 32"
  shows "unat (a + of_nat n) = unat a + n"
  using assms by (simp add: unat_word_ariths unat_of_nat)

lemma copy_fwd_blit:
  assumes "unat s + n \<le> 2 ^ 32" "unat d + n \<le> 2 ^ 32" "unat d \<le> unat s \<or> unat s + n \<le> unat d"
    and "n < 2 ^ 32"
  shows "copy_fwd n m d s = blit m d s (of_nat n)"
  using assms
proof (induction n arbitrary: m d s)
  case 0
  show ?case by (simp add: blit_def)
next
  case (Suc n)
  let ?m = "m(d := m s)"
  have step: "copy_fwd n ?m (d + 1) (s + 1) = blit ?m (d + 1) (s + 1) (of_nat n)"
  proof (cases n)
    case 0
    then show ?thesis by (simp add: blit_def fun_eq_iff)
  next
    case (Suc k)
    then have "unat (d + 1) = unat d + 1" "unat (s + 1) = unat s + 1"
      using Suc.prems unat_add_le [of d 1] unat_add_le [of s 1] by simp_all
    then show ?thesis using Suc.prems by (intro Suc.IH) auto
  qed
  have ne: "s + (x - d) \<noteq> d" if "x - (d + 1) < of_nat n" for x
  proof -
    have "x \<noteq> d"
    proof
      assume "x = d"
      with that have "(- 1 :: uint) < of_nat n" by simp
      then show False using word_order.extremum_strict by blast
    qed
    note that = that this
    have "unat (x - d) \<le> n" "0 < unat (x - d)"
      using that less_Suc_word [of n "x - d"] Suc.prems(4)
      by (auto simp: word_less_nat_alt unat_of_nat diff_diff_eq unat_gt_0 simp del: of_nat_Suc)
    then have "unat (s + (x - d)) = unat s + unat (x - d)"
      using Suc.prems(1) unat_add_le [of s "unat (x - d)"] by simp
    with \<open>unat (x - d) \<le> n\<close> \<open>0 < unat (x - d)\<close> Suc.prems(3)
    have "unat (s + (x - d)) \<noteq> unat d" by linarith
    then show ?thesis by metis
  qed
  have "blit ?m (d + 1) (s + 1) (of_nat n) = blit m d s (of_nat (Suc n))"
    using less_Suc_word [OF Suc.prems(4)] ne
    by (auto simp: blit_def fun_eq_iff diff_diff_eq algebra_simps simp del: of_nat_Suc)
  with step show ?case by simp
qed

lemma copy_bwd_blit:
  assumes "unat s + n \<le> 2 ^ 32" "unat d + n \<le> 2 ^ 32" "unat s \<le> unat d" "n < 2 ^ 32"
  shows "copy_bwd n m (d + of_nat n) (s + of_nat n) = blit m d s (of_nat n)"
  using assms
proof (induction n arbitrary: m)
  case 0
  show ?case by (simp add: blit_def)
next
  case (Suc n)
  let ?m = "m(d + of_nat n := m (s + of_nat n))"
  have "copy_bwd (Suc n) m (d + of_nat (Suc n)) (s + of_nat (Suc n)) = blit ?m d s (of_nat n)"
    using Suc by (simp add: algebra_simps)
  moreover have "blit ?m d s (of_nat n) x = blit m d s (of_nat (Suc n)) x" for x
  proof -
    have l: "x - d < of_nat (Suc n) \<longleftrightarrow> x - d < of_nat n \<or> x = d + of_nat n"
    proof -
      have "x = d + of_nat n \<longleftrightarrow> x - d = of_nat n" by (auto simp: algebra_simps)
      also have "\<dots> \<longleftrightarrow> unat (x - d) = n"
        using Suc.prems(4) by (simp add: word_unat_eq_iff unat_of_nat)
      finally show ?thesis
        using Suc.prems(4) by (auto simp: word_less_nat_alt unat_of_nat simp del: of_nat_Suc)
    qed
    have "s + (x - d) \<noteq> d + of_nat n" if "x - d < of_nat n"
    proof -
      have "unat (x - d) < n" using that Suc.prems(4) by (simp add: word_less_nat_alt unat_of_nat)
      then have "unat (s + (x - d)) = unat s + unat (x - d)" "unat (d + of_nat n) = unat d + n"
        using Suc.prems unat_add_le [of s "unat (x - d)"] unat_add_le [of d n] by simp_all
      with \<open>unat (x - d) < n\<close> Suc.prems(3)
      have "unat (s + (x - d)) \<noteq> unat (d + of_nat n)" by linarith
      then show ?thesis by metis
    qed
    with l show ?thesis by (auto simp: blit_def simp del: of_nat_Suc)
  qed
  ultimately show ?case by (simp only: fun_eq_iff) blast
qed

lemma memmove_blit:
  assumes "unat src + unat n \<le> 2 ^ 32" "unat dst + unat n \<le> 2 ^ 32"
  shows "memmove m dst src n = blit m dst src n"
proof (cases "src < dst \<and> src + n > dst")
  case True
  then have "unat src \<le> unat dst" by (simp add: word_less_nat_alt)
  with True assms show ?thesis
    using copy_bwd_blit [of src "unat n" dst m] unsigned_less [of n] by (simp add: memmove_def)
next
  case False
  have "unat src + unat n \<le> unat dst" if "unat src < unat dst"
  proof -
    have "unat (src + n) = unat src + unat n"
      using that assms(2) unat_add_le [of src "unat n"] by simp
    then show ?thesis using False that by (simp add: word_less_nat_alt)
  qed
  with False assms show ?thesis
    using copy_fwd_blit [of src "unat n" dst m] unsigned_less [of n]
    by (fastforce simp: memmove_def)
qed

section \<open>String comparison\<close>

text \<open>The string of at most \<open>n\<close> characters that a pointer denotes.\<close>

definition cstr :: "nat \<Rightarrow> (nat \<Rightarrow> byte) \<Rightarrow> byte list" where
  "cstr n p = takeWhile (\<lambda>c. c \<noteq> 0) (map p [0..<n])"

lemma cstr_0 [simp]: "cstr 0 p = []"
  by (simp add: cstr_def)

lemma cstr_Suc: "cstr (Suc n) p = (if p 0 = 0 then [] else p 0 # cstr n (\<lambda>i. p (Suc i)))"
  by (simp only: cstr_def map_upt_Suc) simp

lemma uint_diff_0: "uint (a :: byte) - uint b = 0 \<longleftrightarrow> a = b"
  by (simp add: word_uint_eq_iff)

lemma strncmp_0_iff: "strncmp n p q = 0 \<longleftrightarrow> cstr n p = cstr n q"
proof (induction n arbitrary: p q)
  case 0
  show ?case by simp
next
  case (Suc n)
  then show ?case
    using uint_diff_0 [of "p 0" "q 0"] by (auto simp: cstr_Suc)
qed

lemma memcmp_0_iff: "memcmp n p q = 0 \<longleftrightarrow> (\<forall>i < n. p i = q i)"
proof (induction n arbitrary: p q)
  case 0
  show ?case by simp
next
  case (Suc n)
  then show ?case
    using uint_diff_0 [of "p 0" "q 0"] by (auto simp: less_Suc_eq_0_disj)
qed

section \<open>String copy\<close>

lemma add_Suc_word: "(a :: uint) + 1 + of_nat i = a + of_nat (Suc i)"
  by simp

lemma zero_rest_apply:
  "n < 2 ^ 32 \<Longrightarrow> zero_rest n m s x = (if x - s < of_nat n then 0 else m x)"
proof (induction n arbitrary: m s)
  case 0
  show ?case by simp
next
  case (Suc n)
  then show ?case
    using less_Suc_word [OF Suc.prems, of "x - s"] by (auto simp: diff_diff_eq simp del: of_nat_Suc)
qed

text \<open>Both copies from a source that the destination does not overlap, described byte by
  byte.\<close>

lemma at_0 [simp]: "at m a 0 = m a"
  by (simp add: at_def)

lemma at_Suc: "at m a (Suc i) = at m (a + 1) i"
  by (simp add: at_def add_Suc_word)

lemma cstr_cong: "(\<And>i. i < n \<Longrightarrow> p i = q i) \<Longrightarrow> cstr n p = cstr n q"
  unfolding cstr_def by (metis (mono_tags, lifting) atLeastLessThan_iff map_cong set_upt)

lemma cstr_at_Suc: "cstr (Suc n) (at m a) = (if m a = 0 then [] else m a # cstr n (at m (a + 1)))"
  by (simp add: cstr_Suc at_Suc)

lemma cstr_at_upd:
  "(\<And>j. j < n \<Longrightarrow> a + of_nat j \<noteq> x) \<Longrightarrow> cstr n (at (m(x := v)) a) = cstr n (at m a)"
  by (intro cstr_cong) (simp add: at_def)

definition apart :: "nat \<Rightarrow> uint \<Rightarrow> uint \<Rightarrow> bool" where
  "apart n s t \<longleftrightarrow> (\<forall>i j. i < n \<longrightarrow> j < n \<longrightarrow> s + of_nat i \<noteq> t + of_nat j)"

lemma apart_Suc:
  assumes "apart (Suc n) s t"
  shows "apart n (s + 1) (t + 1)" and "s \<noteq> t" and "\<And>j. j < n \<Longrightarrow> t + 1 + of_nat j \<noteq> s"
proof -
  have a: "\<And>i j. i < Suc n \<Longrightarrow> j < Suc n \<Longrightarrow> s + of_nat i \<noteq> t + of_nat j"
    using assms unfolding apart_def by blast
  show "apart n (s + 1) (t + 1)"
    unfolding apart_def add_Suc_word using a by simp
  show "s \<noteq> t" using a [of 0 0] by simp
  show "t + 1 + of_nat j \<noteq> s" if "j < n" for j
    unfolding add_Suc_word using a [of 0 "Suc j"] that by (auto simp del: of_nat_Suc)
qed

lemma strncpy_loop_frame:
  "n < 2 ^ 32 \<Longrightarrow> \<not> x - s < of_nat n \<Longrightarrow> strncpy_loop n m s t x = m x"
proof (induction n arbitrary: m s t)
  case 0
  show ?case by simp
next
  case (Suc n)
  then have "x \<noteq> s" "\<not> x - (s + 1) < of_nat n"
    using less_Suc_word [OF Suc.prems(1), of "x - s"] by (auto simp: diff_diff_eq simp del: of_nat_Suc)
  with Suc show ?case by (simp add: zero_rest_apply)
qed

lemma self_not_ahead: "n < 2 ^ 32 \<Longrightarrow> \<not> (s :: uint) - (s + 1) < of_nat n"
  by simp

lemma strncpy_loop_apply:
  "n < 2 ^ 32 \<Longrightarrow> apart n s t \<Longrightarrow> i < n \<Longrightarrow> strncpy_loop n m s t (s + of_nat i)
    = (let str = cstr n (at m t) in if i < length str then str ! i else 0)"
proof (induction n arbitrary: m s t i)
  case 0
  then show ?case by simp
next
  case (Suc n)
  note ap = apart_Suc [OF Suc.prems(2)]
  let ?m = "m(s := m t)"
  have str: "cstr n (at ?m (t + 1)) = cstr n (at m (t + 1))"
    using ap(3) by (rule cstr_at_upd)
  show ?case
  proof (cases i)
    case 0
    have "strncpy_loop (Suc n) m s t s = ?m s"
      using Suc.prems(1) self_not_ahead [of n s] strncpy_loop_frame [of n s "s + 1" ?m "t + 1"]
      by (simp add: zero_rest_apply)
    with 0 show ?thesis by (simp add: cstr_at_Suc)
  next
    case (Suc k)
    then have k: "k < n" "s + of_nat i = s + 1 + of_nat k" using Suc.prems(3) by simp_all
    show ?thesis
    proof (cases "m t = 0")
      case True
      have "s + 1 + of_nat k - (s + 1) < of_nat n"
        using k(1) Suc.prems(1) by (simp add: word_less_nat_alt unat_of_nat)
      with True k Suc.prems(1) show ?thesis
        by (simp add: zero_rest_apply cstr_at_Suc)
    next
      case False
      then have "strncpy_loop (Suc n) m s t (s + of_nat i)
        = strncpy_loop n ?m (s + 1) (t + 1) (s + 1 + of_nat k)" unfolding k(2) by simp
      also have "\<dots> = (let str = cstr n (at ?m (t + 1)) in if k < length str then str ! k else 0)"
        using Suc.prems(1) ap(1) k(1) by (intro Suc.IH) simp_all
      finally show ?thesis
        using False \<open>i = Suc k\<close> str by (simp add: cstr_at_Suc Let_def)
    qed
  qed
qed

lemma safestrcpy_loop_frame:
  "Suc n < 2 ^ 32 \<Longrightarrow> \<not> x - s < of_nat (Suc n) \<Longrightarrow> safestrcpy_loop n m s t x = m x"
proof (induction n arbitrary: m s t)
  case 0
  then show ?case by auto
next
  case (Suc n)
  then have x: "x \<noteq> s" "\<not> x - (s + 1) < of_nat (Suc n)"
    using less_Suc_word [OF Suc.prems(1), of "x - s"] by (auto simp: diff_diff_eq simp del: of_nat_Suc)
  moreover have "x \<noteq> s + 1"
    using x(2) Suc.prems(1) less_Suc_word [of n "x - (s + 1)"] by (auto simp del: of_nat_Suc)
  ultimately show ?case using Suc by (simp del: of_nat_Suc)
qed

lemma safestrcpy_loop_cstr:
  "Suc n < 2 ^ 32 \<Longrightarrow> apart (Suc n) s t \<Longrightarrow>
    cstr (Suc n) (at (safestrcpy_loop n m s t) s) = cstr n (at m t)"
proof (induction n arbitrary: m s t)
  case 0
  show ?case by (simp add: cstr_Suc)
next
  case (Suc n)
  note ap = apart_Suc [OF Suc.prems(2)]
  let ?m = "m(s := m t)"
  show ?case
  proof (cases "m t = 0")
    case True
    then show ?thesis by (simp add: cstr_at_Suc)
  next
    case False
    have "safestrcpy_loop n ?m (s + 1) (t + 1) s = ?m s"
      using Suc.prems(1) self_not_ahead [of "Suc n" s] by (intro safestrcpy_loop_frame) simp_all
    moreover have "cstr (Suc n) (at (safestrcpy_loop n ?m (s + 1) (t + 1)) (s + 1)) = cstr n (at ?m (t + 1))"
      using Suc.prems(1) ap(1) by (intro Suc.IH) simp_all
    moreover have "cstr n (at ?m (t + 1)) = cstr n (at m (t + 1))"
      using ap(3) by (intro cstr_at_upd) simp
    ultimately show ?thesis
      using False cstr_at_Suc [of "Suc n"] cstr_at_Suc [of n m t] by simp
  qed
qed

lemma length_cstr: "length (cstr n p) \<le> n"
  unfolding cstr_def by (metis diff_zero length_map length_takeWhile_le length_upt)

section \<open>strlen\<close>

lemma strlen_from_found:
  "m (s + of_nat (n + k)) = 0 \<Longrightarrow> (\<And>j. j < k \<Longrightarrow> m (s + of_nat (n + j)) \<noteq> 0) \<Longrightarrow>
    strlen_from m s n = Some (n + k)"
proof (induction k arbitrary: n)
  case 0
  then show ?case by (simp add: strlen_from.simps)
next
  case (Suc k)
  have "strlen_from m s (Suc n) = Some (Suc n + k)"
  proof (rule Suc.IH)
    show "m (s + of_nat (Suc n + k)) = 0" using Suc.prems(1) by simp
    show "m (s + of_nat (Suc n + j)) \<noteq> 0" if "j < k" for j
      using Suc.prems(2) [of "Suc j"] that by simp
  qed
  moreover have "m (s + of_nat n) \<noteq> 0" using Suc.prems(2) [of 0] by simp
  ultimately show ?case by (simp add: strlen_from.simps [of m s n])
qed

text \<open>With a terminator within \<open>n\<close> bytes the loop ends, with the length of the string.\<close>

lemma strlen_cstr:
  assumes "length (cstr n (at m s)) < n"
  shows "strlen m s = Some (length (cstr n (at m s)))"
proof -
  let ?k = "length (cstr n (at m s))"
  have c: "cstr n (at m s) = takeWhile (\<lambda>c. c \<noteq> 0) (map (at m s) [0..<n])" by (simp add: cstr_def)
  have "at m s ?k = 0"
    using nth_length_takeWhile [of "\<lambda>c. c \<noteq> 0" "map (at m s) [0..<n]"] assms by (simp add: c)
  moreover have "at m s j \<noteq> 0" if "j < ?k" for j
  proof -
    have "cstr n (at m s) ! j = at m s j"
      using that assms takeWhile_nth [of j "\<lambda>c. c \<noteq> 0" "map (at m s) [0..<n]"] by (simp add: c)
    then show ?thesis using nth_mem [OF that] by (auto simp: c dest: set_takeWhileD)
  qed
  ultimately show ?thesis
    using strlen_from_found [of m s 0 ?k] by (simp add: strlen_def at_def)
qed

section \<open>Properties\<close>

text \<open>C23: \<open>memmove\<close> copies as if through a buffer. Whichever way the two blocks overlap, the
  \<open>n\<close> bytes at \<open>dst\<close> are afterwards the bytes that were at \<open>src\<close>, and no other byte
  changes, provided neither block runs past the end of the address space.\<close>

theorem memmove_overlap:
  assumes "unat src + unat n \<le> 2 ^ 32" "unat dst + unat n \<le> 2 ^ 32"
  shows "(\<forall>i. i < n \<longrightarrow> memmove m dst src n (dst + i) = m (src + i))
     \<and> (\<forall>x. \<not> x - dst < n \<longrightarrow> memmove m dst src n x = m x)"
  unfolding memmove_blit [OF assms] by (simp add: blit_def)

theorem memmove_overlap_witness:
  "memmove (\<lambda>x. ucast x) 0x1002 0x1000 5 0x1004 = 2 \<and> memmove (\<lambda>x. ucast x) 0x1002 0x1000 5 0x1007 = 7"
proof -
  let ?c = "\<lambda>x :: uint. ucast x :: byte"
  have "(\<forall>i. i < 5 \<longrightarrow> memmove ?c 0x1002 0x1000 5 (0x1002 + i) = ?c (0x1000 + i))
     \<and> (\<forall>x. \<not> x - 0x1002 < 5 \<longrightarrow> memmove ?c 0x1002 0x1000 5 x = ?c x)"
    by (rule memmove_overlap) simp_all
  note this [THEN conjunct1, rule_format, of 2] and this [THEN conjunct2, rule_format, of "0x1007"]
  then show ?thesis by simp
qed

text \<open>\<open>safestrcpy\<close> always leaves a terminated string: for \<open>n > 0\<close> the \<open>n\<close> bytes at
  \<open>s\<close> hold the first \<open>n - 1\<close> characters of the source string and \<open>strlen\<close> of the
  copy returns their number; nothing outside those \<open>n\<close> bytes changes. For \<open>n \<le> 0\<close>
  nothing is written.\<close>

theorem safestrcpy_terminates:
  assumes "n < 2 ^ 32" "apart (nat n) s t"
  shows "(0 < n \<longrightarrow> cstr (nat n) (at (safestrcpy m s t n) s) = cstr (nat n - 1) (at m t)
       \<and> strlen (safestrcpy m s t n) s = Some (length (cstr (nat n - 1) (at m t))))
     \<and> (\<forall>x. \<not> (0 < n \<and> x - s < of_int n) \<longrightarrow> safestrcpy m s t n x = m x)"
proof (cases "0 < n")
  case False
  then show ?thesis by (simp add: safestrcpy_def)
next
  case True
  define k where "k = nat (n - 1)"
  have n: "n = int (Suc k)" using True by (simp add: k_def)
  have k: "nat n = Suc k" "Suc k < 2 ^ 32" "(of_int n :: uint) = of_nat (Suc k)"
    using assms(1) unfolding n by simp_all
  have e: "safestrcpy m s t n = safestrcpy_loop k m s t" using True by (simp add: safestrcpy_def k_def)
  have c: "cstr (Suc k) (at (safestrcpy_loop k m s t) s) = cstr k (at m t)"
    using safestrcpy_loop_cstr [of k s t m] k assms(2) by simp
  moreover have "length (cstr k (at m t)) < Suc k" using length_cstr [of k "at m t"] by simp
  ultimately have "strlen (safestrcpy_loop k m s t) s = Some (length (cstr k (at m t)))"
    using strlen_cstr [of "Suc k" "safestrcpy_loop k m s t" s] by simp
  then show ?thesis using c e k safestrcpy_loop_frame [of k _ s m t] by (simp del: of_nat_Suc)
qed

theorem safestrcpy_terminates_witness:
  "strlen (safestrcpy ((\<lambda>_. 0)(0x2000 := 120, 0x2001 := 118, 0x2002 := 54)) 0x1000 0x2000 3) 0x1000 = Some 2"
proof -
  let ?m = "(\<lambda>_. 0)(0x2000 := 120, 0x2001 := 118, 0x2002 := 54) :: memory"
  have "apart (Suc (Suc (Suc 0))) 0x1000 0x2000"
    by (auto simp: apart_def less_Suc_eq)
  then have "apart (nat 3) 0x1000 0x2000" by (metis nat_numeral numeral_3_eq_3)
  moreover have "cstr (Suc (Suc 0)) (at ?m 0x2000) = [120, 118]"
    by (simp add: cstr_Suc at_def)
  then have "cstr 2 (at ?m 0x2000) = [120, 118]" by (simp only: numeral_2_eq_2)
  ultimately show ?thesis using safestrcpy_terminates [of 3 "0x1000" "0x2000" ?m] by simp
qed

end
