(* ===== verification/Kalloc.thy ===== *)
theory Kalloc
  imports Spinlock Mmu Cstr
begin

text \<open>
  The physical page allocator, \<open>kalloc.c\<close>: a free list threaded through the free pages
  themselves, and, for copy-on-write, a reference count for every physical page.

  \<open>kend\<close> is the linker's symbol \<open>end\<close>, the first address after the kernel. The
  array \<open>refc_cnt\<close> is indexed by page number; an index outside \<open>[PHYSTOP >> PGSHIFT]\<close>
  is undefined in C and is the outcome \<open>Undef\<close> here. \<open>use_lock\<close> is the C flag,
  which \<open>kfree\<close> clears and restores. The counts of references are integers; the statements that add references keep
  them in the range of \<open>int\<close>.

  \<open>runs m p ps\<close> says that the list that starts at \<open>p\<close> in memory \<open>m\<close> is \<open>ps\<close>;
  \<open>kinv s ps\<close> is the allocator's invariant. The closed forms \<open>kalloc_eq\<close> and
  \<open>kfree_eq\<close> carry the proofs about clients; the locale \<open>page_allocator\<close> states
  what those rely on.
\<close>

section \<open>State\<close>

record kstate = machine +
  kend :: uint
  use_lock :: bool
  freelist :: uint
  freecnt :: uint
  refc_cnt :: "uint \<Rightarrow> int"

definition NREFC :: uint where [simp]: "NREFC = drop_bit PGSHIFT PHYSTOP"

definition refc_idx :: "uint \<Rightarrow> uint" where
  "refc_idx pa = drop_bit PGSHIFT pa"

definition set_refc :: "uint \<Rightarrow> int \<Rightarrow> 'z kstate_scheme \<Rightarrow> 'z kstate_scheme res" where
  "set_refc pa c s =
     (if NREFC \<le> refc_idx pa then Inl Undef
      else Ok (s\<lparr>refc_cnt := (refc_cnt s)(refc_idx pa := c)\<rparr>))"

section \<open>Operations\<close>

definition lock_kmem :: "'z kstate_scheme \<Rightarrow> 'z kstate_scheme res" where
  "lock_kmem s = whenE (use_lock s) (lock KmemLock) s"

definition unlock_kmem :: "'z kstate_scheme \<Rightarrow> 'z kstate_scheme res" where
  "unlock_kmem s = whenE (use_lock s) (unlock KmemLock) s"

definition get_refc :: "uint \<Rightarrow> 'z kstate_scheme \<Rightarrow> (int \<times> 'z kstate_scheme) res" where
  "get_refc pa s =
     bindE (lock_kmem s) (\<lambda>s.
     if NREFC \<le> refc_idx pa then Inl Undef
     else let ret = refc_cnt s (refc_idx pa) in
          bindE (unlock_kmem s) (\<lambda>s. Ok (ret, s)))"

definition incr_refc :: "uint \<Rightarrow> 'z kstate_scheme \<Rightarrow> 'z kstate_scheme res" where
  "incr_refc pa s =
     bindE (lock_kmem s) (\<lambda>s.
     bindE (set_refc pa (refc_cnt s (refc_idx pa) + 1) s) unlock_kmem)"

definition decr_refc :: "uint \<Rightarrow> 'z kstate_scheme \<Rightarrow> 'z kstate_scheme res" where
  "decr_refc pa s =
     bindE (lock_kmem s) (\<lambda>s.
     bindE (set_refc pa (refc_cnt s (refc_idx pa) - 1) s) unlock_kmem)"

text \<open>\<open>countfp\<close> returns the unsigned counter as an \<open>int\<close>: the same 32 bits.\<close>

definition countfp :: "'z kstate_scheme \<Rightarrow> (uint \<times> 'z kstate_scheme) res" where
  "countfp s =
     bindE (lock_kmem s) (\<lambda>s.
     let ret = freecnt s in
     bindE (unlock_kmem s) (\<lambda>s. Ok (ret, s)))"

definition kfree :: "uint \<Rightarrow> 'z kstate_scheme \<Rightarrow> 'z kstate_scheme res" where
  "kfree v s =
     (if v mod PGSIZE \<noteq> 0 \<or> v < kend s \<or> PHYSTOP \<le> V2P v then panic ''kfree''
      else
        bindE (lock_kmem s) (\<lambda>s.
        let islock = use_lock s; s = s\<lparr>use_lock := False\<rparr> in
        bindE (get_refc (V2P v) s) (\<lambda>(c, s).
        bindE (whenE (0 < c) (decr_refc (V2P v)) s) (\<lambda>s.
        bindE (get_refc (V2P v) s) (\<lambda>(c, s).
        let s = (if c = 0 then
                   let m = store32 (memset (mem s) v 1 PGSIZE) v (freelist s) in
                   s\<lparr>mem := m, freelist := v, freecnt := freecnt s + 1\<rparr>
                 else s);
            s = s\<lparr>use_lock := islock\<rparr>
        in unlock_kmem s)))))"

definition kalloc :: "'z kstate_scheme \<Rightarrow> (uint \<times> 'z kstate_scheme) res" where
  "kalloc s =
     bindE (lock_kmem s) (\<lambda>s.
     let r = freelist s in
     bindE (if r \<noteq> 0 then set_refc (V2P r) 1 (s\<lparr>freelist := load32 (mem s) r\<rparr>) else Ok s) (\<lambda>s.
     let s = s\<lparr>freecnt := freecnt s - 1\<rparr> in
     bindE (unlock_kmem s) (\<lambda>s. Ok (r, s))))"

lemma kfree_Ok_range: "kfree v s = Inr s' \<Longrightarrow> V2P v < PHYSTOP"
  by (auto simp: kfree_def split: if_splits)

lemma range_no_wrap: "V2P v < PHYSTOP \<Longrightarrow> unat (v + PGSIZE) = unat v + 4096"
  unfolding V2P_def by (auto simp: unat_word_ariths word_less_nat_alt unat_sub_if' split: if_splits)

function freerange_from :: "uint \<Rightarrow> uint \<Rightarrow> 'z kstate_scheme \<Rightarrow> 'z kstate_scheme res" where
  "freerange_from p vend s =
     (if p + PGSIZE \<le> vend then
        bindE (set_refc (V2P p) 0 s) (\<lambda>s.
        bindE (kfree p s) (\<lambda>s. freerange_from (p + PGSIZE) vend s))
      else Ok s)"
  by pat_completeness auto
termination
proof (relation "measure (\<lambda>(p, vend, s). unat vend - unat p)")
  fix p vend :: uint and s s1 s2 :: "'z kstate_scheme"
  assume "p + PGSIZE \<le> vend" "kfree p s1 = Inr s2"
  then have "unat (p + PGSIZE) = unat p + 4096" "unat (p + PGSIZE) \<le> unat vend"
    using range_no_wrap kfree_Ok_range by (auto simp: word_le_nat_alt)
  then show "((p + PGSIZE, vend, s2), p, vend, s) \<in> measure (\<lambda>(p, vend, s). unat vend - unat p)"
    by simp
qed simp

declare freerange_from.simps [simp del]

definition freerange :: "uint \<Rightarrow> uint \<Rightarrow> 'z kstate_scheme \<Rightarrow> 'z kstate_scheme res" where
  "freerange vstart vend s = freerange_from (PGROUNDUP vstart) vend s"

definition kinit1 :: "uint \<Rightarrow> uint \<Rightarrow> 'z kstate_scheme \<Rightarrow> 'z kstate_scheme res" where
  "kinit1 vstart vend s =
     (let s = s\<lparr>hw := initlock KmemLock ''kmem'' (hw s)\<rparr>;
          s = s\<lparr>use_lock := False, freecnt := 0\<rparr>
      in freerange vstart vend s)"

definition kinit2 :: "uint \<Rightarrow> uint \<Rightarrow> 'z kstate_scheme \<Rightarrow> 'z kstate_scheme res" where
  "kinit2 vstart vend s = bindE (freerange vstart vend s) (\<lambda>s. Ok (s\<lparr>use_lock := True\<rparr>))"

section \<open>Closed forms\<close>

definition klock_ok :: "'z kstate_scheme \<Rightarrow> bool" where
  "klock_ok s \<longleftrightarrow> hw_ok (hw s) \<and> (use_lock s \<longrightarrow> lock_free KmemLock (hw s))"

definition kcycled :: "'z kstate_scheme \<Rightarrow> hw" where
  "kcycled s = (if use_lock s then cycled (mem s) KmemLock (hw s) else hw s)"

definition klocked :: "'z kstate_scheme \<Rightarrow> hw" where
  "klocked s = (if use_lock s then acquired (mem s) KmemLock (hw s) else hw s)"

definition kpage :: "'z kstate_scheme \<Rightarrow> uint \<Rightarrow> bool" where
  "kpage s v \<longleftrightarrow> page_aligned v \<and> kend s \<le> v \<and> V2P v < PHYSTOP"

abbreviation refs :: "'z kstate_scheme \<Rightarrow> uint \<Rightarrow> int" where
  "refs s v \<equiv> refc_cnt s (refc_idx (V2P v))"

lemma hw_same_kcycled: "klock_ok s \<Longrightarrow> hw_same (hw s) (kcycled s)"
  by (simp add: klock_ok_def kcycled_def hw_same_cycled)

lemma klock_ok_same:
  "klock_ok s \<Longrightarrow> hw_same (hw s) h \<Longrightarrow> klock_ok (s\<lparr>hw := h\<rparr>)"
  by (auto simp: klock_ok_def hw_same_ok hw_same_free)

lemma kpage_idx: "V2P v < PHYSTOP \<Longrightarrow> refc_idx (V2P v) < NREFC"
  by (simp add: refc_idx_def drop_bit_eq_div word_less_nat_alt unat_div_distrib) 

lemma kpage_neq_0: "kpage s v \<Longrightarrow> v \<noteq> 0"
  by (auto simp: kpage_def V2P_def)

lemma lock_kmem_ok: "klock_ok s \<Longrightarrow> lock_kmem s = Ok (s\<lparr>hw := klocked s\<rparr>)"
  by (simp add: lock_kmem_def klock_ok_def klocked_def hw_simps)

lemma unlock_kmem_ok:
  "klock_ok s \<Longrightarrow> use_lock t = use_lock s \<Longrightarrow> hw t = klocked s \<Longrightarrow>
   unlock_kmem t = Ok (t\<lparr>hw := kcycled s\<rparr>)"
  using unlock_ok [of t "mem s" KmemLock "hw s"]
  by (auto simp: unlock_kmem_def klock_ok_def klocked_def kcycled_def)

lemma get_refc_eq:
  "klock_ok s \<Longrightarrow> get_refc pa s =
     (if NREFC \<le> refc_idx pa then Inl Undef
      else Ok (refc_cnt s (refc_idx pa), s\<lparr>hw := kcycled s\<rparr>))"
  by (simp add: get_refc_def lock_kmem_ok Let_def unlock_kmem_ok [of s])

lemma incr_refc_eq:
  "klock_ok s \<Longrightarrow> incr_refc pa s =
     (if NREFC \<le> refc_idx pa then Inl Undef
      else Ok (s\<lparr>hw := kcycled s, refc_cnt := (refc_cnt s)(refc_idx pa := refc_cnt s (refc_idx pa) + 1)\<rparr>))"
  by (simp add: incr_refc_def lock_kmem_ok set_refc_def unlock_kmem_ok [of s])

lemma decr_refc_eq:
  "klock_ok s \<Longrightarrow> decr_refc pa s =
     (if NREFC \<le> refc_idx pa then Inl Undef
      else Ok (s\<lparr>hw := kcycled s, refc_cnt := (refc_cnt s)(refc_idx pa := refc_cnt s (refc_idx pa) - 1)\<rparr>))"
  by (simp add: decr_refc_def lock_kmem_ok set_refc_def unlock_kmem_ok [of s])

lemma countfp_eq: "klock_ok s \<Longrightarrow> countfp s = Ok (freecnt s, s\<lparr>hw := kcycled s\<rparr>)"
  by (simp add: countfp_def lock_kmem_ok Let_def unlock_kmem_ok [of s])

text \<open>\<open>kalloc\<close> hands out the head of the list. Note the last line: the counter goes down
  whether or not there was a page.\<close>

lemma kalloc_eq:
  "klock_ok s \<Longrightarrow> kalloc s =
     (if freelist s = 0 then Ok (0, s\<lparr>hw := kcycled s, freecnt := freecnt s - 1\<rparr>)
      else if NREFC \<le> refc_idx (V2P (freelist s)) then Inl Undef
      else Ok (freelist s,
        s\<lparr>hw := kcycled s, freelist := load32 (mem s) (freelist s),
          refc_cnt := (refc_cnt s)(refc_idx (V2P (freelist s)) := 1), freecnt := freecnt s - 1\<rparr>))"
  by (simp add: kalloc_def lock_kmem_ok Let_def set_refc_def unlock_kmem_ok [of s])

definition freed :: "uint \<Rightarrow> 'z kstate_scheme \<Rightarrow> 'z kstate_scheme" where
  "freed v s = s\<lparr>mem := store32 (page_fill (mem s) v 1) v (freelist s), freelist := v,
     freecnt := freecnt s + 1, refc_cnt := (refc_cnt s)(refc_idx (V2P v) := 0)\<rparr>"

lemma kfree_eq:
  assumes "klock_ok s"
  shows "kfree v s =
     (if \<not> kpage s v then panic ''kfree''
      else if 1 < refs s v then
        Ok (s\<lparr>hw := kcycled s, refc_cnt := (refc_cnt s)(refc_idx (V2P v) := refs s v - 1)\<rparr>)
      else if refs s v \<in> {0, 1} then Ok ((freed v s)\<lparr>hw := kcycled s\<rparr>)
      else Ok (s\<lparr>hw := kcycled s\<rparr>))"
proof (cases "kpage s v")
  case False
  then have "v mod PGSIZE \<noteq> 0 \<or> v < kend s \<or> PHYSTOP \<le> V2P v"
    unfolding kpage_def page_aligned_def by (simp only: not_le not_less de_Morgan_conj)
  then have "kfree v s = panic ''kfree''" unfolding kfree_def by (rule if_P)
  with False show ?thesis by simp
next
  case True
  then have nb: "\<not> (v mod PGSIZE \<noteq> 0 \<or> v < kend s \<or> PHYSTOP \<le> V2P v)"
    unfolding kpage_def page_aligned_def by (simp only: not_le not_less de_Morgan_disj not_not)
  have idx: "\<not> NREFC \<le> refc_idx (V2P v)" using True kpage_idx by (force simp: kpage_def)
  have okh: "hw_ok (klocked s)"
    using assms acquired_state(1) [of "hw s"] by (simp add: klock_ok_def klocked_def)
  have ok: "klock_ok t" if "\<not> use_lock t" "hw t = klocked s" for t :: "'a kstate_scheme"
    using okh that by (simp add: klock_ok_def)
  have same: "kcycled t = hw t" if "\<not> use_lock t" for t :: "'a kstate_scheme"
    using that by (simp add: kcycled_def)
  have fill: "memset m v 1 4096 = page_fill m v 1" for m
    by (simp add: memset_fill page_fill_def)
  have un: "unlock_kmem t = Ok (t\<lparr>hw := kcycled s\<rparr>)"
    if "use_lock t = use_lock s" "hw t = klocked s" for t :: "'a kstate_scheme"
    using that by (rule unlock_kmem_ok [OF assms])
  show ?thesis
    unfolding kfree_def if_not_P [OF nb]
    using True idx
    by (simp add: lock_kmem_ok [OF assms] Let_def get_refc_eq decr_refc_eq ok same un fill freed_def)
      (auto intro!: kstate.equality simp: fun_upd_idem)
qed

section \<open>The free list\<close>

fun runs :: "memory \<Rightarrow> uint \<Rightarrow> uint list \<Rightarrow> bool" where
  "runs m p [] \<longleftrightarrow> p = 0"
| "runs m p (q # qs) \<longleftrightarrow> p = q \<and> q \<noteq> 0 \<and> runs m (load32 m q) qs"

text \<open>The allocator's invariant, for the list \<open>fl\<close> of free pages.\<close>

definition kinv :: "'z kstate_scheme \<Rightarrow> uint list \<Rightarrow> bool" where
  "kinv s fl \<longleftrightarrow> runs (mem s) (freelist s) fl \<and> distinct fl \<and> (\<forall>v\<in>set fl. kpage s v \<and> refs s v = 0)"

text \<open>The counter that \<open>countfp\<close> reports is right.\<close>

definition counted :: "'z kstate_scheme \<Rightarrow> uint list \<Rightarrow> bool" where
  "counted s fl \<longleftrightarrow> freecnt s = of_nat (length fl)"

lemma runs_unique: "runs m p ps \<Longrightarrow> runs m p qs \<Longrightarrow> ps = qs"
proof (induction ps arbitrary: p qs)
  case Nil
  then show ?case by (cases qs) auto
next
  case (Cons q ps)
  then show ?case by (cases qs) auto
qed

lemma kinv_unique: "kinv s fl \<Longrightarrow> kinv s fl' \<Longrightarrow> fl' = fl"
  using runs_unique unfolding kinv_def by blast

lemma runs_cong:
  "runs m p ps \<Longrightarrow> (\<And>q. q \<in> set ps \<Longrightarrow> load32 m' q = load32 m q) \<Longrightarrow> runs m' p ps"
  by (induction m p ps rule: runs.induct) auto

lemma refc_idx_inj:
  assumes "page_aligned v" "page_aligned w"
  shows "refc_idx (V2P v) = refc_idx (V2P w) \<longleftrightarrow> v = w"
proof -
  have "refc_idx (V2P v) = refc_idx (V2P w) \<longleftrightarrow> PGROUNDDOWN (V2P v) = PGROUNDDOWN (V2P w)"
    by (simp add: refc_idx_def drop_bit_eq_div PGROUNDDOWN_eq_iff unat_div_distrib
        word_unat_eq_iff [of "_ div _"])
  also have "\<dots> \<longleftrightarrow> V2P v = V2P w"
    using assms PGROUNDDOWN_aligned [of "V2P v"] PGROUNDDOWN_aligned [of "V2P w"] by simp
  finally show ?thesis by (simp add: V2P_def)
qed

lemma kpage_aligned [simp]: "kpage s v \<Longrightarrow> page_aligned v"
  by (simp add: kpage_def)

lemma kinv_kpage: "kinv s fl \<Longrightarrow> v \<in> set fl \<Longrightarrow> kpage s v"
  by (simp add: kinv_def)

lemma kinv_nil: "kinv s fl \<Longrightarrow> freelist s = 0 \<longleftrightarrow> fl = []"
  by (cases fl) (auto simp: kinv_def)

text \<open>What the invariant looks at: updates that respect it.\<close>

lemma kinv_cong:
  assumes "kinv s fl" "freelist t = freelist s" "kend t = kend s"
    and "\<And>v x. v \<in> set fl \<Longrightarrow> PGROUNDDOWN x = v \<Longrightarrow> mem t x = mem s x"
    and "\<And>v. v \<in> set fl \<Longrightarrow> refs t v = refs s v"
  shows "kinv t fl"
proof -
  have "load32 (mem t) v = load32 (mem s) v" if "v \<in> set fl" for v
  proof (rule load32_page_cong)
    have v: "page_aligned v" using assms(1) that by (auto simp: kinv_def)
    then show "word_aligned v" by (rule page_aligned_word_aligned)
    show "mem t x = mem s x" if "PGROUNDDOWN x = PGROUNDDOWN v" for x
      using that v assms(4) \<open>v \<in> set fl\<close> PGROUNDDOWN_aligned by auto
  qed
  then show ?thesis
    using assms runs_cong [of "mem s" _ fl "mem t"] by (auto simp: kinv_def kpage_def)
qed

section \<open>kalloc and kfree on the free list\<close>

lemma kalloc_nil:
  "kinv s [] \<Longrightarrow> klock_ok s \<Longrightarrow> kalloc s = Ok (0, s\<lparr>hw := kcycled s, freecnt := freecnt s - 1\<rparr>)"
  by (simp add: kalloc_eq kinv_def)

definition taken :: "uint \<Rightarrow> 'z kstate_scheme \<Rightarrow> 'z kstate_scheme" where
  "taken p s = s\<lparr>hw := kcycled s, freelist := load32 (mem s) p,
     refc_cnt := (refc_cnt s)(refc_idx (V2P p) := 1), freecnt := freecnt s - 1\<rparr>"

lemma kalloc_cons:
  assumes "kinv s (p # fl)" "klock_ok s"
  shows "kalloc s = Ok (p, taken p s)" and "kinv (taken p s) fl" and "klock_ok (taken p s)"
proof -
  have p: "kpage s p" "freelist s = p" "p \<noteq> 0" using assms by (auto simp: kinv_def)
  then have "\<not> NREFC \<le> refc_idx (V2P p)" using kpage_idx [of p] by (auto simp: kpage_def)
  then show "kalloc s = Ok (p, taken p s)"
    using assms p by (simp add: kalloc_eq taken_def)
  have "refc_idx (V2P v) \<noteq> refc_idx (V2P p)" if "v \<in> set fl" for v
    using assms that p refc_idx_inj [of v p] by (auto simp: kinv_def)
  then show "kinv (taken p s) fl"
    using assms by (auto simp: kinv_def taken_def kpage_def)
  show "klock_ok (taken p s)"
    using klock_ok_same [OF assms(2) hw_same_kcycled [OF assms(2)]]
    by (simp add: taken_def klock_ok_def)
qed

lemma taken_sel [simp]:
  "mem (taken p s) = mem s" "kend (taken p s) = kend s" "use_lock (taken p s) = use_lock s"
  "hw (taken p s) = kcycled s" "freecnt (taken p s) = freecnt s - 1" "kpage (taken p s) v = kpage s v"
  by (simp_all add: taken_def kpage_def)

lemma refs_taken:
  "page_aligned p \<Longrightarrow> page_aligned v \<Longrightarrow> refs (taken p s) v = (if v = p then 1 else refs s v)"
  by (simp add: taken_def refc_idx_inj)

lemma freed_sel [simp]:
  "kend (freed p s) = kend s" "use_lock (freed p s) = use_lock s" "hw (freed p s) = hw s"
  "freecnt (freed p s) = freecnt s + 1" "kpage (freed p s) v = kpage s v"
  "freelist (freed p s) = p"
  by (simp_all add: freed_def kpage_def)

lemma refs_freed:
  "page_aligned p \<Longrightarrow> page_aligned v \<Longrightarrow> refs (freed p s) v = (if v = p then 0 else refs s v)"
  by (simp add: freed_def refc_idx_inj)

lemma mem_freed:
  assumes "page_aligned p" "PGROUNDDOWN x \<noteq> p"
  shows "mem (freed p s) x = mem s x"
  using assms page_aligned_word_aligned [of p] PGROUNDDOWN_aligned [of p]
  by (simp add: freed_def store32_page page_fill_apply)

lemma kinv_freed:
  assumes "kinv s fl" "kpage s p" "p \<notin> set fl"
  shows "kinv (freed p s) (p # fl)"
proof -
  let ?t = "(freed p s)\<lparr>freelist := freelist s\<rparr>"
  have al: "page_aligned v" if "v \<in> set fl" for v using assms(1) that by (auto simp: kinv_def)
  have "kinv ?t fl"
  proof (rule kinv_cong [OF assms(1)])
    fix v x assume "v \<in> set fl" "PGROUNDDOWN x = v"
    then show "mem ?t x = mem s x" using assms mem_freed [of p x s] by auto
  next
    fix v assume "v \<in> set fl"
    then show "refs ?t v = refs s v" using assms al refs_freed [of p v s] by auto
  qed (simp_all add: freed_def)
  moreover have "load32 (mem (freed p s)) p = freelist s" by (simp add: freed_def)
  ultimately show ?thesis
    using assms kpage_neq_0 [OF assms(2)] refs_freed [of p p s] by (auto simp: kinv_def kpage_def)
qed

lemma klock_ok_upd: "klock_ok s \<Longrightarrow> use_lock t = use_lock s \<Longrightarrow> hw t = kcycled s \<Longrightarrow> klock_ok t"
  using klock_ok_same [OF _ hw_same_kcycled, of s] by (simp add: klock_ok_def)

lemma kfree_last:
  assumes "kinv s fl" "klock_ok s" "kpage s p" "p \<notin> set fl" "refs s p \<in> {0, 1}"
  shows "kfree p s = Ok ((freed p s)\<lparr>hw := kcycled s\<rparr>)"
    and "kinv ((freed p s)\<lparr>hw := kcycled s\<rparr>) (p # fl)"
    and "klock_ok ((freed p s)\<lparr>hw := kcycled s\<rparr>)"
proof -
  show "kfree p s = Ok ((freed p s)\<lparr>hw := kcycled s\<rparr>)"
    using assms(2,3,5) by (auto simp: kfree_eq)
  show "kinv ((freed p s)\<lparr>hw := kcycled s\<rparr>) (p # fl)"
    by (rule kinv_cong [OF kinv_freed [OF assms(1,3,4)]]) simp_all
  show "klock_ok ((freed p s)\<lparr>hw := kcycled s\<rparr>)"
    using assms(2) by (rule klock_ok_upd) simp_all
qed

definition dropped :: "uint \<Rightarrow> 'z kstate_scheme \<Rightarrow> 'z kstate_scheme" where
  "dropped p s =
     s\<lparr>hw := kcycled s, refc_cnt := (refc_cnt s)(refc_idx (V2P p) := refs s p - 1)\<rparr>"

lemma kfree_shared:
  assumes "kinv s fl" "klock_ok s" "kpage s p" "1 < refs s p"
  shows "kfree p s = Ok (dropped p s)" and "kinv (dropped p s) fl" and "klock_ok (dropped p s)"
proof -
  show "kfree p s = Ok (dropped p s)"
    using assms(2-4) by (simp add: kfree_eq dropped_def)
  have "p \<notin> set fl" using assms(1,4) by (auto simp: kinv_def)
  then have "refc_idx (V2P v) \<noteq> refc_idx (V2P p)" if "v \<in> set fl" for v
    using assms(1,3) that refc_idx_inj [of v p] by (auto simp: kinv_def)
  then show "kinv (dropped p s) fl"
    by (intro kinv_cong [OF assms(1)]) (simp_all add: dropped_def)
  show "klock_ok (dropped p s)"
    using assms(2) by (rule klock_ok_upd) (simp_all add: dropped_def)
qed

lemma kfree_invalid: "klock_ok s \<Longrightarrow> \<not> kpage s p \<Longrightarrow> kfree p s = panic ''kfree''"
  by (simp add: kfree_eq)

section \<open>Building the free list\<close>

text \<open>\<open>pages p n\<close> are the \<open>n\<close> page addresses from \<open>p\<close>.\<close>

fun pages :: "uint \<Rightarrow> nat \<Rightarrow> uint list" where
  "pages p 0 = []"
| "pages p (Suc n) = p # pages (p + PGSIZE) n"

lemma length_pages [simp]: "length (pages p n) = n"
  by (induction p n rule: pages.induct) auto

lemma set_pages: "set (pages p n) = (\<lambda>i. p + of_nat i * PGSIZE) ` {..<n}"
proof (induction n arbitrary: p)
  case 0
  then show ?case by simp
next
  case (Suc n)
  have "{..<Suc n} = insert 0 (Suc ` {..<n})" by (rule lessThan_Suc_eq_insert_0)
  then show ?case using Suc [of "p + PGSIZE"] by (simp add: image_image algebra_simps)
qed

text \<open>One step of the loop: the page's count is cleared, so that \<open>kfree\<close> takes it.\<close>

lemma freerange_step:
  assumes "kinv s fl" "klock_ok s" "kpage s p" "p \<notin> set fl" "p + PGSIZE \<le> vend"
  obtains t where "freerange_from p vend s = freerange_from (p + PGSIZE) vend t"
    and "kinv t (p # fl)" and "klock_ok t" and "kend t = kend s" and "use_lock t = use_lock s"
    and "freecnt t = freecnt s + 1"
proof -
  let ?u = "s\<lparr>refc_cnt := (refc_cnt s)(refc_idx (V2P p) := 0)\<rparr>"
  let ?t = "(freed p ?u)\<lparr>hw := kcycled ?u\<rparr>"
  have "refc_idx (V2P v) \<noteq> refc_idx (V2P p)" if "v \<in> set fl" for v
    using assms(1,3,4) that refc_idx_inj [of v p] by (auto simp: kinv_def)
  then have u: "kinv ?u fl" "klock_ok ?u" "kpage ?u p"
    using assms(1-3) by (auto intro: kinv_cong simp: klock_ok_def kpage_def)
  note last = kfree_last [OF this assms(4)]
  have idx: "\<not> NREFC \<le> refc_idx (V2P p)" using assms(3) kpage_idx [of p] by (auto simp: kpage_def)
  show thesis
  proof (rule that)
    have "refs ?u p \<in> {0, 1}" by simp
    from last(1) [OF this] idx assms(5) show
      "freerange_from p vend s = freerange_from (p + PGSIZE) vend ?t"
      by (subst freerange_from.simps) (simp add: set_refc_def)
    show "kinv ?t (p # fl)" "klock_ok ?t" using last(2,3) by simp_all
  qed simp_all
qed

lemma kpage_no_wrap: "kpage s p \<Longrightarrow> unat (p + PGSIZE) = unat p + 4096"
  unfolding kpage_def using range_no_wrap by blast

lemma freerange_from_spec:
  assumes "kinv s fl" "klock_ok s"
    and "\<And>v. v \<in> set (pages p n) \<Longrightarrow> kpage s v" "distinct (pages p n @ fl)"
    and "\<not> p + of_nat n * PGSIZE + PGSIZE \<le> vend"
    and "\<And>i. i < n \<Longrightarrow> p + of_nat i * PGSIZE + PGSIZE \<le> vend"
  shows "\<exists>t. freerange_from p vend s = Ok t \<and> kinv t (rev (pages p n) @ fl) \<and> klock_ok t
     \<and> kend t = kend s \<and> use_lock t = use_lock s \<and> freecnt t = freecnt s + of_nat n"
  using assms
proof (induction n arbitrary: p s fl)
  case 0
  then show ?case by (subst freerange_from.simps) simp
next
  case (Suc n)
  have k: "kpage s p" and nin: "p \<notin> set fl" using Suc.prems by simp_all
  have "p + PGSIZE \<le> vend" using Suc.prems(6) [of 0] by simp
  from freerange_step [OF Suc.prems(1,2) k nin this] obtain t where
    t: "freerange_from p vend s = freerange_from (p + PGSIZE) vend t"
      "kinv t (p # fl)" "klock_ok t" "kend t = kend s" "use_lock t = use_lock s"
      "freecnt t = freecnt s + 1" by metis
  have "\<exists>t'. freerange_from (p + PGSIZE) vend t = Ok t' \<and> kinv t' (rev (pages (p + PGSIZE) n) @ p # fl)
      \<and> klock_ok t' \<and> kend t' = kend t \<and> use_lock t' = use_lock t
      \<and> freecnt t' = freecnt t + of_nat n"
  proof (rule Suc.IH [OF t(2,3)])
    show "kpage t v" if "v \<in> set (pages (p + PGSIZE) n)" for v
      using Suc.prems(3) [of v] that t(4) by (simp add: kpage_def)
    show "distinct (pages (p + PGSIZE) n @ p # fl)" using Suc.prems(4) by simp
    show "\<not> p + PGSIZE + of_nat n * PGSIZE + PGSIZE \<le> vend"
      using Suc.prems(5) by (simp add: algebra_simps)
    show "p + PGSIZE + of_nat i * PGSIZE + PGSIZE \<le> vend" if "i < n" for i
      using Suc.prems(6) [of "Suc i"] that by (simp add: algebra_simps)
  qed
  then show ?case using t by (auto simp: algebra_simps)
qed

lemma unat_pages:
  assumes "unat p + n * 4096 < 2 ^ 32" "i \<le> n"
  shows "unat (p + of_nat i * PGSIZE) = unat p + i * 4096"
proof -
  have "i * 4096 \<le> n * 4096" using assms(2) by simp
  then have b: "unat p + i * 4096 < 2 ^ 32" using assms(1) by linarith
  have "p + of_nat i * PGSIZE = p + of_nat (i * 4096)" by simp
  then show ?thesis using b by (simp only: unat_word_ariths unat_of_nat) simp
qed

lemma distinct_pages:
  assumes "unat p + n * 4096 < 2 ^ 32"
  shows "distinct (pages p n)"
  using assms
proof (induction n arbitrary: p)
  case 0
  then show ?case by simp
next
  case (Suc n)
  have step: "unat (p + PGSIZE) = unat p + 4096" using unat_pages [OF Suc.prems, of 1] by simp
  have "p + PGSIZE + of_nat i * PGSIZE \<noteq> p" if "i < n" for i
  proof
    assume eq: "p + PGSIZE + of_nat i * PGSIZE = p"
    have "unat (p + PGSIZE + of_nat i * PGSIZE) = unat p + 4096 + i * 4096"
      using unat_pages [of "p + PGSIZE" n i] Suc.prems step that by simp
    then show False unfolding eq by simp
  qed
  then have "p \<notin> set (pages (p + PGSIZE) n)" unfolding set_pages by auto
  then show ?case using Suc.IH [of "p + PGSIZE"] Suc.prems step by simp
qed

lemma page_aligned_step: "page_aligned p \<Longrightarrow> page_aligned (p + of_nat i * PGSIZE)"
proof (induction i)
  case (Suc i)
  have "page_aligned (q + 4096)" if "page_aligned q" for q
    using that by (simp add: page_aligned_unat unat_word_ariths mod_mod_cancel)
  from this [OF Suc.IH [OF Suc.prems]] show ?case by (simp add: algebra_simps)
qed simp

text \<open>The range from \<open>p\<close> up to \<open>vend\<close> inside physical memory.\<close>

lemma freerange_from_all:
  assumes "kinv s []" "klock_ok s" "page_aligned p" "KERNBASE \<le> kend s" "kend s \<le> p"
    and "vend \<le> P2V PHYSTOP" "unat p + 4096 < 2 ^ 32"
  defines "n \<equiv> (unat vend - unat p) div 4096"
  shows "\<exists>t. freerange_from p vend s = Ok t \<and> kinv t (rev (pages p n)) \<and> klock_ok t
     \<and> kend t = kend s \<and> use_lock t = use_lock s \<and> freecnt t = freecnt s + of_nat n"
proof -
  have vend: "unat vend \<le> 0x8E000000" using assms(6) by (simp add: P2V_def word_le_nat_alt)
  have p: "0x80000000 \<le> unat p" using assms(4,5) by (simp add: word_le_nat_alt)
  have n: "n * 4096 \<le> unat vend - unat p" "unat vend - unat p < (n + 1) * 4096"
    unfolding n_def using dividend_less_div_times [of 4096 "unat vend - unat p"] by simp_all
  have lt: "unat p + (n + 1) * 4096 < 2 ^ 32"
    using n(1) vend assms(7) by (cases "n = 0") (simp_all add: algebra_simps)
  have un: "unat (p + of_nat i * PGSIZE) = unat p + i * 4096" if "i \<le> n + 1" for i
    using unat_pages [OF lt that] .
  have suc: "unat (p + of_nat i * PGSIZE + PGSIZE) = unat p + (i + 1) * 4096" if "i \<le> n" for i
    using un [of "i + 1"] that by (simp add: algebra_simps)
  have le: "p + of_nat i * PGSIZE + PGSIZE \<le> vend" if "i < n" for i
  proof -
    have "(i + 1) * 4096 \<le> n * 4096" using that by (intro mult_le_mono1) simp
    moreover have "0 < n" using that by simp
    ultimately have "unat p + (i + 1) * 4096 \<le> unat vend" using n(1) by linarith
    then show ?thesis using suc [of i] that by (simp add: word_le_nat_alt)
  qed
  have kp: "kpage s (p + of_nat i * PGSIZE)" if "i < n" for i
  proof -
    have a: "unat (p + of_nat i * PGSIZE) = unat p + i * 4096" using un that by simp
    have "unat p + (i + 1) * 4096 \<le> unat vend"
      using le [OF that] suc [of i] that by (simp add: word_le_nat_alt)
    then have "unat p + i * 4096 < 0x8E000000" using vend by simp
    moreover have "unat (V2P (p + of_nat i * PGSIZE)) = unat p + i * 4096 - 0x80000000"
      unfolding V2P_def using a p by (subst unat_sub) (simp_all add: word_le_nat_alt)
    ultimately have "V2P (p + of_nat i * PGSIZE) < PHYSTOP"
      using p by (simp add: word_less_nat_alt)
    moreover have "kend s \<le> p + of_nat i * PGSIZE"
      using assms(5) a by (simp only: word_le_nat_alt)
    ultimately show ?thesis
      using page_aligned_step [OF assms(3)] unfolding kpage_def by blast
  qed
  have "\<not> p + of_nat n * PGSIZE + PGSIZE \<le> vend"
    using suc [of n] n(2) by (simp only: word_le_nat_alt not_le)
  moreover have "distinct (pages p n @ [])" using distinct_pages [of p n] lt by simp
  moreover have "kpage s v" if "v \<in> set (pages p n)" for v using that kp by (auto simp: set_pages)
  ultimately show ?thesis
    using freerange_from_spec [OF assms(1,2), of p n vend] le by simp
qed

section \<open>The interface of the allocator\<close>

text \<open>
  What the memory manager relies on: \<open>inv s fl\<close> says that \<open>fl\<close> are the free pages,
  \<open>rc s p\<close> is the number of references to \<open>p\<close>. A page leaves the list with one
  reference, \<open>share\<close> adds one, \<open>free\<close> drops one and returns the page when the last one
  goes.
\<close>

locale page_allocator =
  fixes alloc :: "'s \<Rightarrow> (uint \<times> 's) res"
    and free :: "uint \<Rightarrow> 's \<Rightarrow> 's res"
    and share :: "uint \<Rightarrow> 's \<Rightarrow> 's res"
    and inv :: "'s \<Rightarrow> uint list \<Rightarrow> bool"
    and valid :: "'s \<Rightarrow> uint \<Rightarrow> bool"
    and rc :: "'s \<Rightarrow> uint \<Rightarrow> int"
  assumes inv_list: "inv s fl \<Longrightarrow> distinct fl \<and> (\<forall>p\<in>set fl. p \<noteq> 0 \<and> valid s p)"
    and alloc_cons: "inv s (p # fl) \<Longrightarrow> \<exists>t. alloc s = Inr (p, t) \<and> inv t fl \<and> valid t = valid s
      \<and> (\<forall>q. valid s q \<longrightarrow> rc t q = (if q = p then 1 else rc s q))"
    and alloc_nil: "inv s [] \<Longrightarrow> \<exists>t. alloc s = Inr (0, t) \<and> inv t [] \<and> valid t = valid s
      \<and> (\<forall>q. valid s q \<longrightarrow> rc t q = rc s q)"
    and free_last: "inv s fl \<Longrightarrow> valid s p \<Longrightarrow> p \<notin> set fl \<Longrightarrow> rc s p \<in> {0, 1} \<Longrightarrow>
      \<exists>t. free p s = Inr t \<and> inv t (p # fl) \<and> valid t = valid s
      \<and> (\<forall>q. valid s q \<longrightarrow> rc t q = (if q = p then 0 else rc s q))"
    and free_shared: "inv s fl \<Longrightarrow> valid s p \<Longrightarrow> 1 < rc s p \<Longrightarrow>
      \<exists>t. free p s = Inr t \<and> inv t fl \<and> valid t = valid s
      \<and> (\<forall>q. valid s q \<longrightarrow> rc t q = (if q = p then rc s p - 1 else rc s q))"
    and free_invalid: "inv s fl \<Longrightarrow> \<not> valid s p \<Longrightarrow> free p s \<noteq> Inr t"
    and share_page: "inv s fl \<Longrightarrow> valid s p \<Longrightarrow> p \<notin> set fl \<Longrightarrow>
      \<exists>t. share p s = Inr t \<and> inv t fl \<and> valid t = valid s
      \<and> (\<forall>q. valid s q \<longrightarrow> rc t q = (if q = p then rc s p + 1 else rc s q))"
begin

text \<open>The list is a stack: a page given back is the next one handed out.\<close>

lemma free_alloc:
  assumes "inv s fl" "valid s p" "p \<notin> set fl" "rc s p \<in> {0, 1}"
  shows "\<exists>t. bindE (free p s) alloc = Inr (p, t) \<and> inv t fl"
proof -
  obtain t where t: "free p s = Inr t" "inv t (p # fl)" using free_last [OF assms] by blast
  then show ?thesis using alloc_cons [OF t(2)] by auto
qed

text \<open>\<open>n\<close> calls return the first \<open>n\<close> pages of the list, in order.\<close>

lemma alloc_many:
  "inv s fl \<Longrightarrow> n \<le> length fl \<Longrightarrow> \<exists>t. collectE alloc n s = Inr (take n fl, t) \<and> inv t (drop n fl)"
proof (induction n arbitrary: s fl)
  case 0
  then show ?case by simp
next
  case (Suc n)
  then obtain p fl' where fl: "fl = p # fl'" "n \<le> length fl'" by (cases fl) auto
  obtain t where t: "alloc s = Inr (p, t)" "inv t fl'" using Suc.prems(1) fl alloc_cons by blast
  then show ?case using Suc.IH [OF t(2) fl(2)] fl by auto
qed

text \<open>\<open>k\<close> further references take \<open>k\<close> further calls of \<open>free\<close> before the page is free.\<close>

lemma share_many:
  "inv s fl \<Longrightarrow> valid s p \<Longrightarrow> p \<notin> set fl \<Longrightarrow>
   \<exists>t. repeatE k (share p) s = Inr t \<and> inv t fl \<and> valid t p \<and> rc t p = rc s p + int k"
proof (induction k arbitrary: s)
  case 0
  then show ?case by auto
next
  case (Suc k)
  then obtain t where t: "share p s = Inr t" "inv t fl" "valid t p" "rc t p = rc s p + 1"
    using share_page by fastforce
  then show ?case using Suc.IH [OF t(2,3) Suc.prems(3)] by auto
qed

lemma free_many:
  "inv s fl \<Longrightarrow> valid s p \<Longrightarrow> rc s p = int k + 1 \<Longrightarrow>
   \<exists>t. repeatE k (free p) s = Inr t \<and> inv t fl \<and> valid t p \<and> rc t p = 1"
proof (induction k arbitrary: s)
  case 0
  then show ?case by auto
next
  case (Suc k)
  then obtain t where t: "free p s = Inr t" "inv t fl" "valid t p" "rc t p = rc s p - 1"
    using free_shared [of s fl p] by fastforce
  then show ?case using Suc.IH [OF t(2,3)] Suc.prems(3) by auto
qed

lemma share_free:
  assumes "inv s fl" "valid s p" "p \<notin> set fl" "rc s p = 1"
  shows "\<exists>t u. bindE (repeatE k (share p) s) (repeatE k (free p)) = Inr t \<and> inv t fl \<and> rc t p = 1
     \<and> free p t = Inr u \<and> inv u (p # fl)"
proof -
  obtain s1 where s1: "repeatE k (share p) s = Inr s1" "inv s1 fl" "valid s1 p" "rc s1 p = 1 + int k"
    using share_many [OF assms(1-3), of k] assms(4) by auto
  obtain t where t: "repeatE k (free p) s1 = Inr t" "inv t fl" "valid t p" "rc t p = 1"
    using free_many [OF s1(2,3), of k] s1(4) by auto
  obtain u where "free p t = Inr u" "inv u (p # fl)"
    using free_last [OF t(2,3) assms(3)] t(4) by auto
  then show ?thesis using s1 t by auto
qed

end

lemma incr_refc_page:
  assumes "kinv s fl" "klock_ok s" "kpage s p" "p \<notin> set fl"
  defines "t \<equiv> s\<lparr>hw := kcycled s, refc_cnt := (refc_cnt s)(refc_idx (V2P p) := refs s p + 1)\<rparr>"
  shows "incr_refc (V2P p) s = Ok t" and "kinv t fl" and "klock_ok t"
proof -
  have "\<not> NREFC \<le> refc_idx (V2P p)" using assms(3) kpage_idx [of p] by (auto simp: kpage_def)
  then show "incr_refc (V2P p) s = Ok t" using assms(2) by (simp add: incr_refc_eq t_def)
  have "refc_idx (V2P v) \<noteq> refc_idx (V2P p)" if "v \<in> set fl" for v
    using assms(1,3,4) that refc_idx_inj [of v p] by (auto simp: kinv_def)
  then show "kinv t fl" by (intro kinv_cong [OF assms(1)]) (simp_all add: t_def)
  show "klock_ok t" using assms(2) by (rule klock_ok_upd) (simp_all add: t_def)
qed

abbreviation kmem_ok :: "'z kstate_scheme \<Rightarrow> uint list \<Rightarrow> bool" where
  "kmem_ok s fl \<equiv> kinv s fl \<and> klock_ok s"

lemma kpage_kend: "kend t = kend s \<Longrightarrow> kpage t = kpage s"
  by (auto simp: kpage_def fun_eq_iff)

lemma refs_upd:
  assumes "kpage s p" "kpage s q"
  shows "refs (s\<lparr>hw := h, refc_cnt := (refc_cnt s)(refc_idx (V2P p) := c)\<rparr>) q = (if q = p then c else refs s q)"
  using assms by (simp add: refc_idx_inj)

lemma kalloc_cons_ex:
  assumes "kmem_ok s (p # fl)"
  shows "\<exists>t. kalloc s = Inr (p, t) \<and> kmem_ok t fl \<and> kpage t = kpage s
     \<and> (\<forall>q. kpage s q \<longrightarrow> refs t q = (if q = p then 1 else refs s q))"
proof (intro exI conjI allI impI)
  have p: "kpage s p" using assms by (simp add: kinv_def)
  show "kalloc s = Inr (p, taken p s)" "kinv (taken p s) fl" "klock_ok (taken p s)"
    using assms kalloc_cons by blast+
  show "kpage (taken p s) = kpage s" by (rule kpage_kend) simp
  show "refs (taken p s) q = (if q = p then 1 else refs s q)" if "kpage s q" for q
    using p that by (simp add: refs_taken)
qed

lemma kalloc_nil_ex:
  assumes "kmem_ok s []"
  shows "\<exists>t. kalloc s = Inr (0, t) \<and> kmem_ok t [] \<and> kpage t = kpage s
     \<and> (\<forall>q. kpage s q \<longrightarrow> refs t q = refs s q)"
proof (intro exI conjI allI impI)
  let ?t = "s\<lparr>hw := kcycled s, freecnt := freecnt s - 1\<rparr>"
  show "kalloc s = Inr (0, ?t)" using assms kalloc_nil by blast
  show "kinv ?t []" using assms by (simp add: kinv_def)
  show "klock_ok ?t" using assms klock_ok_upd [of s ?t] by simp
  show "kpage ?t = kpage s" by (rule kpage_kend) simp
qed simp

lemma kfree_last_ex:
  assumes "kmem_ok s fl" "kpage s p" "p \<notin> set fl" "refs s p \<in> {0, 1}"
  shows "\<exists>t. kfree p s = Inr t \<and> kmem_ok t (p # fl) \<and> kpage t = kpage s
     \<and> (\<forall>q. kpage s q \<longrightarrow> refs t q = (if q = p then 0 else refs s q))"
proof (intro exI conjI allI impI)
  let ?t = "(freed p s)\<lparr>hw := kcycled s\<rparr>"
  show "kfree p s = Inr ?t" "kinv ?t (p # fl)" "klock_ok ?t" using kfree_last assms by blast+
  show "kpage ?t = kpage s" by (rule kpage_kend) simp
  show "refs ?t q = (if q = p then 0 else refs s q)" if "kpage s q" for q
    using assms(2) that by (simp add: refs_freed)
qed

lemma kfree_shared_ex:
  assumes "kmem_ok s fl" "kpage s p" "1 < refs s p"
  shows "\<exists>t. kfree p s = Inr t \<and> kmem_ok t fl \<and> kpage t = kpage s
     \<and> (\<forall>q. kpage s q \<longrightarrow> refs t q = (if q = p then refs s p - 1 else refs s q))"
proof (intro exI conjI allI impI)
  show "kfree p s = Inr (dropped p s)" "kinv (dropped p s) fl" "klock_ok (dropped p s)"
    using kfree_shared assms by blast+
  show "kpage (dropped p s) = kpage s" by (rule kpage_kend) (simp add: dropped_def)
  show "refs (dropped p s) q = (if q = p then refs s p - 1 else refs s q)" if "kpage s q" for q
    unfolding dropped_def using assms(2) that by (rule refs_upd)
qed

lemma incr_refc_ex:
  assumes "kmem_ok s fl" "kpage s p" "p \<notin> set fl"
  shows "\<exists>t. incr_refc (V2P p) s = Inr t \<and> kmem_ok t fl \<and> kpage t = kpage s
     \<and> (\<forall>q. kpage s q \<longrightarrow> refs t q = (if q = p then refs s p + 1 else refs s q))"
proof (intro exI conjI allI impI)
  let ?t = "s\<lparr>hw := kcycled s, refc_cnt := (refc_cnt s)(refc_idx (V2P p) := refs s p + 1)\<rparr>"
  show "incr_refc (V2P p) s = Inr ?t" "kinv ?t fl" "klock_ok ?t" using incr_refc_page assms by blast+
  show "kpage ?t = kpage s" by (rule kpage_kend) simp
  show "refs ?t q = (if q = p then refs s p + 1 else refs s q)" if "kpage s q" for q
    using assms(2) that by (rule refs_upd)
qed

interpretation kmem: page_allocator kalloc kfree "\<lambda>p. incr_refc (V2P p)" kmem_ok kpage "\<lambda>s p. refs s p"
proof (unfold_locales, goal_cases)
  case (1 s fl)
  then show ?case using kpage_neq_0 by (auto simp: kinv_def)
next
  case (2 s p fl)
  then show ?case by (rule kalloc_cons_ex)
next
  case (3 s)
  then show ?case by (rule kalloc_nil_ex)
next
  case (4 s fl p)
  then show ?case by (rule kfree_last_ex)
next
  case (5 s fl p)
  then show ?case by (rule kfree_shared_ex)
next
  case (6 s fl p t)
  then show ?case by (simp add: kfree_invalid)
next
  case (7 s fl p)
  then show ?case by (rule incr_refc_ex)
qed

section \<open>Two CPUs in the allocator\<close>

text \<open>
  \<open>kfree\<close> clears \<open>kmem.use_lock\<close> while it holds the lock, so that the calls of
  \<open>get_refc\<close> and \<open>decr_refc\<close> inside it do not take the lock again. The flag is shared:
  these are the steps of \<open>kalloc\<close> and \<open>kfree\<close> at which the flag and the lock are
  touched, for any number of CPUs. \<open>kfree\<close> makes three calls, 1 and 3 of \<open>get_refc\<close> and, when the count is positive, 2 of
  \<open>decr_refc\<close>; each tests the flag before and after its access to the count. The place of a CPU whose \<open>acquire\<close> finds
  its own lock, or whose \<open>release\<close> does not, becomes \<open>KPanic\<close> of the place of that call.
\<close>

datatype ksub = STest | SAcq | SBody | STest2 | SRel

datatype kpc = KIdle
  | ATest | AAcq | ABody | ATest2 | ARel
  | FTest | FAcq | FSave | FClear bool | FCall nat ksub bool | FRet nat bool
  | FBody bool | FRestore bool | FTest2 | FRel
  | KPanic kpc

record ksys =
  kpcs :: "nat \<Rightarrow> kpc"
  kuse :: bool
  kheld :: "nat option"

definition kgo :: "nat \<Rightarrow> kpc \<Rightarrow> ksys \<Rightarrow> ksys" where
  "kgo c pc s = s\<lparr>kpcs := (kpcs s)(c := pc)\<rparr>"

definition kstart :: ksys where
  "kstart = \<lparr>kpcs = (\<lambda>_. KIdle), kuse = True, kheld = None\<rparr>"

text \<open>\<open>acquire\<close> at the place \<open>p\<close>, going on at \<open>q\<close>; it waits while another CPU holds the lock. \<open>release\<close> likewise.\<close>

definition kacq :: "nat \<Rightarrow> kpc \<Rightarrow> kpc \<Rightarrow> ksys \<Rightarrow> ksys option" where
  "kacq c p q s = (case kheld s of None \<Rightarrow> Some (kgo c q (s\<lparr>kheld := Some c\<rparr>))
     | Some d \<Rightarrow> if d = c then Some (kgo c (KPanic p) s) else None)"

definition krel :: "nat \<Rightarrow> kpc \<Rightarrow> kpc \<Rightarrow> ksys \<Rightarrow> ksys" where
  "krel c p q s = (if kheld s = Some c then kgo c q (s\<lparr>kheld := None\<rparr>) else kgo c (KPanic p) s)"

inductive kstep :: "ksys \<Rightarrow> ksys \<Rightarrow> bool" where
  call_kalloc: "kpcs s c = KIdle \<Longrightarrow> kstep s (kgo c ATest s)"
| call_kfree: "kpcs s c = KIdle \<Longrightarrow> kstep s (kgo c FTest s)"
| alloc_test: "kpcs s c = ATest \<Longrightarrow> kstep s (kgo c (if kuse s then AAcq else ABody) s)"
| alloc_acquire: "kpcs s c = AAcq \<Longrightarrow> kacq c AAcq ABody s = Some t \<Longrightarrow> kstep s t"
| alloc_body: "kpcs s c = ABody \<Longrightarrow> kstep s (kgo c ATest2 s)"
| alloc_test2: "kpcs s c = ATest2 \<Longrightarrow> kstep s (kgo c (if kuse s then ARel else KIdle) s)"
| alloc_release: "kpcs s c = ARel \<Longrightarrow> kstep s (krel c ARel KIdle s)"
| free_test: "kpcs s c = FTest \<Longrightarrow> kstep s (kgo c (if kuse s then FAcq else FSave) s)"
| free_acquire: "kpcs s c = FAcq \<Longrightarrow> kacq c FAcq FSave s = Some t \<Longrightarrow> kstep s t"
| free_save: "kpcs s c = FSave \<Longrightarrow> kstep s (kgo c (FClear (kuse s)) s)"
| free_clear: "kpcs s c = FClear il \<Longrightarrow> kstep s (kgo c (FCall 1 STest il) (s\<lparr>kuse := False\<rparr>))"
| refc_test: "kpcs s c = FCall n STest il \<Longrightarrow> kstep s (kgo c (FCall n (if kuse s then SAcq else SBody) il) s)"
| refc_acquire: "kpcs s c = FCall n SAcq il \<Longrightarrow> kacq c (FCall n SAcq il) (FCall n SBody il) s = Some t \<Longrightarrow> kstep s t"
| refc_body: "kpcs s c = FCall n SBody il \<Longrightarrow> kstep s (kgo c (FCall n STest2 il) s)"
| refc_test2: "kpcs s c = FCall n STest2 il \<Longrightarrow> kstep s (kgo c (if kuse s then FCall n SRel il else FRet n il) s)"
| refc_release: "kpcs s c = FCall n SRel il \<Longrightarrow> kstep s (krel c (FCall n SRel il) (FRet n il) s)"
| free_positive: "kpcs s c = FRet 1 il \<Longrightarrow> kstep s (kgo c (FCall 2 STest il) s)"
| free_zero: "kpcs s c = FRet 1 il \<Longrightarrow> kstep s (kgo c (FCall 3 STest il) s)"
| free_again: "kpcs s c = FRet 2 il \<Longrightarrow> kstep s (kgo c (FCall 3 STest il) s)"
| free_link: "kpcs s c = FRet 3 il \<Longrightarrow> kstep s (kgo c (FBody il) s)"
| free_keep: "kpcs s c = FRet 3 il \<Longrightarrow> kstep s (kgo c (FRestore il) s)"
| free_body: "kpcs s c = FBody il \<Longrightarrow> kstep s (kgo c (FRestore il) s)"
| free_restore: "kpcs s c = FRestore il \<Longrightarrow> kstep s (kgo c FTest2 (s\<lparr>kuse := il\<rparr>))"
| free_test2: "kpcs s c = FTest2 \<Longrightarrow> kstep s (kgo c (if kuse s then FRel else KIdle) s)"
| free_release: "kpcs s c = FRel \<Longrightarrow> kstep s (krel c FRel KIdle s)"

inductive kreach :: "ksys \<Rightarrow> bool" where
  kreach_init: "kreach kstart"
| kreach_step: "kreach s \<Longrightarrow> kstep s t \<Longrightarrow> kreach t"

lemma kreach_go: "kreach s \<Longrightarrow> kstep s t \<Longrightarrow> t = t' \<Longrightarrow> kreach t'"
  using kreach_step by blast

text \<open>A call of \<open>get_refc\<close> or \<open>decr_refc\<close> while the flag is off.\<close>

lemma kreach_refc:
  assumes "kreach s" "kpcs s c = FCall n STest il" "\<not> kuse s"
  shows "kreach (kgo c (FRet n il) s)"
proof -
  have 1: "kreach (kgo c (FCall n SBody il) s)" using kreach_step [OF assms(1) refc_test [OF assms(2)]] assms(3) by simp
  have 2: "kreach (kgo c (FCall n STest2 il) s)"
    by (rule kreach_go [OF 1 refc_body [of _ c n il]]) (simp_all add: kgo_def)
  show ?thesis by (rule kreach_go [OF 2 refc_test2 [of _ c n il]]) (simp_all add: kgo_def assms(3))
qed

text \<open>CPU 0 is in the body of \<open>kfree\<close>; CPU 1 reads the cleared flag and enters the body of
  \<open>kalloc\<close> without the lock.\<close>

abbreviation krace :: "kpc \<Rightarrow> kpc \<Rightarrow> bool \<Rightarrow> ksys" where
  "krace p q u \<equiv> \<lparr>kpcs = (\<lambda>_. KIdle)(0 := p, 1 := q), kuse = u, kheld = Some 0\<rparr>"

lemma kreach_both: "kreach (krace (FBody True) ABody False)"
proof -
  let ?t = "\<lambda>p. kgo 0 p (kstart\<lparr>kheld := Some 0, kuse := False\<rparr>)"
  have 1: "kreach (kgo 0 FTest kstart)"
    by (rule kreach_step [OF kreach_init call_kfree]) (simp add: kstart_def)
  have 2: "kreach (kgo 0 FAcq kstart)"
    by (rule kreach_go [OF 1 free_test [of _ 0]]) (simp_all add: kgo_def kstart_def)
  have 3: "kreach (kgo 0 FSave (kstart\<lparr>kheld := Some 0\<rparr>))"
    by (rule kreach_go [OF 2 free_acquire [of _ 0]]) (simp_all add: kgo_def kstart_def kacq_def)
  have 4: "kreach (kgo 0 (FClear True) (kstart\<lparr>kheld := Some 0\<rparr>))"
    by (rule kreach_go [OF 3 free_save [of _ 0]]) (simp_all add: kgo_def kstart_def)
  have 5: "kreach (?t (FCall 1 STest True))"
    by (rule kreach_go [OF 4 free_clear [of _ 0 True]]) (simp_all add: kgo_def kstart_def)
  have 6: "kreach (?t (FRet 1 True))" using kreach_refc [OF 5, of 0 1 True] by (simp add: kgo_def kstart_def)
  have 7: "kreach (?t (FCall 2 STest True))"
    by (rule kreach_go [OF 6 free_positive [of _ 0 True]]) (simp_all add: kgo_def kstart_def)
  have 8: "kreach (?t (FRet 2 True))" using kreach_refc [OF 7, of 0 2 True] by (simp add: kgo_def kstart_def)
  have 9: "kreach (?t (FCall 3 STest True))"
    by (rule kreach_go [OF 8 free_again [of _ 0 True]]) (simp_all add: kgo_def kstart_def)
  have 10: "kreach (?t (FRet 3 True))" using kreach_refc [OF 9, of 0 3 True] by (simp add: kgo_def kstart_def)
  have 11: "kreach (?t (FBody True))"
    by (rule kreach_go [OF 10 free_link [of _ 0 True]]) (simp_all add: kgo_def kstart_def)
  have 12: "kreach (krace (FBody True) ATest False)"
    by (rule kreach_go [OF 11 call_kalloc [of _ 1]]) (simp_all add: kgo_def kstart_def)
  show ?thesis
    by (rule kreach_go [OF 12 alloc_test [of _ 1]]) (simp_all add: kgo_def)
qed

section \<open>Properties\<close>

text \<open>Two pages on the free list of a machine with one CPU, as the examples use it: the
  first page holds the address of the second, the second holds 0.\<close>

definition demo_mem :: memory where
  "demo_mem = store32 (\<lambda>_. 0) 0x80200000 0x80300000"

definition demo_k :: kstate where
  "demo_k = \<lparr>hw = boot_hw, mem = demo_mem, kend = 0x80110000, use_lock = True,
     freelist = 0x80200000, freecnt = 2, refc_cnt = (\<lambda>_. 0)\<rparr>"

lemma demo_kpage: "kpage demo_k 0x80200000" "kpage demo_k 0x80300000" "kpage demo_k 0x80400000"
  by (simp_all add: kpage_def demo_k_def page_aligned_def V2P_def)

lemma demo_kinv: "kinv demo_k [0x80200000, 0x80300000]" and demo_klock: "klock_ok demo_k"
proof -
  have "load32 demo_mem 0x80200000 = 0x80300000" by (simp add: demo_mem_def)
  moreover have "load32 demo_mem 0x80300000 = 0"
    unfolding demo_mem_def
    by (subst load32_store32_other) (simp_all add: word_aligned_def load32_def)
  ultimately show "kinv demo_k [0x80200000, 0x80300000]"
    using demo_kpage(1,2) by (simp add: kinv_def) (simp add: demo_k_def)
  show "klock_ok demo_k"
    using boot_hw_ok boot_hw_free [of KmemLock] by (simp add: klock_ok_def demo_k_def)
qed

text \<open>C9: \<open>kalloc\<close> takes the first page off the free list and gives it one reference; memory
  and the other counts stay as they are, the counter of free pages stays right, and the
  lock is given back. With no free page it returns 0.\<close>

theorem kalloc_spec:
  assumes "kinv s fl" "klock_ok s"
  shows "case fl of
       [] \<Rightarrow> \<exists>t. kalloc s = Ok (0, t) \<and> kinv t [] \<and> klock_ok t \<and> mem t = mem s \<and> refc_cnt t = refc_cnt s
     | p # ps \<Rightarrow> \<exists>t. kalloc s = Ok (p, t) \<and> kinv t ps \<and> klock_ok t \<and> mem t = mem s
         \<and> (\<forall>q. kpage s q \<longrightarrow> refs t q = (if q = p then 1 else refs s q))
         \<and> (counted s fl \<longrightarrow> counted t ps)"
proof (cases fl)
  case Nil
  let ?t = "s\<lparr>hw := kcycled s, freecnt := freecnt s - 1\<rparr>"
  have "kinv ?t []" "klock_ok ?t"
    using assms Nil klock_ok_upd [of s ?t] by (simp_all add: kinv_def)
  then show ?thesis using assms Nil kalloc_nil [of s] by simp
next
  case (Cons p ps)
  have "kpage s p" using assms Cons by (simp add: kinv_def)
  then show ?thesis
    using kalloc_cons [of s p ps] assms Cons refs_taken [of p _ s] by (auto simp: counted_def)
qed

theorem kalloc_spec_witness:
  "\<exists>t. kalloc demo_k = Ok (0x80200000, t) \<and> kinv t [0x80300000] \<and> counted t [0x80300000]
     \<and> refs t 0x80200000 = 1"
proof -
  have "counted demo_k [0x80200000, 0x80300000]" by (simp add: counted_def demo_k_def)
  then show ?thesis using kalloc_spec [OF demo_kinv demo_klock] demo_kpage by auto
qed

text \<open>C24: \<open>kfree\<close> panics on an address that is not a page of allocatable memory. A page
  with several references loses one of them and stays allocated, with memory untouched. A
  page whose last reference goes is put at the head of the free list, its bytes past the
  link are overwritten, no other page changes, and the counter stays right.\<close>

theorem kfree_spec:
  assumes "kinv s fl" "klock_ok s"
  shows "(\<not> kpage s p \<longrightarrow> kfree p s = panic ''kfree'')
     \<and> (kpage s p \<and> 1 < refs s p \<longrightarrow> (\<exists>t. kfree p s = Ok t \<and> kinv t fl \<and> klock_ok t
         \<and> mem t = mem s \<and> refs t p = refs s p - 1 \<and> (counted s fl \<longrightarrow> counted t fl)))
     \<and> (kpage s p \<and> p \<notin> set fl \<and> refs s p \<in> {0, 1} \<longrightarrow> (\<exists>t. kfree p s = Ok t \<and> kinv t (p # fl) \<and> klock_ok t
         \<and> (\<forall>x. PGROUNDDOWN x \<noteq> p \<longrightarrow> mem t x = mem s x)
         \<and> (\<forall>x. PGROUNDDOWN x = p \<and> x \<notin> {p, p + 1, p + 2, p + 3} \<longrightarrow> mem t x = 1)
         \<and> (counted s fl \<longrightarrow> counted t (p # fl))))"
proof (intro conjI impI)
  show "kfree p s = panic ''kfree''" if "\<not> kpage s p"
    using assms(2) that by (rule kfree_invalid)
  show "\<exists>t. kfree p s = Ok t \<and> kinv t fl \<and> klock_ok t \<and> mem t = mem s \<and> refs t p = refs s p - 1
      \<and> (counted s fl \<longrightarrow> counted t fl)" if "kpage s p \<and> 1 < refs s p"
    using kfree_shared [OF assms, of p] that
    by (intro exI [of _ "dropped p s"]) (simp_all add: dropped_def counted_def)
  assume p: "kpage s p \<and> p \<notin> set fl \<and> refs s p \<in> {0, 1}"
  let ?t = "(freed p s)\<lparr>hw := kcycled s\<rparr>"
  have al: "page_aligned p" using p kpage_aligned by blast
  have "mem ?t x = mem s x" if "PGROUNDDOWN x \<noteq> p" for x
    using that mem_freed [OF al] by simp
  moreover have "mem ?t x = 1" if "PGROUNDDOWN x = p" "x \<notin> {p, p + 1, p + 2, p + 3}" for x
    using al that by (simp add: freed_def store32_def page_fill_apply)
  ultimately show "\<exists>t. kfree p s = Ok t \<and> kinv t (p # fl) \<and> klock_ok t
      \<and> (\<forall>x. PGROUNDDOWN x \<noteq> p \<longrightarrow> mem t x = mem s x)
      \<and> (\<forall>x. PGROUNDDOWN x = p \<and> x \<notin> {p, p + 1, p + 2, p + 3} \<longrightarrow> mem t x = 1)
      \<and> (counted s fl \<longrightarrow> counted t (p # fl))"
    using kfree_last [OF assms, of p] p
    by (intro exI [of _ ?t]) (simp_all add: counted_def add.commute)
qed

theorem kfree_spec_witness:
  "kfree 0x80400001 demo_k = panic ''kfree''
     \<and> (\<exists>t. kfree 0x80400000 demo_k = Ok t \<and> kinv t [0x80400000, 0x80200000, 0x80300000]
         \<and> counted t [0x80400000, 0x80200000, 0x80300000])"
proof -
  have "\<not> kpage demo_k 0x80400001" by (simp add: kpage_def page_aligned_unat)
  moreover have "counted demo_k [0x80200000, 0x80300000]" "refs demo_k 0x80400000 = 0"
    by (simp_all add: counted_def demo_k_def)
  ultimately show ?thesis
    using kfree_spec [OF demo_kinv demo_klock, of "0x80400001"]
      kfree_spec [OF demo_kinv demo_klock, of "0x80400000"] demo_kpage(3) by auto
qed

text \<open>C25: reference counting. A page with one reference that is shared \<open>k\<close> more times, for every \<open>k\<close> with which the count stays in
  the range of its C type, survives \<open>k\<close> calls of \<open>kfree\<close>; the next call puts it on the free list.\<close>

theorem kfree_last_reference:
  assumes "kinv s fl" "klock_ok s" "kpage s p" "p \<notin> set fl" "refs s p = 1" "int k < 2 ^ 31 - 1"
  shows "\<exists>t u. bindE (repeatE k (incr_refc (V2P p)) s) (repeatE k (kfree p)) = Ok t \<and> kinv t fl
     \<and> refs t p = 1 \<and> kfree p t = Ok u \<and> kinv u (p # fl)"
  using kmem.share_free [of s fl p k] assms by blast

theorem kfree_last_reference_witness:
  "\<exists>t u. bindE (repeatE 3 (incr_refc 0x400000) (demo_k\<lparr>refc_cnt := \<lambda>_. 1, freelist := 0\<rparr>)) (repeatE 3 (kfree 0x80400000)) = Ok t
     \<and> kinv t [] \<and> refs t 0x80400000 = 1 \<and> kfree 0x80400000 t = Ok u \<and> kinv u [0x80400000]"
proof -
  let ?s = "demo_k\<lparr>refc_cnt := \<lambda>_. 1, freelist := 0\<rparr>"
  have "kinv ?s []" "klock_ok ?s" "kpage ?s 0x80400000"
    using demo_klock demo_kpage(3) by (simp_all add: kinv_def klock_ok_def kpage_def)
  from kfree_last_reference [OF this, of 3] show ?thesis by (simp add: V2P_def)
qed

text \<open>C26: initialisation. \<open>kinit1\<close> returns, and the free list then holds exactly the whole
  pages between \<open>vstart\<close> and \<open>vend\<close>, the last one first, with the counter right and
  locking off.\<close>

theorem kinit1_spec:
  assumes "freelist s = 0" "hw_ok (hw s)" "KERNBASE \<le> kend s" "kend s \<le> vstart"
    and "vstart \<le> vend" "vend \<le> P2V PHYSTOP"
  shows "\<exists>t. kinit1 vstart vend s = Ok t
     \<and> kinv t (rev (pages (PGROUNDUP vstart) ((unat vend - unat (PGROUNDUP vstart)) div 4096)))
     \<and> counted t (rev (pages (PGROUNDUP vstart) ((unat vend - unat (PGROUNDUP vstart)) div 4096)))
     \<and> \<not> use_lock t"
proof -
  let ?s = "s\<lparr>hw := initlock KmemLock ''kmem'' (hw s), use_lock := False, freecnt := 0\<rparr>"
  let ?p = "PGROUNDUP vstart"
  have ok: "kinv ?s []" "klock_ok ?s"
    using assms(1,2) by (auto simp: kinv_def klock_ok_def initlock_def hw_ok_def cpus_ok_def cli_ok_def)
  have v: "unat vstart \<le> 0x8E000000"
    using assms(5,6) by (simp add: P2V_def word_le_nat_alt)
  then have p: "unat ?p = (unat vstart + 4095) div 4096 * 4096" by (intro unat_PGROUNDUP) simp
  have "kend ?s \<le> ?p"
    using assms(4) dividend_less_div_times [of 4096 "unat vstart + 4095"] p
    by (simp add: word_le_nat_alt)
  moreover have "unat ?p + 4096 < 2 ^ 32"
    using p v div_times_less_eq_dividend [of "unat vstart + 4095" 4096] by simp
  ultimately show ?thesis
    using freerange_from_all [OF ok page_aligned_PGROUNDUP _ _ assms(6), of vstart] assms(3)
    by (auto simp: kinit1_def freerange_def counted_def)
qed

theorem kinit1_spec_witness:
  "\<exists>t. kinit1 0x80110800 0x80113000 (demo_k\<lparr>freelist := 0\<rparr>) = Ok t
     \<and> kinv t [0x80112000, 0x80111000] \<and> counted t [0x80112000, 0x80111000] \<and> \<not> use_lock t"
proof -
  have "PGROUNDUP 0x80110800 = 0x80111000" by (simp add: PGROUNDUP_def)
  moreover have "rev (pages 0x80111000 2) = [0x80112000, 0x80111000]"
    by (simp add: numeral_2_eq_2)
  ultimately show ?thesis
    using kinit1_spec [of "demo_k\<lparr>freelist := 0\<rparr>" "0x80110800" "0x80113000"] boot_hw_ok
    by (simp add: demo_k_def P2V_def)
qed

text \<open>C29: the counter is decremented even when there is no page to hand out: after a failed
  \<open>kalloc\<close> on an empty list whose counter was right, \<open>countfp\<close> reports the largest
  32-bit number (-1 as a C int) free pages.\<close>

theorem kalloc_empty_count:
  assumes "kinv s []" "klock_ok s" "counted s []"
  shows "\<exists>t u. kalloc s = Ok (0, t) \<and> kinv t [] \<and> countfp t = Ok (0xFFFFFFFF, u)"
proof -
  let ?t = "s\<lparr>hw := kcycled s, freecnt := freecnt s - 1\<rparr>"
  have "klock_ok ?t" using assms klock_ok_upd [of s ?t] by simp
  moreover have "freecnt ?t = 0xFFFFFFFF" using assms(3) by (simp add: counted_def)
  moreover have "kinv ?t []" using assms(1) by (simp add: kinv_def)
  ultimately show ?thesis using assms kalloc_nil [of s] countfp_eq [of ?t] by auto
qed

theorem kalloc_empty_count_witness:
  "\<exists>t u. kalloc (demo_k\<lparr>freelist := 0, freecnt := 0\<rparr>) = Ok (0, t) \<and> kinv t []
     \<and> countfp t = Ok (0xFFFFFFFF, u)"
proof -
  let ?s = "demo_k\<lparr>freelist := 0, freecnt := 0\<rparr>"
  have "kinv ?s []" "klock_ok ?s" "counted ?s []"
    using demo_klock by (simp_all add: kinv_def klock_ok_def counted_def)
  then show ?thesis by (rule kalloc_empty_count)
qed

text \<open>C30: the flag \<open>use_lock\<close> that \<open>kfree\<close> clears is seen by the other CPUs. A state can be reached in which one CPU is
  linking a page into the free list in \<open>kfree\<close> while another is unlinking one in \<open>kalloc\<close>, without the lock; and from there
  a state in which that \<open>kalloc\<close> has panicked in its own call of \<open>release\<close>, the lock being held by the first CPU.\<close>

theorem kmem_race:
  "\<exists>s t. kreach s \<and> kpcs s 0 = FBody True \<and> kpcs s 1 = ABody \<and> kheld s = Some 0
     \<and> kstep\<^sup>*\<^sup>* s t \<and> kpcs t 1 = KPanic ARel \<and> kheld t = Some 0"
proof -
  have go: "kstep s t \<Longrightarrow> t = t' \<Longrightarrow> kstep s t'" for s t t' by simp
  have 1: "kstep (krace (FBody True) ABody False) (krace (FRestore True) ABody False)"
    by (rule go [OF free_body [of _ 0 True]]) (simp_all add: kgo_def fun_upd_twist)
  have 2: "kstep (krace (FRestore True) ABody False) (krace FTest2 ABody True)"
    by (rule go [OF free_restore [of _ 0 True]]) (simp_all add: kgo_def fun_upd_twist)
  have 3: "kstep (krace FTest2 ABody True) (krace FTest2 ATest2 True)"
    by (rule go [OF alloc_body [of _ 1]]) (simp_all add: kgo_def)
  have 4: "kstep (krace FTest2 ATest2 True) (krace FTest2 ARel True)"
    by (rule go [OF alloc_test2 [of _ 1]]) (simp_all add: kgo_def)
  have 5: "kstep (krace FTest2 ARel True) (krace FTest2 (KPanic ARel) True)"
    by (rule go [OF alloc_release [of _ 1]]) (simp_all add: kgo_def krel_def)
  have "kstep\<^sup>*\<^sup>* (krace (FBody True) ABody False) (krace FTest2 (KPanic ARel) True)"
    using 1 2 3 4 5 by (meson converse_rtranclp_into_rtranclp rtranclp.rtrancl_refl)
  then show ?thesis using kreach_both by (intro exI conjI) (assumption | simp)+
qed

end
