(* ===== verification/Pgtable.thy ===== *)
theory Pgtable
  imports Mmu
begin

text \<open>
  Two-level page tables as they lie in memory: a page directory is a page of 1024 entries,
  a present entry names a page table, a page of 1024 entries of its own.

  \<open>tab m d i\<close> is the page table that entry \<open>i\<close> of directory \<open>d\<close> names, \<open>slot m d va\<close>
  the address of the entry for \<open>va\<close>, and \<open>pte_at m d va\<close> that entry, 0 where there is
  no page table. \<open>pts_ok m D\<close> says that the directories \<open>D\<close> and their page tables are
  pairwise different pages. Under it a directory is a function from pages to entries: the
  lemmas say what this function is after an entry is written, after a page table is added
  and after memory outside the tables changes.
\<close>

named_theorems pt_simps \<open>entries of page tables after a write\<close>

section \<open>Entries\<close>

definition idx :: "uint \<Rightarrow> bool" where
  "idx i \<longleftrightarrow> i < 1024"

definition entry :: "uint \<Rightarrow> uint \<Rightarrow> uint" where
  "entry p i = p + 4 * i"

definition present :: "uint \<Rightarrow> bool" where
  "present e \<longleftrightarrow> e AND PTE_P \<noteq> 0"

definition writable :: "uint \<Rightarrow> bool" where
  "writable e \<longleftrightarrow> e AND PTE_W \<noteq> 0"

definition user_ok :: "uint \<Rightarrow> bool" where
  "user_ok e \<longleftrightarrow> e AND PTE_U \<noteq> 0"

text \<open>The kernel address of the page an entry names.\<close>

definition frame_of :: "uint \<Rightarrow> uint" where
  "frame_of e = P2V (PTE_ADDR e)"

definition tab :: "memory \<Rightarrow> uint \<Rightarrow> uint \<Rightarrow> uint option" where
  "tab m d i = (let e = load32 m (entry d i) in if present e then Some (frame_of e) else None)"

definition slot :: "memory \<Rightarrow> uint \<Rightarrow> uint \<Rightarrow> uint option" where
  "slot m d va = (case tab m d (PDX va) of None \<Rightarrow> None | Some t \<Rightarrow> Some (entry t (PTX va)))"

definition pte_at :: "memory \<Rightarrow> uint \<Rightarrow> uint \<Rightarrow> uint" where
  "pte_at m d va = (case slot m d va of None \<Rightarrow> 0 | Some a \<Rightarrow> load32 m a)"

definition pts_ok :: "memory \<Rightarrow> uint set \<Rightarrow> bool" where
  "pts_ok m D \<longleftrightarrow> (\<forall>d\<in>D. page_aligned d) \<and>
     (\<forall>d\<in>D. \<forall>i t. idx i \<longrightarrow> tab m d i = Some t \<longrightarrow> t \<notin> D \<and>
        (\<forall>d'\<in>D. \<forall>i'. idx i' \<longrightarrow> tab m d' i' = Some t \<longrightarrow> d' = d \<and> i' = i))"

text \<open>All pages that hold directories and tables.\<close>

definition pt_pages :: "memory \<Rightarrow> uint set \<Rightarrow> uint set" where
  "pt_pages m D = D \<union> {t. \<exists>d\<in>D. \<exists>i. idx i \<and> tab m d i = Some t}"

section \<open>Addresses of entries\<close>

lemma frame_aligned [simp]: "page_aligned (frame_of e)"
  by (simp add: frame_of_def PTE_ADDR_eq)

lemma tab_aligned: "tab m d i = Some t \<Longrightarrow> page_aligned t"
  by (auto simp: tab_def Let_def split: if_splits)

lemma unat_entry:
  assumes "page_aligned p" "idx i"
  shows "unat (entry p i) = unat p + 4 * unat i"
proof -
  have "4 * unat i < 4096" using assms(2) by (simp add: idx_def word_less_nat_alt)
  then show ?thesis
    using unat_page_add [OF assms(1), of "4 * unat i"] assms(2) by (simp add: entry_def)
qed

lemma entry_page [simp]:
  assumes "page_aligned p" "idx i"
  shows "PGROUNDDOWN (entry p i) = p"
proof -
  have "4 * unat i < 4096" using assms(2) by (simp add: idx_def word_less_nat_alt)
  then show ?thesis
    using PGROUNDDOWN_add [OF assms(1), of "4 * unat i"] assms(2) by (simp add: entry_def)
qed

lemma entry_aligned [simp]:
  assumes "page_aligned p" "idx i"
  shows "word_aligned (entry p i)"
proof -
  have "unat p mod 4 = 0"
    using page_aligned_word_aligned [OF assms(1)] by (simp only: word_aligned_unat)
  then show ?thesis
    unfolding word_aligned_unat unat_entry [OF assms] by (metis mod_mult_self2 mult.commute)
qed

lemma entry_inj:
  assumes "page_aligned p" "idx i" "page_aligned q" "idx j"
  shows "entry p i = entry q j \<longleftrightarrow> p = q \<and> i = j"
proof
  assume eq: "entry p i = entry q j"
  then have pq: "p = q" using entry_page [OF assms(1,2)] entry_page [OF assms(3,4)] by simp
  with eq have "unat i = unat j"
    using unat_entry [OF assms(1,2)] unat_entry [OF assms(3,4)] by simp
  with pq show "p = q \<and> i = j" by (simp add: word_unat_eq_iff)
qed simp

lemma index_less [simp]: "idx (PDX va)" "idx (PTX va)"
  using PDX_less PTX_less by (simp_all add: idx_def word_less_nat_alt)

lemma load32_entry_store [pt_simps]:
  assumes "page_aligned p" "idx i" "page_aligned q" "idx j"
  shows "load32 (store32 m (entry p i) v) (entry q j) = (if p = q \<and> i = j then v else load32 m (entry q j))"
  using entry_inj [OF assms] load32_store32_other [of "entry p i" "entry q j" m v] assms by auto

lemma load32_entry_cong:
  assumes "page_aligned p" "idx i" "\<And>x. PGROUNDDOWN x = p \<Longrightarrow> m' x = m x"
  shows "load32 m' (entry p i) = load32 m (entry p i)"
  by (rule load32_page_cong) (use assms in simp_all)

section \<open>Building entries\<close>

lemma PTE_ADDR_build:
  assumes "page_aligned pa" "f < 4096"
  shows "PTE_ADDR (pa OR f) = pa" and "PTE_FLAGS (pa OR f) = f"
proof -
  have pa: "pa AND 4095 = 0"
    using assms(1) unfolding page_aligned_def and_4095 PGSIZE_def by simp
  have f: "f AND 4095 = f"
    unfolding and_4095 using assms(2) by (simp add: word_mod_less_divisor mod_word_less)
  have "(pa OR f) AND 4095 = f" by (simp add: bit.conj_disj_distrib2 pa f)
  then show "PTE_FLAGS (pa OR f) = f" by (simp add: PTE_FLAGS_def)
  have "pa AND NOT 4095 = pa" using pa and_not_4095 [of pa] and_4095 [of pa] by simp
  moreover have "f AND NOT 4095 = 0" using f and_not_4095 [of f] and_4095 [of f] by simp
  ultimately show "PTE_ADDR (pa OR f) = pa"
    unfolding PTE_ADDR_def by (simp add: bit.conj_disj_distrib2)
qed

lemma flags_mask:
  "present (PTE_FLAGS e) = present e" "writable (PTE_FLAGS e) = writable e" "user_ok (PTE_FLAGS e) = user_ok e"
  by (simp_all add: present_def writable_def user_ok_def PTE_FLAGS_def and.assoc)

lemma built_flags:
  assumes "page_aligned pa" "f < 4096"
  shows "present (pa OR f) = present f" "writable (pa OR f) = writable f" "user_ok (pa OR f) = user_ok f"
    and "frame_of (pa OR f) = P2V pa"
  using flags_mask [of "pa OR f"] PTE_ADDR_build [OF assms] by (simp_all add: frame_of_def)

text \<open>An entry is its address part and its flags.\<close>

lemma PTE_split: "PTE_ADDR e OR PTE_FLAGS e = e"
  by (simp add: PTE_ADDR_def PTE_FLAGS_def flip: bit.conj_disj_distrib)

lemma PTE_FLAGS_less: "PTE_FLAGS e < 4096"
  by (simp add: PTE_FLAGS_def and_4095 word_less_nat_alt unat_mod_4096)

lemma PTE_ADDR_aligned [simp]: "page_aligned (PTE_ADDR e)"
  by (simp add: PTE_ADDR_eq)

section \<open>Page tables after writes\<close>

lemma pts_ok_aligned: "pts_ok m D \<Longrightarrow> d \<in> D \<Longrightarrow> page_aligned d"
  by (simp add: pts_ok_def)

lemma pt_pages_aligned: "pts_ok m D \<Longrightarrow> p \<in> pt_pages m D \<Longrightarrow> page_aligned p"
  by (auto simp: pt_pages_def pts_ok_def tab_aligned)

lemma tab_in_pages: "d \<in> D \<Longrightarrow> idx i \<Longrightarrow> tab m d i = Some t \<Longrightarrow> t \<in> pt_pages m D"
  by (auto simp: pt_pages_def)

lemma tab_inj:
  assumes "pts_ok m D" "d \<in> D" "d' \<in> D" "idx i" "idx i'" "tab m d i = Some t" "tab m d' i' = Some t"
  shows "d' = d \<and> i' = i"
  using assms unfolding pts_ok_def by blast

lemma tab_notin: "pts_ok m D \<Longrightarrow> d \<in> D \<Longrightarrow> idx i \<Longrightarrow> tab m d i = Some t \<Longrightarrow> t \<notin> D"
  unfolding pts_ok_def by blast

lemma slot_SomeE:
  assumes "slot m d va = Some a"
  obtains t where "tab m d (PDX va) = Some t" "a = entry t (PTX va)" "page_aligned t"
  using assms tab_aligned by (auto simp: slot_def split: option.splits)

lemma pts_ok_tab_cong:
  assumes "pts_ok m D" and eq: "\<And>d i. d \<in> D \<Longrightarrow> idx i \<Longrightarrow> tab m' d i = tab m d i"
  shows "pts_ok m' D" and "pt_pages m' D = pt_pages m D"
proof -
  show "pts_ok m' D" unfolding pts_ok_def
  proof (intro conjI ballI allI impI)
    fix d i t assume d: "d \<in> D" "idx i" "tab m' d i = Some t"
    then have dt: "tab m d i = Some t" by (simp add: eq)
    then show "t \<notin> D" using tab_notin assms(1) d(1,2) by blast
    fix d' i' assume d': "d' \<in> D" "idx i'" "tab m' d' i' = Some t"
    then have "tab m d' i' = Some t" by (simp add: eq)
    then show "d' = d" "i' = i" using tab_inj [OF assms(1) d(1) d'(1) d(2) d'(2) dt] by auto
  qed (rule pts_ok_aligned [OF assms(1)])
  show "pt_pages m' D = pt_pages m D" unfolding pt_pages_def using eq by force
qed

text \<open>Memory outside the tables does not matter.\<close>

lemma tab_cong:
  assumes "page_aligned d" "idx i" "\<And>x. PGROUNDDOWN x = d \<Longrightarrow> m' x = m x"
  shows "tab m' d i = tab m d i"
  using load32_entry_cong [OF assms(1,2), of m' m] assms(3) by (simp add: tab_def)

lemma pt_frame:
  assumes "pts_ok m D" and same: "\<And>x. PGROUNDDOWN x \<in> pt_pages m D \<Longrightarrow> m' x = m x"
  shows "pts_ok m' D" and "pt_pages m' D = pt_pages m D"
    and "d \<in> D \<Longrightarrow> slot m' d va = slot m d va" and "d \<in> D \<Longrightarrow> pte_at m' d va = pte_at m d va"
proof -
  have t: "tab m' d i = tab m d i" if "d \<in> D" "idx i" for d i
  proof (rule tab_cong)
    show "page_aligned d" using assms(1) that(1) by (rule pts_ok_aligned)
    show "m' x = m x" if "PGROUNDDOWN x = d" for x
      using same [of x] that \<open>d \<in> D\<close> by (simp add: pt_pages_def)
  qed (rule that(2))
  show "pts_ok m' D" "pt_pages m' D = pt_pages m D" using pts_ok_tab_cong [OF assms(1) t] by auto
  assume d: "d \<in> D"
  then show sl: "slot m' d va = slot m d va" using t by (simp add: slot_def)
  show "pte_at m' d va = pte_at m d va"
  proof (cases "slot m d va")
    case None
    then show ?thesis using sl by (simp add: pte_at_def)
  next
    case (Some a)
    then obtain t where "tab m d (PDX va) = Some t" "a = entry t (PTX va)" "page_aligned t"
      by (rule slot_SomeE)
    moreover from this have "t \<in> pt_pages m D" using tab_in_pages [OF d index_less(1)] by blast
    then have "m' x = m x" if "PGROUNDDOWN x = t" for x using same [of x] that by simp
    ultimately have "load32 m' a = load32 m a" using load32_entry_cong [of t "PTX va" m' m] by simp
    then show ?thesis using sl Some by (simp add: pte_at_def)
  qed
qed

text \<open>Writing the entry for \<open>va\<close> in one directory.\<close>

lemma pt_store:
  fixes e :: uint
  assumes "pts_ok m D" "d \<in> D" "slot m d va = Some a"
  defines "m' \<equiv> store32 m a e"
  shows "pts_ok m' D" and "pt_pages m' D = pt_pages m D"
    and "d' \<in> D \<Longrightarrow> slot m' d' va' = slot m d' va'"
    and "d' \<in> D \<Longrightarrow> pte_at m' d' va' =
      (if d' = d \<and> PGROUNDDOWN va' = PGROUNDDOWN va then e else pte_at m d' va')"
proof -
  obtain t where t: "tab m d (PDX va) = Some t" "a = entry t (PTX va)" "page_aligned t"
    using assms(3) by (rule slot_SomeE)
  have nin: "t \<notin> D" using tab_notin [OF assms(1,2) _ t(1)] by simp
  have tt: "tab m' d' i = tab m d' i" if "d' \<in> D" "idx i" for d' i
  proof -
    have "page_aligned d'" "d' \<noteq> t" using assms(1) that nin by (auto simp: pts_ok_def)
    then show ?thesis using t that by (auto simp: tab_def m'_def pt_simps)
  qed
  show "pts_ok m' D" "pt_pages m' D = pt_pages m D" using pts_ok_tab_cong [OF assms(1) tt] by auto
  assume d': "d' \<in> D"
  then show sl: "slot m' d' va' = slot m d' va'" using tt by (simp add: slot_def)
  show "pte_at m' d' va' = (if d' = d \<and> PGROUNDDOWN va' = PGROUNDDOWN va then e else pte_at m d' va')"
  proof (cases "slot m d' va'")
    case None
    then have "\<not> (d' = d \<and> PGROUNDDOWN va' = PGROUNDDOWN va)"
      using t(1) PDX_PTX_page [of va' va] by (auto simp: slot_def split: option.splits)
    then show ?thesis using None sl unfolding pte_at_def by (simp only: option.case if_False)
  next
    case (Some b)
    then obtain t' where t': "tab m d' (PDX va') = Some t'" "b = entry t' (PTX va')" "page_aligned t'"
      by (rule slot_SomeE)
    have "t' = t \<and> PTX va' = PTX va \<longleftrightarrow> d' = d \<and> PGROUNDDOWN va' = PGROUNDDOWN va"
      using tab_inj [OF assms(1,2) d' index_less(1) index_less(1) t(1), of va'] t(1) t'(1)
        PDX_PTX_page [of va' va] by auto
    then have "load32 m' b = (if d' = d \<and> PGROUNDDOWN va' = PGROUNDDOWN va then e else load32 m b)"
      using t(2,3) t'(2,3) by (auto simp: m'_def pt_simps)
    then show ?thesis using sl Some by (simp add: pte_at_def)
  qed
qed

text \<open>Adding a page table: a zeroed page \<open>t\<close> outside the tables, named by the entry for
  \<open>va\<close> of a directory that had none.\<close>

lemma pt_add_table:
  fixes e :: uint
  assumes ok: "pts_ok m D" and d: "d \<in> D" and none: "tab m d (PDX va) = None"
    and t: "page_aligned t" "t \<notin> pt_pages m D" and e: "present e" "frame_of e = t"
  defines "m' \<equiv> store32 (page_fill m t 0) (entry d (PDX va)) e"
  shows "pts_ok m' D" and "pt_pages m' D = insert t (pt_pages m D)"
    and "slot m' d va = Some (entry t (PTX va))"
    and "d' \<in> D \<Longrightarrow> pte_at m' d' va' = pte_at m d' va'"
proof -
  have nt: "p \<noteq> t" if "p \<in> pt_pages m D" for p using t(2) that by blast
  have other: "load32 m' (entry p i) = (if p = d \<and> i = PDX va then e else load32 m (entry p i))"
    if "p \<in> pt_pages m D" "idx i" for p i
    using that nt [of p] pt_pages_aligned [OF ok, of p] pts_ok_aligned [OF ok d] t(1)
    by (simp add: m'_def pt_simps load32_page_fill_other)
  have new: "load32 m' (entry t i) = 0" if "idx i" for i
  proof -
    have "d \<noteq> t" using nt [of d] d by (simp add: pt_pages_def)
    then show ?thesis
      using that t(1) pts_ok_aligned [OF ok d] by (simp add: m'_def pt_simps load32_page_fill_zero)
  qed
  have tt: "tab m' d' i = (if d' = d \<and> i = PDX va then Some t else tab m d' i)"
    if "d' \<in> D" "idx i" for d' i
  proof -
    have "d' \<in> pt_pages m D" using that by (simp add: pt_pages_def)
    from other [OF this that(2)] show ?thesis using e by (simp add: tab_def)
  qed
  have old: "tab m d' i \<noteq> Some t" if "d' \<in> D" "idx i" for d' i
    using tab_in_pages [OF that] t(2) by blast
  show "pts_ok m' D" unfolding pts_ok_def
  proof (intro conjI ballI allI impI)
    fix d1 i x assume 1: "d1 \<in> D" "idx i" "tab m' d1 i = Some x"
    show "x \<notin> D"
      using 1 tt [OF 1(1,2)] tab_notin [OF ok 1(1,2)] t(2) by (auto simp: pt_pages_def split: if_splits)
    fix d2 j assume 2: "d2 \<in> D" "idx j" "tab m' d2 j = Some x"
    have "d2 = d1 \<and> j = i"
      using 1(3) 2(3) tab_inj [OF ok 1(1) 2(1) 1(2) 2(2)] old [OF 1(1,2)] old [OF 2(1,2)]
      unfolding tt [OF 1(1,2)] tt [OF 2(1,2)] by (auto split: if_splits)
    then show "d2 = d1" "j = i" by auto
  qed (rule pts_ok_aligned [OF ok])
  have "{x. \<exists>d'\<in>D. \<exists>i. idx i \<and> tab m' d' i = Some x} = insert t {x. \<exists>d'\<in>D. \<exists>i. idx i \<and> tab m d' i = Some x}"
    (is "?L = ?R")
  proof
    show "?L \<subseteq> ?R"
    proof
      fix x assume "x \<in> ?L"
      then obtain d' i where "d' \<in> D" "idx i" "tab m' d' i = Some x" by blast
      then show "x \<in> ?R" using tt [of d' i] by (cases "d' = d \<and> i = PDX va") auto
    qed
    show "?R \<subseteq> ?L"
    proof
      fix x assume "x \<in> ?R"
      then consider "x = t" | d' i where "d' \<in> D" "idx i" "tab m d' i = Some x" by blast
      then show "x \<in> ?L"
      proof cases
        case 1
        then show ?thesis
          using d tt [OF d, of "PDX va"] by (intro CollectI bexI [of _ d] exI [of _ "PDX va"]) auto
      next
        case 2
        then show ?thesis using none tt [OF 2(1,2)] by (intro CollectI bexI [of _ d'] exI [of _ i]) auto
      qed
    qed
  qed
  then show "pt_pages m' D = insert t (pt_pages m D)" by (auto simp: pt_pages_def)
  show "slot m' d va = Some (entry t (PTX va))" using tt [OF d] by (simp add: slot_def)
  assume d': "d' \<in> D"
  show "pte_at m' d' va' = pte_at m d' va'"
  proof (cases "d' = d \<and> PDX va' = PDX va")
    case True
    then show ?thesis using tt [OF d, of "PDX va"] none new by (simp add: pte_at_def slot_def)
  next
    case False
    then have sl: "slot m' d' va' = slot m d' va'"
      using tt [OF d' index_less(1), of va'] by (simp only: slot_def if_False)
    have "load32 m' (entry p (PTX va')) = load32 m (entry p (PTX va'))"
      if p: "tab m d' (PDX va') = Some p" for p
    proof -
      have "p \<in> pt_pages m D" "p \<notin> D" using tab_in_pages [OF d' _ p] tab_notin [OF ok d' _ p] by simp_all
      then show ?thesis using other [of p "PTX va'"] d by auto
    qed
    then show ?thesis using sl by (auto simp: pte_at_def slot_def split: option.splits)
  qed
qed

text \<open>A new directory: a zeroed page outside the tables.\<close>

lemma pt_new_directory:
  assumes ok: "pts_ok m D" and p: "page_aligned p" "p \<notin> pt_pages m D"
  defines "m' \<equiv> page_fill m p 0"
  shows "pts_ok m' (insert p D)" and "pt_pages m' (insert p D) = insert p (pt_pages m D)"
    and "pte_at m' p va = 0" and "d \<in> D \<Longrightarrow> pte_at m' d va = pte_at m d va"
    and "d \<in> D \<Longrightarrow> slot m' d va = slot m d va" and "tab m' p i = None \<or> \<not> idx i"
proof -
  have same: "m' x = m x" if "PGROUNDDOWN x \<in> pt_pages m D" for x
    using that p by (auto simp: m'_def page_fill_apply)
  note fr = pt_frame [OF ok same]
  show "d \<in> D \<Longrightarrow> pte_at m' d va = pte_at m d va" "d \<in> D \<Longrightarrow> slot m' d va = slot m d va"
    using fr(3,4) by simp_all
  have new: "tab m' p i = None" if "idx i" for i
    using that p by (simp add: tab_def m'_def load32_page_fill_zero present_def)
  then show "tab m' p i = None \<or> \<not> idx i" by blast
  show "pte_at m' p va = 0" using new by (simp add: pte_at_def slot_def)
  have nD: "x \<noteq> p" if "d \<in> D" "idx i" "tab m' d i = Some x" for d i x
    using tab_in_pages [OF that] fr(2) p(2) by auto
  show "pts_ok m' (insert p D)" unfolding pts_ok_def
  proof (intro conjI ballI allI impI)
    show "page_aligned d" if "d \<in> insert p D" for d using that p(1) pts_ok_aligned [OF ok] by auto
    fix d1 i x assume 1: "d1 \<in> insert p D" "idx i" "tab m' d1 i = Some x"
    then have d1: "d1 \<in> D" using new by auto
    show "x \<notin> insert p D" using tab_notin [OF fr(1) d1 1(2,3)] nD [OF d1 1(2,3)] by auto
    fix d2 j assume 2: "d2 \<in> insert p D" "idx j" "tab m' d2 j = Some x"
    then have d2: "d2 \<in> D" using new by auto
    show "d2 = d1" "j = i" using tab_inj [OF fr(1) d1 d2 1(2) 2(2) 1(3) 2(3)] by auto
  qed
  show "pt_pages m' (insert p D) = insert p (pt_pages m D)"
    using fr(2) new by (auto simp: pt_pages_def)
qed

lemma pts_ok_subset: "pts_ok m D \<Longrightarrow> D' \<subseteq> D \<Longrightarrow> pts_ok m D'"
  unfolding pts_ok_def by blast

lemma pt_pages_mono: "D' \<subseteq> D \<Longrightarrow> pt_pages m D' \<subseteq> pt_pages m D"
  unfolding pt_pages_def by blast

end
