(* ===== verification/Vm.thy ===== *)
theory Vm
  imports Kalloc Pgtable
begin

text \<open>
  Virtual memory, \<open>vm.c\<close>: page directories and page tables in pages of the allocator, the
  construction, growth, copy and release of address spaces, and the copy-on-write fault
  handler.

  A null pointer is the address 0. The loops over the pages of an address range carry a
  bound on their iterations, \<open>max_pages\<close>, the number of pages of a 32-bit address space;
  a loop that uses it up ends in \<open>Loops\<close>. The theorems show that this does not happen
  for ranges in user space. \<open>loaduvm\<close> takes the file read as an argument; the source
  buffer of \<open>copyout\<close> is the list of its bytes.

  This theory holds the operations and what each does to the page tables as functions; the
  invariant over all address spaces and its consequences are in \<open>Cow\<close>.
\<close>

section \<open>State\<close>

record vstate = kstate +
  kdata :: uint
  kpgdir :: uint
  cr3 :: uint
  klog :: "string list"

definition lcr3 :: "uint \<Rightarrow> 'z vstate_scheme \<Rightarrow> 'z vstate_scheme" where
  "lcr3 v s = s\<lparr>cr3 := v\<rparr>"

definition cprintf_msg :: "string \<Rightarrow> 'z vstate_scheme \<Rightarrow> 'z vstate_scheme" where
  "cprintf_msg msg s = s\<lparr>klog := klog s @ [msg]\<rparr>"

definition max_pages :: nat where
  "max_pages = Suc (2 ^ 20)"

section \<open>Walking and mapping\<close>

definition walkpgdir :: "uint \<Rightarrow> uint \<Rightarrow> bool \<Rightarrow> 'z kstate_scheme \<Rightarrow> (uint \<times> 'z kstate_scheme) res" where
  "walkpgdir pgdir va alloc s =
     (let pde = entry pgdir (PDX va); e = load32 (mem s) pde in
      if e AND PTE_P \<noteq> 0 then Ok (entry (P2V (PTE_ADDR e)) (PTX va), s)
      else if \<not> alloc then Ok (0, s)
      else bindE (kalloc s) (\<lambda>(pgtab, s).
        if pgtab = 0 then Ok (0, s)
        else
          let m = memset (mem s) pgtab 0 PGSIZE;
              m = store32 m pde (V2P pgtab OR PTE_P OR PTE_W OR PTE_U)
          in Ok (entry pgtab (PTX va), s\<lparr>mem := m\<rparr>)))"

fun map_loop :: "nat \<Rightarrow> uint \<Rightarrow> uint \<Rightarrow> uint \<Rightarrow> uint \<Rightarrow> uint \<Rightarrow> 'z kstate_scheme
    \<Rightarrow> (int \<times> 'z kstate_scheme) res" where
  "map_loop 0 pgdir a lst pa perm s = Inl Loops"
| "map_loop (Suc n) pgdir a lst pa perm s =
     bindE (walkpgdir pgdir a True s) (\<lambda>(pte, s).
     if pte = 0 then Ok (-1, s)
     else if load32 (mem s) pte AND PTE_P \<noteq> 0 then panic ''remap''
     else
       let s = s\<lparr>mem := store32 (mem s) pte (pa OR perm OR PTE_P)\<rparr> in
       if a = lst then Ok (0, s)
       else map_loop n pgdir (a + PGSIZE) lst (pa + PGSIZE) perm s)"

definition mappages :: "uint \<Rightarrow> uint \<Rightarrow> uint \<Rightarrow> uint \<Rightarrow> uint \<Rightarrow> 'z kstate_scheme
    \<Rightarrow> (int \<times> 'z kstate_scheme) res" where
  "mappages pgdir va sz pa perm s =
     (let a = PGROUNDDOWN va; lst = PGROUNDDOWN (va + sz - 1)
      in map_loop max_pages pgdir a lst pa perm s)"

section \<open>Releasing\<close>

fun dealloc_loop :: "nat \<Rightarrow> uint \<Rightarrow> uint \<Rightarrow> uint \<Rightarrow> 'z kstate_scheme \<Rightarrow> 'z kstate_scheme res" where
  "dealloc_loop 0 pgdir a oldsz s = Inl Loops"
| "dealloc_loop (Suc n) pgdir a oldsz s =
     (if a < oldsz then
        bindE (walkpgdir pgdir a False s) (\<lambda>(pte, s).
        if pte = 0 then dealloc_loop n pgdir (PGADDR (PDX a + 1) 0 0 - PGSIZE + PGSIZE) oldsz s
        else if load32 (mem s) pte AND PTE_P \<noteq> 0 then
          let pa = PTE_ADDR (load32 (mem s) pte) in
          if pa = 0 then panic ''kfree''
          else bindE (kfree (P2V pa) s) (\<lambda>s.
            dealloc_loop n pgdir (a + PGSIZE) oldsz (s\<lparr>mem := store32 (mem s) pte 0\<rparr>))
        else dealloc_loop n pgdir (a + PGSIZE) oldsz s)
      else Ok s)"

definition deallocuvm :: "uint \<Rightarrow> uint \<Rightarrow> uint \<Rightarrow> 'z kstate_scheme \<Rightarrow> (uint \<times> 'z kstate_scheme) res" where
  "deallocuvm pgdir oldsz newsz s =
     (if newsz \<ge> oldsz then Ok (oldsz, s)
      else bindE (dealloc_loop max_pages pgdir (PGROUNDUP newsz) oldsz s) (\<lambda>s. Ok (newsz, s)))"

primrec free_tables :: "nat list \<Rightarrow> uint \<Rightarrow> 'z kstate_scheme \<Rightarrow> 'z kstate_scheme res" where
  "free_tables [] pgdir s = Ok s"
| "free_tables (i # is) pgdir s =
     (let e = load32 (mem s) (entry pgdir (of_nat i)) in
      bindE (whenE (e AND PTE_P \<noteq> 0) (kfree (P2V (PTE_ADDR e))) s) (free_tables is pgdir))"

definition freevm :: "uint \<Rightarrow> 'z kstate_scheme \<Rightarrow> 'z kstate_scheme res" where
  "freevm pgdir s =
     (if pgdir = 0 then panic ''freevm: no pgdir''
      else bindE (deallocuvm pgdir KERNBASE 0 s) (\<lambda>(_, s).
           bindE (free_tables [0..<NPDENTRIES] pgdir s) (\<lambda>s.
           kfree pgdir s)))"

section \<open>The kernel part\<close>

record kmap_entry =
  virt :: uint
  phys_start :: uint
  phys_end :: uint
  perm :: uint

definition kmap :: "uint \<Rightarrow> kmap_entry list" where
  "kmap dat =
     [\<lparr>virt = KERNBASE, phys_start = 0, phys_end = EXTMEM, perm = PTE_W\<rparr>,
      \<lparr>virt = KERNLINK, phys_start = V2P KERNLINK, phys_end = V2P dat, perm = 0\<rparr>,
      \<lparr>virt = dat, phys_start = V2P dat, phys_end = PHYSTOP, perm = PTE_W\<rparr>,
      \<lparr>virt = DEVSPACE, phys_start = DEVSPACE, phys_end = 0, perm = PTE_W\<rparr>]"

primrec kmap_loop :: "kmap_entry list \<Rightarrow> uint \<Rightarrow> 'z kstate_scheme \<Rightarrow> (uint \<times> 'z kstate_scheme) res" where
  "kmap_loop [] pgdir s = Ok (pgdir, s)"
| "kmap_loop (k # ks) pgdir s =
     bindE (mappages pgdir (virt k) (phys_end k - phys_start k) (phys_start k) (perm k) s) (\<lambda>(r, s).
     if r < 0 then bindE (freevm pgdir s) (\<lambda>s. Ok (0, s))
     else kmap_loop ks pgdir s)"

definition setupkvm :: "'z vstate_scheme \<Rightarrow> (uint \<times> 'z vstate_scheme) res" where
  "setupkvm s =
     bindE (kalloc s) (\<lambda>(pgdir, s).
     if pgdir = 0 then Ok (0, s)
     else
       let s = s\<lparr>mem := memset (mem s) pgdir 0 PGSIZE\<rparr> in
       if P2V PHYSTOP > DEVSPACE then panic ''PHYSTOP too high''
       else kmap_loop (kmap (kdata s)) pgdir s)"

definition switchkvm :: "'z vstate_scheme \<Rightarrow> 'z vstate_scheme" where
  "switchkvm s = lcr3 (V2P (kpgdir s)) s"

definition kvmalloc :: "'z vstate_scheme \<Rightarrow> 'z vstate_scheme res" where
  "kvmalloc s = bindE (setupkvm s) (\<lambda>(d, s). Ok (switchkvm (s\<lparr>kpgdir := d\<rparr>)))"

section \<open>The user part\<close>

text \<open>\<open>init\<close> is the address of the embedded initial program; \<open>kalloc\<close> and \<open>mappages\<close> are
  not checked for failure, as in the code.\<close>

definition inituvm :: "uint \<Rightarrow> uint \<Rightarrow> uint \<Rightarrow> 'z kstate_scheme \<Rightarrow> 'z kstate_scheme res" where
  "inituvm pgdir init sz s =
     (if sz \<ge> PGSIZE then panic ''inituvm: more than a page''
      else
        bindE (kalloc s) (\<lambda>(pg, s).
        let s = s\<lparr>mem := memset (mem s) pg 0 PGSIZE\<rparr> in
        bindE (mappages pgdir 0 PGSIZE (V2P pg) (PTE_W OR PTE_U) s) (\<lambda>(_, s).
        Ok (s\<lparr>mem := memmove (mem s) pg init sz\<rparr>))))"

fun load_loop :: "(uint \<Rightarrow> uint \<Rightarrow> uint \<Rightarrow> 'z kstate_scheme \<Rightarrow> (int \<times> 'z kstate_scheme) res)
    \<Rightarrow> nat \<Rightarrow> uint \<Rightarrow> uint \<Rightarrow> uint \<Rightarrow> uint \<Rightarrow> uint \<Rightarrow> 'z kstate_scheme \<Rightarrow> (int \<times> 'z kstate_scheme) res" where
  "load_loop readi 0 pgdir addr i offset sz s = Inl Loops"
| "load_loop readi (Suc n) pgdir addr i offset sz s =
     (if i < sz then
        bindE (walkpgdir pgdir (addr + i) False s) (\<lambda>(pte, s).
        if pte = 0 then panic ''loaduvm: address should exist''
        else
          let pa = PTE_ADDR (load32 (mem s) pte);
              k = (if sz - i < PGSIZE then sz - i else PGSIZE)
          in bindE (readi (P2V pa) (offset + i) k s) (\<lambda>(r, s).
             if r \<noteq> uint k then Ok (-1, s)
             else load_loop readi n pgdir addr (i + PGSIZE) offset sz s))
      else Ok (0, s))"

definition loaduvm :: "(uint \<Rightarrow> uint \<Rightarrow> uint \<Rightarrow> 'z kstate_scheme \<Rightarrow> (int \<times> 'z kstate_scheme) res)
    \<Rightarrow> uint \<Rightarrow> uint \<Rightarrow> uint \<Rightarrow> uint \<Rightarrow> 'z kstate_scheme \<Rightarrow> (int \<times> 'z kstate_scheme) res" where
  "loaduvm readi pgdir addr offset sz s =
     (if addr mod PGSIZE \<noteq> 0 then panic ''loaduvm: addr must be page aligned''
      else load_loop readi max_pages pgdir addr 0 offset sz s)"

fun alloc_loop :: "nat \<Rightarrow> uint \<Rightarrow> uint \<Rightarrow> uint \<Rightarrow> uint \<Rightarrow> 'z vstate_scheme \<Rightarrow> (uint \<times> 'z vstate_scheme) res" where
  "alloc_loop 0 pgdir a oldsz newsz s = Inl Loops"
| "alloc_loop (Suc n) pgdir a oldsz newsz s =
     (if a < newsz then
        bindE (kalloc s) (\<lambda>(pg, s).
        if pg = 0 then
          let s = cprintf_msg (''allocuvm out of memory'' @ [CHR 0x0A]) s in
          bindE (deallocuvm pgdir newsz oldsz s) (\<lambda>(_, s). Ok (0, s))
        else
          let s = s\<lparr>mem := memset (mem s) pg 0 PGSIZE\<rparr> in
          bindE (mappages pgdir a PGSIZE (V2P pg) (PTE_W OR PTE_U) s) (\<lambda>(r, s).
          if r < 0 then
            let s = cprintf_msg (''allocuvm out of memory (2)'' @ [CHR 0x0A]) s in
            bindE (deallocuvm pgdir newsz oldsz s) (\<lambda>(_, s).
            bindE (kfree pg s) (\<lambda>s. Ok (0, s)))
          else alloc_loop n pgdir (a + PGSIZE) oldsz newsz s))
      else Ok (newsz, s))"

definition allocuvm :: "uint \<Rightarrow> uint \<Rightarrow> uint \<Rightarrow> 'z vstate_scheme \<Rightarrow> (uint \<times> 'z vstate_scheme) res" where
  "allocuvm pgdir oldsz newsz s =
     (if newsz \<ge> KERNBASE then Ok (0, s)
      else if newsz < oldsz then Ok (oldsz, s)
      else alloc_loop max_pages pgdir (PGROUNDUP oldsz) oldsz newsz s)"

definition clearpteu :: "uint \<Rightarrow> uint \<Rightarrow> 'z kstate_scheme \<Rightarrow> 'z kstate_scheme res" where
  "clearpteu pgdir uva s =
     bindE (walkpgdir pgdir uva False s) (\<lambda>(pte, s).
     if pte = 0 then panic ''clearpteu''
     else Ok (s\<lparr>mem := store32 (mem s) pte (load32 (mem s) pte AND NOT PTE_U)\<rparr>))"

section \<open>Copy on write\<close>

fun copy_loop :: "nat \<Rightarrow> uint \<Rightarrow> uint \<Rightarrow> uint \<Rightarrow> uint \<Rightarrow> 'z kstate_scheme \<Rightarrow> (bool \<times> 'z kstate_scheme) res" where
  "copy_loop 0 pgdir d i sz s = Inl Loops"
| "copy_loop (Suc n) pgdir d i sz s =
     (if i < sz then
        bindE (walkpgdir pgdir i False s) (\<lambda>(pte, s).
        if pte = 0 then panic ''copyuvm: pte should exist''
        else if load32 (mem s) pte AND PTE_P = 0 then panic ''copyuvm: page not present''
        else
          let s = s\<lparr>mem := store32 (mem s) pte (load32 (mem s) pte AND NOT PTE_W)\<rparr>;
              pa = PTE_ADDR (load32 (mem s) pte);
              flags = PTE_FLAGS (load32 (mem s) pte)
          in
          bindE (mappages d i PGSIZE pa flags s) (\<lambda>(r, s).
          if r < 0 then Ok (False, s)
          else bindE (incr_refc pa s) (copy_loop n pgdir d (i + PGSIZE) sz)))
      else Ok (True, s))"

definition copyuvm :: "uint \<Rightarrow> uint \<Rightarrow> 'z vstate_scheme \<Rightarrow> (uint \<times> 'z vstate_scheme) res" where
  "copyuvm pgdir sz s =
     bindE (setupkvm s) (\<lambda>(d, s).
     if d = 0 then Ok (0, s)
     else
       bindE (copy_loop max_pages pgdir d 0 sz s) (\<lambda>(good, s).
       if good then Ok (d, lcr3 (V2P pgdir) s)
       else bindE (freevm d s) (\<lambda>s. Ok (0, s))))"

text \<open>\<open>pgdir\<close> is \<open>myproc()->pgdir\<close> and \<open>va\<close> what \<open>rcr2\<close> reads. The first component of the
  result says that the handler has called \<open>exit\<close>, which the caller then runs.\<close>

definition CoW_handler :: "uint \<Rightarrow> uint \<Rightarrow> 'z vstate_scheme \<Rightarrow> (bool \<times> 'z vstate_scheme) res" where
  "CoW_handler pgdir va s =
     (if va < 0 then panic ''invaild rcr2 value''
      else
        bindE (walkpgdir pgdir va False s) (\<lambda>(pte, s).
        if pte = 0 \<or> load32 (mem s) pte AND PTE_P = 0 then
          Ok (True, cprintf_msg ''CoW handler: address should exist'' s)
        else
          let pa = PTE_ADDR (load32 (mem s) pte) in
          bindE (get_refc pa s) (\<lambda>(c, s).
          bindE
            (if c > 1 then
               bindE (kalloc s) (\<lambda>(pg, s).
               if pg = 0 then panic ''pagefault: kalloc failed''
               else
                 let m = memmove (mem s) pg (P2V pa) PGSIZE;
                     m = store32 m pte (V2P pg OR PTE_P OR PTE_W OR PTE_U)
                 in decr_refc pa (s\<lparr>mem := m\<rparr>))
             else Ok (s\<lparr>mem := store32 (mem s) pte (load32 (mem s) pte OR PTE_W)\<rparr>))
            (\<lambda>s. Ok (False, lcr3 (V2P pgdir) s)))))"

section \<open>Access to user memory\<close>

definition uva2ka :: "uint \<Rightarrow> uint \<Rightarrow> 'z kstate_scheme \<Rightarrow> (uint \<times> 'z kstate_scheme) res" where
  "uva2ka pgdir uva s =
     bindE (walkpgdir pgdir uva False s) (\<lambda>(pte, s).
     if pte = 0 then Inl Undef
     else if load32 (mem s) pte AND PTE_P = 0 then Ok (0, s)
     else if load32 (mem s) pte AND PTE_U = 0 then Ok (0, s)
     else Ok (P2V (PTE_ADDR (load32 (mem s) pte)), s))"

fun copyout_loop :: "nat \<Rightarrow> uint \<Rightarrow> uint \<Rightarrow> byte list \<Rightarrow> 'z kstate_scheme \<Rightarrow> (int \<times> 'z kstate_scheme) res" where
  "copyout_loop 0 pgdir va buf s = Inl Loops"
| "copyout_loop (Suc k) pgdir va buf s =
     (if buf \<noteq> [] then
        let va0 = PGROUNDDOWN va in
        bindE (uva2ka pgdir va0 s) (\<lambda>(pa0, s).
        if pa0 = 0 then Ok (-1, s)
        else
          let n = unat (PGSIZE - (va - va0));
              n = (if n > length buf then length buf else n);
              s = s\<lparr>mem := put (mem s) (pa0 + (va - va0)) (take n buf)\<rparr>
          in copyout_loop k pgdir (va0 + PGSIZE) (drop n buf) s)
      else Ok (0, s))"

definition copyout :: "uint \<Rightarrow> uint \<Rightarrow> byte list \<Rightarrow> 'z kstate_scheme \<Rightarrow> (int \<times> 'z kstate_scheme) res" where
  "copyout pgdir va buf s = copyout_loop (Suc (length buf)) pgdir va buf s"

end
