(* ===== verification/Sched.thy ===== *)
theory Sched
  imports Vm
begin

text \<open>
  The process table and the scheduler: the part of \<open>proc.c\<close> below the file system, with
  \<open>switchuvm\<close> of \<open>vm.c\<close>. \<open>fork\<close>, \<open>exit\<close>, \<open>wait\<close> and \<open>userinit\<close> are in \<open>Proc\<close>.

  A process is its index in the table, the null pointer is \<open>None\<close>. The trap frame and the
  context lie in the kernel stack, in memory. A channel is named by the object whose address
  the code passes to \<open>sleep\<close>.

  \<open>swtch\<close> passes the CPU to another kernel thread: \<open>sched\<close>, \<open>yield\<close> and \<open>sleep\<close> are
  each split there, \<open>_out\<close> being the part before and \<open>_in\<close> the part after the thread is
  resumed; likewise an iteration of \<open>scheduler\<close>.
\<close>

section \<open>State\<close>

datatype chan =
    ChProc nat
  | ChTicks
  | ChLog
  | ChBuf nat
  | ChSleep slockid
  | ChRead uint
  | ChWrite uint
  | ChInput

datatype procstate = UNUSED | EMBRYO | SLEEPING | RUNNABLE | RUNNING | ZOMBIE

record proc =
  sz :: uint
  pgdir :: uint
  kstack :: uint
  pstate :: procstate
  pid :: int
  parent :: "nat option"
  tf :: uint
  ctxt :: uint
  chan :: "chan option"
  killed :: bool
  ofile :: "nat option list"
  cwd :: "nat option"
  pname :: "byte list"

record pstate = vstate +
  procs :: "proc list"
  initproc :: "nat option"
  nextpid :: int
  ticks :: uint
  esp0 :: uint
  trapret :: uint
  forkret :: uint

definition NPROC :: nat where [simp]: "NPROC = 64"
definition NOFILE :: nat where [simp]: "NOFILE = 16"
definition KSTACKSIZE :: uint where [simp]: "KSTACKSIZE = 4096"

text \<open>Sizes of \<open>struct trapframe\<close> and \<open>struct context\<close>, and the offsets of their fields.\<close>

definition TF_SIZE :: uint where [simp]: "TF_SIZE = 76"
definition TF_EDX :: uint where [simp]: "TF_EDX = 20"
definition TF_EAX :: uint where [simp]: "TF_EAX = 28"
definition TF_ES :: uint where [simp]: "TF_ES = 40"
definition TF_DS :: uint where [simp]: "TF_DS = 44"
definition TF_TRAPNO :: uint where [simp]: "TF_TRAPNO = 48"
definition TF_ERR :: uint where [simp]: "TF_ERR = 52"
definition TF_EIP :: uint where [simp]: "TF_EIP = 56"
definition TF_CS :: uint where [simp]: "TF_CS = 60"
definition TF_EFLAGS :: uint where [simp]: "TF_EFLAGS = 64"
definition TF_ESP :: uint where [simp]: "TF_ESP = 68"
definition TF_SS :: uint where [simp]: "TF_SS = 72"
definition CTX_SIZE :: uint where [simp]: "CTX_SIZE = 20"
definition CTX_EBP :: uint where [simp]: "CTX_EBP = 12"
definition CTX_EIP :: uint where [simp]: "CTX_EIP = 16"

definition upd_proc :: "nat \<Rightarrow> (proc \<Rightarrow> proc) \<Rightarrow> 'z pstate_scheme \<Rightarrow> 'z pstate_scheme" where
  "upd_proc i f s = s\<lparr>procs := (procs s)[i := f (procs s ! i)]\<rparr>"

abbreviation the_proc :: "'z pstate_scheme \<Rightarrow> nat \<Rightarrow> proc" where
  "the_proc s i \<equiv> procs s ! i"

text \<open>\<open>myproc()\<close> on the whole state; a null result is dereferenced by the callers.\<close>

definition curproc :: "'z pstate_scheme \<Rightarrow> (nat \<times> 'z pstate_scheme) res" where
  "curproc s =
     bindE (myproc (hw s)) (\<lambda>(p, h).
     case p of None \<Rightarrow> Inl Undef | Some i \<Rightarrow> Ok (i, s\<lparr>hw := h\<rparr>))"

section \<open>The process table\<close>

definition pinit :: "'z pstate_scheme \<Rightarrow> 'z pstate_scheme" where
  "pinit s = s\<lparr>hw := initlock PtableLock ''ptable'' (hw s)\<rparr>"

text \<open>The first process from index \<open>i\<close> on that satisfies a test.\<close>

fun find_proc :: "(proc \<Rightarrow> bool) \<Rightarrow> nat \<Rightarrow> proc list \<Rightarrow> nat option" where
  "find_proc P i [] = None"
| "find_proc P i (p # ps) = (if P p then Some i else find_proc P (Suc i) ps)"

definition allocproc :: "'z pstate_scheme \<Rightarrow> (nat option \<times> 'z pstate_scheme) res" where
  "allocproc s =
     bindE (lock PtableLock s) (\<lambda>s.
     case find_proc (\<lambda>p. pstate p = UNUSED) 0 (procs s) of
       None \<Rightarrow> bindE (unlock PtableLock s) (\<lambda>s. Ok (None, s))
     | Some i \<Rightarrow>
         let s = upd_proc i (\<lambda>p. p\<lparr>pstate := EMBRYO, pid := nextpid s\<rparr>) s;
             s = s\<lparr>nextpid := nextpid s + 1\<rparr>
         in
         bindE (unlock PtableLock s) (\<lambda>s.
         bindE (kalloc s) (\<lambda>(k, s).
         let s = upd_proc i (\<lambda>p. p\<lparr>kstack := k\<rparr>) s in
         if k = 0 then Ok (None, upd_proc i (\<lambda>p. p\<lparr>pstate := UNUSED\<rparr>) s)
         else
           let sp = k + KSTACKSIZE;
               sp = sp - TF_SIZE;
               s = upd_proc i (\<lambda>p. p\<lparr>tf := sp\<rparr>) s;
               sp = sp - 4;
               s = s\<lparr>mem := store32 (mem s) sp (trapret s)\<rparr>;
               sp = sp - CTX_SIZE;
               s = upd_proc i (\<lambda>p. p\<lparr>ctxt := sp\<rparr>) s;
               s = s\<lparr>mem := memset (mem s) sp 0 CTX_SIZE\<rparr>;
               s = s\<lparr>mem := store32 (mem s) (sp + CTX_EIP) (forkret s)\<rparr>
           in Ok (Some i, s))))"

definition wakeup1 :: "chan \<Rightarrow> 'z pstate_scheme \<Rightarrow> 'z pstate_scheme" where
  "wakeup1 c s = s\<lparr>procs := map (\<lambda>p.
     if pstate p = SLEEPING \<and> chan p = Some c then p\<lparr>pstate := RUNNABLE\<rparr> else p) (procs s)\<rparr>"

definition wakeup :: "chan \<Rightarrow> 'z pstate_scheme \<Rightarrow> 'z pstate_scheme res" where
  "wakeup c s = bindE (lock PtableLock s) (\<lambda>s. unlock PtableLock (wakeup1 c s))"

definition kill :: "int \<Rightarrow> 'z pstate_scheme \<Rightarrow> (int \<times> 'z pstate_scheme) res" where
  "kill pd s =
     bindE (lock PtableLock s) (\<lambda>s.
     case find_proc (\<lambda>p. pid p = pd) 0 (procs s) of
       Some i \<Rightarrow>
         let s = upd_proc i (\<lambda>p. p\<lparr>killed := True\<rparr>) s;
             s = (if pstate (the_proc s i) = SLEEPING then upd_proc i (\<lambda>p. p\<lparr>pstate := RUNNABLE\<rparr>) s else s)
         in bindE (unlock PtableLock s) (\<lambda>s. Ok (0, s))
     | None \<Rightarrow> bindE (unlock PtableLock s) (\<lambda>s. Ok (-1, s)))"

section \<open>Switching\<close>

definition switchuvm :: "nat option \<Rightarrow> 'z pstate_scheme \<Rightarrow> 'z pstate_scheme res" where
  "switchuvm p s =
     (case p of
        None \<Rightarrow> panic ''switchuvm: no process''
      | Some i \<Rightarrow>
          if kstack (the_proc s i) = 0 then panic ''switchuvm: no kstack''
          else if pgdir (the_proc s i) = 0 then panic ''switchuvm: no pgdir''
          else
            bindE (pushcli (hw s)) (\<lambda>h.
            bindE (mycpu h) (\<lambda>_.
            let s = s\<lparr>hw := h, esp0 := kstack (the_proc s i) + KSTACKSIZE\<rparr>;
                s = lcr3 (V2P (pgdir (the_proc s i))) s
            in bindE (popcli (hw s)) (\<lambda>h. Ok (s\<lparr>hw := h\<rparr>)))))"

definition set_cproc :: "nat \<Rightarrow> nat option \<Rightarrow> 'z pstate_scheme \<Rightarrow> 'z pstate_scheme" where
  "set_cproc c p s = s\<lparr>hw := upd_cpu c (\<lambda>x. x\<lparr>cproc := p\<rparr>) (hw s)\<rparr>"

text \<open>\<open>scheduler\<close>: the start, the head of the outer loop, the search from index \<open>i\<close> up to
  \<open>swtch\<close>, and what follows it.\<close>

definition scheduler_init :: "'z pstate_scheme \<Rightarrow> 'z pstate_scheme res" where
  "scheduler_init s = bindE (mycpu (hw s)) (\<lambda>c. Ok (set_cproc c None s))"

definition scheduler_round :: "'z pstate_scheme \<Rightarrow> 'z pstate_scheme res" where
  "scheduler_round s = lock PtableLock (s\<lparr>hw := sti (hw s)\<rparr>)"

definition scheduler_pick :: "nat \<Rightarrow> nat \<Rightarrow> 'z pstate_scheme \<Rightarrow> (nat option \<times> 'z pstate_scheme) res" where
  "scheduler_pick c i s =
     (case find_proc (\<lambda>p. pstate p = RUNNABLE) i (drop i (procs s)) of
        None \<Rightarrow> bindE (unlock PtableLock s) (\<lambda>s. Ok (None, s))
      | Some p \<Rightarrow>
          bindE (switchuvm (Some p) (set_cproc c (Some p) s)) (\<lambda>s.
          Ok (Some p, upd_proc p (\<lambda>x. x\<lparr>pstate := RUNNING\<rparr>) s)))"

definition scheduler_back :: "nat \<Rightarrow> 'z pstate_scheme \<Rightarrow> 'z pstate_scheme" where
  "scheduler_back c s = set_cproc c None (switchkvm s)"

definition sched_out :: "'z pstate_scheme \<Rightarrow> (bool \<times> 'z pstate_scheme) res" where
  "sched_out s =
     bindE (curproc s) (\<lambda>(p, s).
     bindE (holding PtableLock (hw s)) (\<lambda>(r, h).
     let s = s\<lparr>hw := h\<rparr> in
     if \<not> r then panic ''sched ptable.lock''
     else bindE (mycpu (hw s)) (\<lambda>c.
     if ncli (cpus (hw s) ! c) \<noteq> 1 then panic ''sched locks''
     else if pstate (the_proc s p) = RUNNING then panic ''sched running''
     else if irq_on (hw s) then panic ''sched interruptible''
     else Ok (intena (cpus (hw s) ! c), s))))"

definition sched_in :: "bool \<Rightarrow> 'z pstate_scheme \<Rightarrow> 'z pstate_scheme res" where
  "sched_in ie s = bindE (mycpu (hw s)) (\<lambda>c. Ok (s\<lparr>hw := upd_cpu c (\<lambda>x. x\<lparr>intena := ie\<rparr>) (hw s)\<rparr>))"

definition yield_out :: "'z pstate_scheme \<Rightarrow> (bool \<times> 'z pstate_scheme) res" where
  "yield_out s =
     bindE (lock PtableLock s) (\<lambda>s.
     bindE (curproc s) (\<lambda>(p, s).
     sched_out (upd_proc p (\<lambda>x. x\<lparr>pstate := RUNNABLE\<rparr>) s)))"

definition yield_in :: "bool \<Rightarrow> 'z pstate_scheme \<Rightarrow> 'z pstate_scheme res" where
  "yield_in ie s = bindE (sched_in ie s) (unlock PtableLock)"

definition sleep_out :: "chan \<Rightarrow> lockid option \<Rightarrow> 'z pstate_scheme \<Rightarrow> (bool \<times> 'z pstate_scheme) res" where
  "sleep_out c lk s =
     bindE (myproc (hw s)) (\<lambda>(p, h).
     case p of
       None \<Rightarrow> panic ''sleep''
     | Some i \<Rightarrow>
         (case lk of
            None \<Rightarrow> panic ''sleep without lk''
          | Some l \<Rightarrow>
              bindE (if l \<noteq> PtableLock
                     then bindE (lock PtableLock (s\<lparr>hw := h\<rparr>)) (unlock l)
                     else Ok (s\<lparr>hw := h\<rparr>)) (\<lambda>s.
              sched_out (upd_proc i (\<lambda>x. x\<lparr>chan := Some c, pstate := SLEEPING\<rparr>) s))))"

definition sleep_in :: "nat \<Rightarrow> lockid \<Rightarrow> bool \<Rightarrow> 'z pstate_scheme \<Rightarrow> 'z pstate_scheme res" where
  "sleep_in i lk ie s =
     bindE (sched_in ie s) (\<lambda>s.
     let s = upd_proc i (\<lambda>x. x\<lparr>chan := None\<rparr>) s in
     if lk \<noteq> PtableLock then bindE (unlock PtableLock s) (lock lk) else Ok s)"

section \<open>Closed forms\<close>

text \<open>The process this CPU runs.\<close>

abbreviation running :: "'z pstate_scheme \<Rightarrow> nat option" where
  "running s \<equiv> cproc (cpus (hw s) ! me (hw s))"

lemma curproc_ok:
  "hw_ok (hw s) \<Longrightarrow> curproc s = (case running s of None \<Rightarrow> Inl Undef | Some i \<Rightarrow> Ok (i, s\<lparr>hw := peeked (hw s)\<rparr>))"
  by (simp add: curproc_def hw_simps)

lemma upd_proc_twice: "upd_proc i f (upd_proc i g s) = upd_proc i (\<lambda>x. f (g x)) s"
  by (cases "i < length (procs s)") (simp_all add: upd_proc_def list_update_beyond)

lemma upd_proc_mem: "upd_proc i f (s\<lparr>mem := m\<rparr>) = (upd_proc i f s)\<lparr>mem := m\<rparr>"
  by (simp add: upd_proc_def)

lemma upd_proc_sel [simp]:
  "hw (upd_proc i f s) = hw s" "mem (upd_proc i f s) = mem s" "nextpid (upd_proc i f s) = nextpid s"
  "trapret (upd_proc i f s) = trapret s" "forkret (upd_proc i f s) = forkret s"
  "cr3 (upd_proc i f s) = cr3 s" "esp0 (upd_proc i f s) = esp0 s"
  "procs (upd_proc i f s) = (procs s)[i := f (procs s ! i)]"
  by (simp_all add: upd_proc_def)

lemma wakeup1_sel [simp]:
  "hw (wakeup1 c s) = hw s" "mem (wakeup1 c s) = mem s" "length (procs (wakeup1 c s)) = length (procs s)"
  by (simp_all add: wakeup1_def)

lemma wakeup_ok:
  "hw_ok (hw s) \<Longrightarrow> lock_free PtableLock (hw s) \<Longrightarrow>
   wakeup c s = Ok ((wakeup1 c s)\<lparr>hw := cycled (mem s) PtableLock (hw s)\<rparr>)"
  by (simp add: wakeup_def hw_simps wakeup1_def)

lemma wakeup1_nth:
  "i < length (procs s) \<Longrightarrow> procs (wakeup1 c s) ! i =
     (if pstate (procs s ! i) = SLEEPING \<and> chan (procs s ! i) = Some c
      then (procs s ! i)\<lparr>pstate := RUNNABLE\<rparr> else procs s ! i)"
  by (simp add: wakeup1_def)

definition awake :: "chan \<Rightarrow> 'z pstate_scheme \<Rightarrow> bool" where
  "awake c s \<longleftrightarrow> (\<forall>x\<in>set (procs s). \<not> (pstate x = SLEEPING \<and> chan x = Some c))"

lemma awake_wakeup1 [simp]: "awake c ((wakeup1 c s)\<lparr>hw := h\<rparr>)"
  by (auto simp: awake_def wakeup1_def)

lemma find_proc_Some:
  "find_proc P k ps = Some i \<Longrightarrow> k \<le> i \<and> i < k + length ps \<and> P (ps ! (i - k)) \<and> (\<forall>j < i - k. \<not> P (ps ! j))"
proof (induction P k ps rule: find_proc.induct)
  case (2 P k p ps)
  show ?case
  proof (cases "P p")
    case False
    with 2 have ih: "Suc k \<le> i" "i < Suc k + length ps" "P (ps ! (i - Suc k))" "\<forall>j < i - Suc k. \<not> P (ps ! j)"
      by auto
    then have "i - k = Suc (i - Suc k)" by simp
    with ih False show ?thesis by (auto simp: less_Suc_eq_0_disj)
  qed (use 2 in auto)
qed simp

lemma find_procI:
  "i < length ps \<Longrightarrow> P (ps ! i) \<Longrightarrow> \<forall>j < i. \<not> P (ps ! j) \<Longrightarrow> find_proc P k ps = Some (k + i)"
proof (induction P k ps arbitrary: i rule: find_proc.induct)
  case (2 P k p ps)
  show ?case
  proof (cases i)
    case (Suc j)
    then have "\<not> P p" "\<forall>l < j. \<not> P (ps ! l)" using 2(4) by (auto dest: spec [of _ "Suc _"])
    then show ?thesis using 2 Suc by simp
  qed (use 2 in simp)
qed simp

lemma find_proc_None: "find_proc P k ps = None \<longleftrightarrow> (\<forall>p\<in>set ps. \<not> P p)"
  by (induction P k ps rule: find_proc.induct) auto

text \<open>A machine on which the first process runs, as the examples use it.\<close>

definition run_hw :: hw where
  "run_hw = boot_hw\<lparr>cpus := [\<lparr>apicid = 0, ncli = 0, intena = False, cproc = Some 0\<rparr>]\<rparr>"

definition demo_proc :: proc where
  "demo_proc = \<lparr>sz = 4096, pgdir = 0x80500000, kstack = 0x80501000, pstate = RUNNING, pid = 1, parent = None,
     tf = 0x80501fb4, ctxt = 0, chan = None, killed = False, ofile = replicate 16 None, cwd = Some 0, pname = []\<rparr>"

definition idle_proc :: proc where
  "idle_proc = demo_proc\<lparr>pstate := UNUSED, pid := 0, kstack := 0, pgdir := 0\<rparr>"

definition demo_s :: pstate where
  "demo_s = vstate.extend (kstate.extend (demo_k\<lparr>hw := run_hw\<rparr>) (vstate.fields 0x80108000 0 0 []))
     (pstate.fields (demo_proc # replicate 63 idle_proc) (Some 0) 2 0 0 0 0)"

lemma run_hw_ok: "hw_ok run_hw" and run_hw_free: "lock_free lk run_hw"
  by (simp_all add: run_hw_def boot_hw_def hw_ok_def cpus_ok_def cli_ok_def lock_free_def)

lemma run_hw_cproc [simp]: "cproc (cpus run_hw ! me run_hw) = Some 0"
  by (simp add: run_hw_def boot_hw_def)

lemma demo_s_sel [simp]: "hw demo_s = run_hw" "procs demo_s = demo_proc # replicate 63 idle_proc"
  by (simp_all add: demo_s_def kstate.defs vstate.defs pstate.defs)

section \<open>Allocating a process\<close>

text \<open>The kernel stack of a new process: the trap frame on top, below it the return address
  \<open>trapret\<close>, below it a context that returns to \<open>forkret\<close>.\<close>

definition new_stack :: "uint \<Rightarrow> uint \<Rightarrow> uint \<Rightarrow> memory \<Rightarrow> memory" where
  "new_stack k tr fr m = store32 (memset (store32 m (k + 4016) tr) (k + 3996) 0 CTX_SIZE) (k + 4012) fr"

lemma new_stack_load:
  "load32 (new_stack k tr fr m) (k + 4016) = tr" "load32 (new_stack k tr fr m) (k + 4012) = fr"
proof -
  show "load32 (new_stack k tr fr m) (k + 4012) = fr" by (simp add: new_stack_def)
  have "load32 (new_stack k tr fr m) (k + 4016) = load32 (store32 m (k + 4016) tr) (k + 4016)"
    by (simp add: new_stack_def memset_fill fill_def load32_def store32_def)
  then show "load32 (new_stack k tr fr m) (k + 4016) = tr" by simp
qed

lemma word_aligned_page:
  assumes "page_aligned k" "n < 1024"
  shows "word_aligned (k + of_nat (4 * n))"
proof -
  obtain q where "unat k = 4096 * q" using assms(1) by (auto simp: page_aligned_unat)
  moreover have "4096 * q + 4 * n = 4 * (1024 * q + n)" by simp
  ultimately show ?thesis
    using unat_page_add [OF assms(1), of "4 * n"] assms(2) by (simp only: word_aligned_unat) simp
qed

lemma new_stack_page:
  assumes "page_aligned k" "PGROUNDDOWN x \<noteq> k"
  shows "new_stack k tr fr m x = m x"
proof -
  have "PGROUNDDOWN (k + 4016) = k" "PGROUNDDOWN (k + 4012) = k"
    using PGROUNDDOWN_add [OF assms(1), of 4016] PGROUNDDOWN_add [OF assms(1), of 4012] by simp_all
  moreover have "word_aligned (k + 4016)" "word_aligned (k + 4012)"
    using word_aligned_page [OF assms(1), of 1004] word_aligned_page [OF assms(1), of 1003] by simp_all
  moreover have "\<not> x - (k + 3996) < 20"
  proof
    assume "x - (k + 3996) < 20"
    then have "unat (x - (k + 3996)) < 20" by (simp add: word_less_nat_alt)
    moreover have "x = k + of_nat (3996 + unat (x - (k + 3996)))" by simp
    ultimately show False using PGROUNDDOWN_add [OF assms(1), of "3996 + unat (x - (k + 3996))"] assms(2) by simp
  qed
  ultimately show ?thesis using assms(2)
    by (simp add: new_stack_def store32_page memset_fill fill_def)
qed

text \<open>The state after the slot \<open>i\<close> has been claimed.\<close>

definition claimed :: "nat \<Rightarrow> 'z pstate_scheme \<Rightarrow> 'z pstate_scheme" where
  "claimed i s = s\<lparr>hw := cycled (mem s) PtableLock (hw s),
     procs := (procs s)[i := (procs s ! i)\<lparr>pstate := EMBRYO, pid := nextpid s\<rparr>], nextpid := nextpid s + 1\<rparr>"

definition alloc_ready :: "'z pstate_scheme \<Rightarrow> uint list \<Rightarrow> bool" where
  "alloc_ready s fl \<longleftrightarrow> hw_ok (hw s) \<and> lock_free PtableLock (hw s) \<and> klock_ok s \<and> kinv s fl"

lemma kinv_mem_cong:
  assumes "kinv s fl" "freelist t = freelist s" "kend t = kend s" "refc_cnt t = refc_cnt s" "mem t = mem s"
  shows "kinv t fl"
  by (rule kinv_cong [OF assms(1-3)]) (simp_all add: assms)

lemma claimed_ready:
  assumes "alloc_ready s fl"
  shows "alloc_ready (claimed i s) fl" and "hw_same (hw s) (hw (claimed i s))"
proof -
  have ok: "hw_ok (hw s)" "lock_free PtableLock (hw s)" "klock_ok s" "kinv s fl"
    using assms by (simp_all add: alloc_ready_def)
  show same: "hw_same (hw s) (hw (claimed i s))" using hw_same_cycled [OF ok(1,2)] by (simp add: claimed_def)
  have "klock_ok (claimed i s)" using klock_ok_same [OF ok(3) same] by (simp add: klock_ok_def claimed_def)
  moreover have "kinv (claimed i s) fl" by (rule kinv_mem_cong [OF ok(4)]) (simp_all add: claimed_def)
  ultimately show "alloc_ready (claimed i s) fl"
    using hw_same_ok [OF same ok(1)] hw_same_free [OF same] ok(2) by (simp add: alloc_ready_def)
qed

lemma allocproc_step:
  assumes "alloc_ready s fl" "find_proc (\<lambda>p. pstate p = UNUSED) 0 (procs s) = Some i"
  shows "allocproc s = bindE (kalloc (claimed i s)) (\<lambda>(k, s).
     let s = upd_proc i (\<lambda>p. p\<lparr>kstack := k\<rparr>) s in
     if k = 0 then Ok (None, upd_proc i (\<lambda>p. p\<lparr>pstate := UNUSED\<rparr>) s)
     else Ok (Some i, upd_proc i (\<lambda>p. p\<lparr>tf := k + 4020, ctxt := k + 3996\<rparr>)
                        (s\<lparr>mem := new_stack k (trapret s) (forkret s) (mem s)\<rparr>)))"
proof -
  have ok: "hw_ok (hw s)" "lock_free PtableLock (hw s)" using assms(1) by (simp_all add: alloc_ready_def)
  let ?h = "acquired (mem s) PtableLock (hw s)"
  let ?u = "(upd_proc i (\<lambda>p. p\<lparr>pstate := EMBRYO, pid := nextpid s\<rparr>) (s\<lparr>hw := ?h\<rparr>))\<lparr>nextpid := nextpid s + 1\<rparr>"
  have "unlock PtableLock ?u = Ok (claimed i s)"
    using unlock_ok [of ?u "mem s" PtableLock "hw s"] ok by (simp add: upd_proc_def claimed_def)
  then show ?thesis
    unfolding allocproc_def lock_ok [OF ok] bindE_Ok
    using assms(2) by (simp add: Let_def new_stack_def upd_proc_twice upd_proc_mem add.commute cong: if_cong)
qed

lemma allocproc_cons:
  assumes "alloc_ready s (k # ks)" and Some: "find_proc (\<lambda>p. pstate p = UNUSED) 0 (procs s) = Some i"
  shows "\<exists>t. allocproc s = Ok (Some i, t) \<and> nextpid t = nextpid s + 1 \<and> hw_same (hw s) (hw t)
           \<and> kinv t ks \<and> refs t k = 1
           \<and> procs t = (procs s)[i := (procs s ! i)\<lparr>pstate := EMBRYO, pid := nextpid s, kstack := k, tf := k + 4020, ctxt := k + 3996\<rparr>]
           \<and> load32 (mem t) (k + 4016) = trapret s \<and> load32 (mem t) (k + 3996 + CTX_EIP) = forkret s
           \<and> (\<forall>x. PGROUNDDOWN x \<noteq> k \<longrightarrow> mem t x = mem s x)"
proof -
  note step = allocproc_step [OF assms]
  let ?c = "claimed i s"
  have i: "i < length (procs s)" using find_proc_Some [OF Some] by auto
  have c: "klock_ok ?c" "kinv ?c (k # ks)" "hw_same (hw s) (hw ?c)"
    using claimed_ready [OF assms(1)] by (simp_all add: alloc_ready_def)
  have same: "hw_same (hw s) (kcycled ?c)" using hw_same_trans [OF c(3) hw_same_kcycled [OF c(1)]] .
  note kc = kalloc_cons [OF c(2) c(1)]
  have k: "kpage ?c k" "k \<notin> set ks" "\<forall>v\<in>set ks. page_aligned v"
    using c(2) by (auto simp: kinv_def)
  then have al: "page_aligned k" "k \<noteq> 0" using kpage_neq_0 by auto
  let ?m = "new_stack k (trapret s) (forkret s) (mem s)"
  let ?t = "upd_proc i (\<lambda>p. p\<lparr>kstack := k, tf := k + 4020, ctxt := k + 3996\<rparr>) ((taken k ?c)\<lparr>mem := ?m\<rparr>)"
  have "trapret (taken k ?c) = trapret s" "forkret (taken k ?c) = forkret s" "mem ?c = mem s"
    by (simp_all add: taken_def claimed_def)
  then have "allocproc s = Ok (Some i, ?t)"
    using step kc(1) al(2) by (simp add: Let_def upd_proc_twice upd_proc_mem)
  moreover have "kinv ?t ks"
  proof (rule kinv_cong [OF kc(2)])
    fix v x assume "v \<in> set ks" "PGROUNDDOWN x = v"
    then have "PGROUNDDOWN x \<noteq> k" using k(2) by auto
    then show "mem ?t x = mem (taken k ?c) x" using new_stack_page [OF al(1)] by (simp add: claimed_def)
  qed (simp_all add: upd_proc_def)
  moreover have "refs ?t k = 1" using refs_taken [OF al(1) al(1), of ?c] by (simp add: upd_proc_def)
  moreover have "nextpid ?t = nextpid s + 1" "hw ?t = kcycled ?c" by (simp_all add: taken_def claimed_def)
  moreover have "procs ?t = (procs s)[i := (procs s ! i)\<lparr>pstate := EMBRYO, pid := nextpid s, kstack := k, tf := k + 4020, ctxt := k + 3996\<rparr>]"
    using i by (simp add: taken_def claimed_def)
  ultimately show ?thesis
    using same new_stack_load [of k "trapret s" "forkret s" "mem s"] new_stack_page [OF al(1)]
    by (auto simp: add.commute [of 4012])
qed

text \<open>C31: allocating a process. With no free slot, or no page for the kernel stack, the result is
  null and the table is as before but for the process number used up and left in the slot;
  otherwise the first free slot gets a fresh number and a kernel stack whose top holds
  the trap frame, and below it the return addresses \<open>trapret\<close> and \<open>forkret\<close>, taken from the
  free list with one reference. No other memory and no other process changes.\<close>

theorem allocproc_spec:
  assumes "alloc_ready s fl"
  shows "case find_proc (\<lambda>p. pstate p = UNUSED) 0 (procs s) of
     None \<Rightarrow> \<exists>h. allocproc s = Ok (None, s\<lparr>hw := h\<rparr>) \<and> hw_same (hw s) h
   | Some i \<Rightarrow>
     (case fl of
        [] \<Rightarrow> \<exists>t. allocproc s = Ok (None, t) \<and> nextpid t = nextpid s + 1 \<and> hw_same (hw s) (hw t) \<and> mem t = mem s
           \<and> procs t = (procs s)[i := (procs s ! i)\<lparr>pid := nextpid s, kstack := 0\<rparr>]
      | k # ks \<Rightarrow> \<exists>t. allocproc s = Ok (Some i, t) \<and> nextpid t = nextpid s + 1 \<and> hw_same (hw s) (hw t)
           \<and> kinv t ks \<and> refs t k = 1
           \<and> procs t = (procs s)[i := (procs s ! i)\<lparr>pstate := EMBRYO, pid := nextpid s, kstack := k, tf := k + 4020, ctxt := k + 3996\<rparr>]
           \<and> load32 (mem t) (k + 4016) = trapret s \<and> load32 (mem t) (k + 3996 + CTX_EIP) = forkret s
           \<and> (\<forall>x. PGROUNDDOWN x \<noteq> k \<longrightarrow> mem t x = mem s x))"
proof (cases "find_proc (\<lambda>p. pstate p = UNUSED) 0 (procs s)")
  case None
  have ok: "hw_ok (hw s)" "lock_free PtableLock (hw s)" using assms by (simp_all add: alloc_ready_def)
  then have "allocproc s = Ok (None, s\<lparr>hw := cycled (mem s) PtableLock (hw s)\<rparr>)"
    using None by (simp add: allocproc_def hw_simps)
  then show ?thesis using None hw_same_cycled [OF ok, of "mem s"] by auto
next
  case (Some i)
  note step = allocproc_step [OF assms Some]
  let ?c = "claimed i s"
  have i: "i < length (procs s)" "pstate (procs s ! i) = UNUSED" using find_proc_Some [OF Some] by auto
  have c: "klock_ok ?c" "kinv ?c fl" "hw_same (hw s) (hw ?c)"
    using claimed_ready [OF assms] by (simp_all add: alloc_ready_def)
  have same: "hw_same (hw s) (kcycled ?c)" using hw_same_trans [OF c(3) hw_same_kcycled [OF c(1)]] .
  show ?thesis
  proof (cases fl)
    case Nil
    have "kalloc ?c = Ok (0, ?c\<lparr>hw := kcycled ?c, freecnt := freecnt ?c - 1\<rparr>)"
      using kalloc_nil c(1,2) Nil by simp
    moreover have e: "(procs s ! i)\<lparr>pid := nextpid s, kstack := 0, pstate := UNUSED\<rparr> = (procs s ! i)\<lparr>pid := nextpid s, kstack := 0\<rparr>"
      using i(2) by (intro proc.equality) simp_all
    ultimately show ?thesis using Some Nil step same i by (auto simp: claimed_def e)
  next
    case (Cons k ks)
    then show ?thesis using allocproc_cons [of s k ks i] assms Some by simp
  qed
qed

lemma demo_s_ready: "alloc_ready demo_s [0x80200000, 0x80300000]"
proof -
  have "kinv demo_s [0x80200000, 0x80300000]"
    using demo_kinv by (simp add: kinv_def kpage_def demo_s_def kstate.defs vstate.defs pstate.defs)
  moreover have "klock_ok demo_s" using run_hw_ok run_hw_free by (simp add: klock_ok_def)
  ultimately show ?thesis using run_hw_ok run_hw_free by (simp add: alloc_ready_def)
qed

lemma demo_s_slot: "find_proc (\<lambda>p. pstate p = UNUSED) 0 (procs demo_s) = Some 1"
  by (simp add: demo_proc_def idle_proc_def numeral_eq_Suc)

theorem allocproc_spec_witness:
  "alloc_ready demo_s [0x80200000, 0x80300000] \<and>
   (\<exists>t. allocproc demo_s = Ok (Some 1, t) \<and> pid (procs t ! 1) = 2 \<and> kstack (procs t ! 1) = 0x80200000)"
proof -
  have "nextpid demo_s = 2" "length (procs demo_s) = 64"
    by (simp_all add: demo_s_def kstate.defs vstate.defs pstate.defs)
  then show ?thesis using allocproc_spec [OF demo_s_ready] demo_s_slot demo_s_ready by fastforce
qed

section \<open>Killing a process\<close>

lemma kill_eq:
  assumes "hw_ok (hw s)" "lock_free PtableLock (hw s)"
  shows "kill n s = (case find_proc (\<lambda>p. pid p = n) 0 (procs s) of
     None \<Rightarrow> Ok (-1, s\<lparr>hw := cycled (mem s) PtableLock (hw s)\<rparr>)
   | Some i \<Rightarrow> Ok (0, s\<lparr>hw := cycled (mem s) PtableLock (hw s), procs := (procs s)[i := (procs s ! i)
       \<lparr>killed := True, pstate := (if pstate (procs s ! i) = SLEEPING then RUNNABLE else pstate (procs s ! i))\<rparr>]\<rparr>))"
proof (cases "find_proc (\<lambda>p. pid p = n) 0 (procs s)")
  case None
  with assms show ?thesis by (simp add: kill_def hw_simps)
next
  case (Some i)
  then have i: "i < length (procs s)" using find_proc_Some [OF Some] by auto
  have e: "x\<lparr>pstate := pstate x, killed := True\<rparr> = x\<lparr>killed := True\<rparr>" for x :: proc by simp
  show ?thesis using assms Some i
    by (cases "pstate (procs s ! i) = SLEEPING") (simp_all add: kill_def hw_simps upd_proc_def Let_def e)
qed

text \<open>C32: killing a free slot. \<open>kill\<close> compares process numbers and not states: when the first slot with the number it is given is
  free (every slot has the number 0 at first, and a slot that a failing \<open>allocproc\<close> gave up keeps its number), it reports success
  and sets the flag of the slot, which stays free. Nothing clears the flag when a slot is allocated: whenever the slot, as
  \<open>kill\<close> left it, is next handed out by \<open>allocproc\<close>, the new process is born killed.\<close>

theorem kill_free_slot:
  fixes s :: "'z pstate_scheme"
  assumes ok: "hw_ok (hw s)" "lock_free PtableLock (hw s)"
    and pd: "find_proc (\<lambda>p. pid p = pd) 0 (procs s) = Some i" "pstate (procs s ! i) = UNUSED"
  shows "\<exists>h. kill pd s = Ok (0, s\<lparr>hw := h, procs := (procs s)[i := (procs s ! i)\<lparr>killed := True\<rparr>]\<rparr>) \<and> hw_same (hw s) h
     \<and> (\<forall>(t :: 'z pstate_scheme) k ks. alloc_ready t (k # ks) \<and> find_proc (\<lambda>p. pstate p = UNUSED) 0 (procs t) = Some i
          \<and> procs t ! i = (procs s ! i)\<lparr>killed := True\<rparr> \<longrightarrow>
          (\<exists>u. allocproc t = Ok (Some i, u) \<and> killed (procs u ! i) \<and> pstate (procs u ! i) = EMBRYO))"
proof -
  have same: "hw_same (hw s) (cycled (mem s) PtableLock (hw s))" using hw_same_cycled [OF ok] .
  have e: "(procs s ! i)\<lparr>killed := True, pstate := UNUSED\<rparr> = (procs s ! i)\<lparr>killed := True\<rparr>" using pd(2) by (intro proc.equality) simp_all
  have "kill pd s = Ok (0, s\<lparr>hw := cycled (mem s) PtableLock (hw s), procs := (procs s)[i := (procs s ! i)\<lparr>killed := True, pstate := UNUSED\<rparr>]\<rparr>)"
    using kill_eq [OF ok, of pd] pd by simp
  note run = this [unfolded e]
  have "\<exists>u. allocproc t = Ok (Some i, u) \<and> killed (procs u ! i) \<and> pstate (procs u ! i) = EMBRYO"
    if "alloc_ready t (k # ks)" "find_proc (\<lambda>p. pstate p = UNUSED) 0 (procs t) = Some i" "procs t ! i = (procs s ! i)\<lparr>killed := True\<rparr>"
    for t :: "'z pstate_scheme" and k ks
    using allocproc_cons [OF that(1,2)] find_proc_Some [OF that(2)] that(3) by auto
  with run same show ?thesis by blast
qed

text \<open>The example: slot 1 is free and has kept the number 7.\<close>

definition demo_left :: pstate where
  "demo_left = demo_s\<lparr>procs := [demo_proc, idle_proc\<lparr>pid := 7\<rparr>]\<rparr>"

theorem kill_free_slot_witness:
  "\<exists>t u. kill 7 demo_left = Ok (0, t) \<and> allocproc t = Ok (Some 1, u) \<and> killed (procs u ! 1) \<and> pstate (procs u ! 1) = EMBRYO"
proof -
  let ?t = "\<lambda>h. demo_left\<lparr>hw := h, procs := (procs demo_left)[1 := (procs demo_left ! 1)\<lparr>killed := True\<rparr>]\<rparr>"
  have f: "find_proc (\<lambda>p. pid p = 7) 0 (procs demo_left) = Some 1" "pstate (procs demo_left ! 1) = UNUSED"
    by (simp_all add: demo_left_def demo_proc_def idle_proc_def)
  have r: "alloc_ready demo_s [0x80200000, 0x80300000]" by (rule demo_s_ready)
  then have hw: "hw_ok (hw demo_left)" "lock_free PtableLock (hw demo_left)" by (simp_all add: demo_left_def alloc_ready_def)
  obtain h where h: "kill 7 demo_left = Ok (0, ?t h)" "hw_same (hw demo_left) h" and next_alloc:
      "\<forall>(t :: pstate) k ks. alloc_ready t (k # ks) \<and> find_proc (\<lambda>p. pstate p = UNUSED) 0 (procs t) = Some 1
        \<and> procs t ! 1 = (procs demo_left ! 1)\<lparr>killed := True\<rparr> \<longrightarrow>
        (\<exists>u. allocproc t = Ok (Some 1, u) \<and> killed (procs u ! 1) \<and> pstate (procs u ! 1) = EMBRYO)"
    using kill_free_slot [OF hw f] by blast
  have "alloc_ready (?t h) [0x80200000, 0x80300000]"
    using r h(2) hw_same_ok [OF h(2)] hw_same_free [OF h(2)] kinv_mem_cong [of demo_s "[0x80200000, 0x80300000]" "?t h"]
    by (simp add: alloc_ready_def klock_ok_def demo_left_def)
  moreover have "find_proc (\<lambda>p. pstate p = UNUSED) 0 (procs (?t h)) = Some 1"
    by (simp add: demo_left_def demo_proc_def idle_proc_def)
  moreover have "procs (?t h) ! 1 = (procs demo_left ! 1)\<lparr>killed := True\<rparr>" by (simp add: demo_left_def)
  ultimately show ?thesis using next_alloc h(1) by blast
qed

section \<open>Sleep and wakeup among several threads\<close>

text \<open>
  The protocol that every client of \<open>sleep\<close> and \<open>wakeup\<close> follows, with any number of threads. A
  thread that waits holds the lock \<open>lk\<close> while it tests the condition, and sleeps when the
  condition is false; one that signals sets the condition and calls \<open>wakeup\<close> while it holds
  \<open>lk\<close>. The steps are those of \<open>sleep\<close> (take \<open>ptable.lock\<close>, release \<open>lk\<close>, mark the process as
  sleeping and give up the CPU, and, once resumed with \<open>ptable.lock\<close> held, release it and take
  \<open>lk\<close> again) and of \<open>wakeup\<close>, in any interleaving.
\<close>

datatype wpc =
    WOut
  | WTest
  | WSleep1
  | WSleep2
  | WSleep3
  | WAsleep
  | WRunnable
  | WBack
  | WRelock
  | WSetting
  | Wake1
  | Wake2
  | Woken

record wsys =
  wpcs :: "nat \<Rightarrow> wpc"
  wlk :: "nat option"
  wpt :: "nat option"
  cond :: bool

definition wgo :: "nat \<Rightarrow> wpc \<Rightarrow> wsys \<Rightarrow> wsys" where
  "wgo t p s = s\<lparr>wpcs := (wpcs s)(t := p)\<rparr>"

definition wake_all :: "(nat \<Rightarrow> wpc) \<Rightarrow> nat \<Rightarrow> wpc" where
  "wake_all f = (\<lambda>t. if f t = WAsleep then WRunnable else f t)"

inductive wstep :: "wsys \<Rightarrow> wsys \<Rightarrow> bool" where
  w_enter: "wpcs s t = WOut \<Longrightarrow> wlk s = None \<Longrightarrow> wstep s ((wgo t WTest s)\<lparr>wlk := Some t\<rparr>)"
| w_take: "wpcs s t = WTest \<Longrightarrow> cond s \<Longrightarrow> wstep s ((wgo t WOut s)\<lparr>wlk := None, cond := False\<rparr>)"
| w_sleep: "wpcs s t = WTest \<Longrightarrow> \<not> cond s \<Longrightarrow> wstep s (wgo t WSleep1 s)"
| w_ptable: "wpcs s t = WSleep1 \<Longrightarrow> wpt s = None \<Longrightarrow> wstep s ((wgo t WSleep2 s)\<lparr>wpt := Some t\<rparr>)"
| w_release: "wpcs s t = WSleep2 \<Longrightarrow> wstep s ((wgo t WSleep3 s)\<lparr>wlk := None\<rparr>)"
| w_mark: "wpcs s t = WSleep3 \<Longrightarrow> wstep s ((wgo t WAsleep s)\<lparr>wpt := None\<rparr>)"
| w_resume: "wpcs s t = WRunnable \<Longrightarrow> wpt s = None \<Longrightarrow> wstep s ((wgo t WBack s)\<lparr>wpt := Some t\<rparr>)"
| w_back: "wpcs s t = WBack \<Longrightarrow> wstep s ((wgo t WRelock s)\<lparr>wpt := None\<rparr>)"
| w_relock: "wpcs s t = WRelock \<Longrightarrow> wlk s = None \<Longrightarrow> wstep s ((wgo t WTest s)\<lparr>wlk := Some t\<rparr>)"
| w_signal: "wpcs s t = WOut \<Longrightarrow> wlk s = None \<Longrightarrow> wstep s ((wgo t WSetting s)\<lparr>wlk := Some t\<rparr>)"
| w_set: "wpcs s t = WSetting \<Longrightarrow> wstep s ((wgo t Wake1 s)\<lparr>cond := True\<rparr>)"
| w_lock: "wpcs s t = Wake1 \<Longrightarrow> wpt s = None \<Longrightarrow> wstep s ((wgo t Wake2 s)\<lparr>wpt := Some t\<rparr>)"
| w_wake: "wpcs s t = Wake2 \<Longrightarrow> wstep s (s\<lparr>wpcs := (wake_all (wpcs s))(t := Woken), wpt := None\<rparr>)"
| w_done: "wpcs s t = Woken \<Longrightarrow> wstep s ((wgo t WOut s)\<lparr>wlk := None\<rparr>)"

definition winit :: wsys where
  "winit = \<lparr>wpcs = (\<lambda>_. WOut), wlk = None, wpt = None, cond = False\<rparr>"

inductive wreach :: "wsys \<Rightarrow> bool" where
  wreach_init: "wreach winit"
| wreach_step: "wreach s \<Longrightarrow> wstep s t \<Longrightarrow> wreach t"

definition holds_lk :: "wpc \<Rightarrow> bool" where
  "holds_lk p \<longleftrightarrow> p \<in> {WTest, WSleep1, WSleep2, WSetting, Wake1, Wake2, Woken}"

definition holds_pt :: "wpc \<Rightarrow> bool" where
  "holds_pt p \<longleftrightarrow> p \<in> {WSleep2, WSleep3, WBack, Wake2}"

definition waking :: "wsys \<Rightarrow> bool" where
  "waking s \<longleftrightarrow> (\<exists>u. wpcs s u \<in> {Wake1, Wake2})"

definition winv :: "wsys \<Rightarrow> bool" where
  "winv s \<longleftrightarrow> (\<forall>t. holds_lk (wpcs s t) \<longleftrightarrow> wlk s = Some t) \<and> (\<forall>t. holds_pt (wpcs s t) \<longleftrightarrow> wpt s = Some t)
     \<and> (cond s \<longrightarrow> (\<forall>t. wpcs s t \<notin> {WSleep1, WSleep2}))
     \<and> (cond s \<longrightarrow> (\<forall>t. wpcs s t \<in> {WSleep3, WAsleep} \<longrightarrow> waking s))"

lemma winv_pc:
  assumes "winv s"
  shows "holds_lk (wpcs s t) \<longleftrightarrow> wlk s = Some t" and "holds_pt (wpcs s t) \<longleftrightarrow> wpt s = Some t"
    and "cond s \<Longrightarrow> wpcs s t \<noteq> WSleep1" and "cond s \<Longrightarrow> wpcs s t \<noteq> WSleep2"
    and "cond s \<Longrightarrow> wpcs s t \<in> {WSleep3, WAsleep} \<Longrightarrow> waking s"
  using assms by (auto simp: winv_def)

text \<open>A step of one thread: the others keep their places, so only the new place of the thread
  and the changes of the locks and the condition have to be checked.\<close>

lemma winv_go:
  assumes "winv s" and s': "s' = s\<lparr>wpcs := (wpcs s)(t := p), wlk := l, wpt := m, cond := c\<rparr>"
    and "holds_lk p \<longleftrightarrow> l = Some t" and "\<And>u. u \<noteq> t \<Longrightarrow> l = Some u \<longleftrightarrow> wlk s = Some u"
    and "holds_pt p \<longleftrightarrow> m = Some t" and "\<And>u. u \<noteq> t \<Longrightarrow> m = Some u \<longleftrightarrow> wpt s = Some u"
    and "c \<Longrightarrow> p \<notin> {WSleep1, WSleep2}" and "c \<Longrightarrow> cond s \<or> (\<forall>u. u \<noteq> t \<longrightarrow> wpcs s u \<notin> {WSleep1, WSleep2})"
    and "c \<Longrightarrow> p \<in> {Wake1, Wake2} \<or> cond s \<and> wpcs s t \<notin> {Wake1, Wake2} \<and> (p \<in> {WSleep3, WAsleep} \<longrightarrow> wpcs s t \<in> {WSleep3, WAsleep})"
  shows "winv s'"
proof -
  have pc: "wpcs s' u = (if u = t then p else wpcs s u)" for u by (simp add: s')
  have 1: "holds_lk (wpcs s' u) \<longleftrightarrow> wlk s' = Some u" for u
    using assms(3,4) winv_pc(1) [OF assms(1), of u] by (cases "u = t") (simp_all add: s')
  have 2: "holds_pt (wpcs s' u) \<longleftrightarrow> wpt s' = Some u" for u
    using assms(5,6) winv_pc(2) [OF assms(1), of u] by (cases "u = t") (simp_all add: s')
  have 3: "wpcs s' u \<notin> {WSleep1, WSleep2}" if "cond s'" for u
    using that assms(7,8) winv_pc(3,4) [OF assms(1), of u] by (cases "u = t") (auto simp: s')
  have 4: "waking s'" if c: "cond s'" and u: "wpcs s' u \<in> {WSleep3, WAsleep}" for u
  proof (cases "p \<in> {Wake1, Wake2}")
    case True
    then show ?thesis using pc [of t] by (auto simp: waking_def)
  next
    case False
    with assms(9) c have *: "cond s" "wpcs s t \<notin> {Wake1, Wake2}" "p \<in> {WSleep3, WAsleep} \<longrightarrow> wpcs s t \<in> {WSleep3, WAsleep}"
      by (auto simp: s')
    have "wpcs s u \<in> {WSleep3, WAsleep}" using u * pc [of u] by (cases "u = t") auto
    then have "waking s" using winv_pc(5) [OF assms(1) *(1)] by blast
    then obtain v where v: "wpcs s v \<in> {Wake1, Wake2}" by (auto simp: waking_def)
    then have "v \<noteq> t" using *(2) by blast
    then show ?thesis using v pc [of v] by (auto simp: waking_def)
  qed
  from 1 2 3 4 show ?thesis by (auto simp: winv_def)
qed

lemma winv_wake:
  assumes "winv s" "wpcs s t = Wake2"
  shows "winv (s\<lparr>wpcs := (wake_all (wpcs s))(t := Woken), wpt := None\<rparr>)"
proof -
  let ?s = "s\<lparr>wpcs := (wake_all (wpcs s))(t := Woken), wpt := None\<rparr>"
  have lk: "wlk s = Some t" and pt: "wpt s = Some t"
    using winv_pc(1,2) [OF assms(1), of t] assms(2) by (simp_all add: holds_lk_def holds_pt_def)
  have pc: "wpcs ?s u = (if u = t then Woken else if wpcs s u = WAsleep then WRunnable else wpcs s u)" for u
    by (simp add: wake_all_def)
  have "holds_lk (wpcs ?s u) \<longleftrightarrow> u = t" for u
    unfolding pc using winv_pc(1) [OF assms(1), of u] lk by (auto simp: holds_lk_def)
  moreover have npt: "\<not> holds_pt (wpcs ?s u)" for u
    unfolding pc using winv_pc(2) [OF assms(1), of u] pt by (auto simp: holds_pt_def)
  moreover have "wpcs ?s u \<notin> {WSleep1, WSleep2}" if "cond s" for u
    unfolding pc using winv_pc(3,4) [OF assms(1) that, of u] by auto
  moreover have "wpcs ?s u \<notin> {WSleep3, WAsleep}" for u
    using npt [of u] unfolding pc by (auto simp: holds_pt_def)
  ultimately show ?thesis using lk unfolding winv_def by auto
qed

lemma winv_step: "wstep s s' \<Longrightarrow> winv s \<Longrightarrow> winv s'"
proof (induction rule: wstep.induct)
  case (w_enter s t)
  show ?case
    by (rule winv_go [OF w_enter.prems, where t = t and p = WTest and l = "Some t" and m = "wpt s" and c = "cond s"])
      (use w_enter winv_pc [OF w_enter.prems, of t] in \<open>auto simp: wgo_def holds_lk_def holds_pt_def\<close>)
next
  case (w_take s t)
  show ?case
    by (rule winv_go [OF w_take.prems, where t = t and p = WOut and l = None and m = "wpt s" and c = False])
      (use w_take winv_pc [OF w_take.prems, of t] in \<open>auto simp: wgo_def holds_lk_def holds_pt_def\<close>)
next
  case (w_sleep s t)
  show ?case
    by (rule winv_go [OF w_sleep.prems, where t = t and p = WSleep1 and l = "wlk s" and m = "wpt s" and c = "cond s"])
      (use w_sleep winv_pc [OF w_sleep.prems, of t] in \<open>auto simp: wgo_def holds_lk_def holds_pt_def\<close>)
next
  case (w_ptable s t)
  show ?case
    by (rule winv_go [OF w_ptable.prems, where t = t and p = WSleep2 and l = "wlk s" and m = "Some t" and c = "cond s"])
      (use w_ptable winv_pc [OF w_ptable.prems, of t] in \<open>auto simp: wgo_def holds_lk_def holds_pt_def\<close>)
next
  case (w_release s t)
  show ?case
    by (rule winv_go [OF w_release.prems, where t = t and p = WSleep3 and l = None and m = "wpt s" and c = "cond s"])
      (use w_release winv_pc [OF w_release.prems, of t] in \<open>auto simp: wgo_def holds_lk_def holds_pt_def\<close>)
next
  case (w_mark s t)
  show ?case
    by (rule winv_go [OF w_mark.prems, where t = t and p = WAsleep and l = "wlk s" and m = None and c = "cond s"])
      (use w_mark winv_pc [OF w_mark.prems, of t] in \<open>auto simp: wgo_def holds_lk_def holds_pt_def\<close>)
next
  case (w_resume s t)
  show ?case
    by (rule winv_go [OF w_resume.prems, where t = t and p = WBack and l = "wlk s" and m = "Some t" and c = "cond s"])
      (use w_resume winv_pc [OF w_resume.prems, of t] in \<open>auto simp: wgo_def holds_lk_def holds_pt_def\<close>)
next
  case (w_back s t)
  show ?case
    by (rule winv_go [OF w_back.prems, where t = t and p = WRelock and l = "wlk s" and m = None and c = "cond s"])
      (use w_back winv_pc [OF w_back.prems, of t] in \<open>auto simp: wgo_def holds_lk_def holds_pt_def\<close>)
next
  case (w_relock s t)
  show ?case
    by (rule winv_go [OF w_relock.prems, where t = t and p = WTest and l = "Some t" and m = "wpt s" and c = "cond s"])
      (use w_relock winv_pc [OF w_relock.prems, of t] in \<open>auto simp: wgo_def holds_lk_def holds_pt_def\<close>)
next
  case (w_signal s t)
  show ?case
    by (rule winv_go [OF w_signal.prems, where t = t and p = WSetting and l = "Some t" and m = "wpt s" and c = "cond s"])
      (use w_signal winv_pc [OF w_signal.prems, of t] in \<open>auto simp: wgo_def holds_lk_def holds_pt_def\<close>)
next
  case (w_set s t)
  have other: "\<forall>u. u \<noteq> t \<longrightarrow> wpcs s u \<notin> {WSleep1, WSleep2}"
    using winv_pc(1) [OF w_set.prems] w_set.hyps by (metis holds_lk_def insertCI insertE option.inject singletonD)
  show ?case
    by (rule winv_go [OF w_set.prems, where t = t and p = Wake1 and l = "wlk s" and m = "wpt s" and c = True])
      (use w_set winv_pc [OF w_set.prems, of t] other in \<open>auto simp: wgo_def holds_lk_def holds_pt_def\<close>)
next
  case (w_lock s t)
  show ?case
    by (rule winv_go [OF w_lock.prems, where t = t and p = Wake2 and l = "wlk s" and m = "Some t" and c = "cond s"])
      (use w_lock winv_pc [OF w_lock.prems, of t] in \<open>auto simp: wgo_def holds_lk_def holds_pt_def\<close>)
next
  case (w_done s t)
  show ?case
    by (rule winv_go [OF w_done.prems, where t = t and p = WOut and l = None and m = "wpt s" and c = "cond s"])
      (use w_done winv_pc [OF w_done.prems, of t] in \<open>auto simp: wgo_def holds_lk_def holds_pt_def\<close>)
next
  case (w_wake s t)
  then show ?case by (intro winv_wake)
qed

lemma winv_reach: "wreach s \<Longrightarrow> winv s"
proof (induction rule: wreach.induct)
  case wreach_init
  then show ?case by (simp add: winv_def winit_def holds_lk_def holds_pt_def)
qed (rule winv_step)

text \<open>Once a signaller has set the condition, it gets \<open>ptable.lock\<close> after at most one step of
  the thread that has it, and wakes everybody that sleeps.\<close>

lemma wstep_go: "wstep s t \<Longrightarrow> wstep\<^sup>*\<^sup>* t u \<Longrightarrow> wstep\<^sup>*\<^sup>* s u"
  by (rule converse_rtranclp_into_rtranclp)

lemma wake_from_2:
  assumes "wpcs s u = Wake2" "wpcs s t = WAsleep"
  shows "\<exists>s'. wstep\<^sup>*\<^sup>* s s' \<and> wpcs s' t = WRunnable"
  using wstep_go [OF w_wake [OF assms(1)] rtranclp.rtrancl_refl] assms by (fastforce simp: wake_all_def)

lemma wake_from_1:
  assumes "wpcs s u = Wake1" "wpt s = None" "wpcs s t = WAsleep"
  shows "\<exists>s'. wstep\<^sup>*\<^sup>* s s' \<and> wpcs s' t = WRunnable"
proof -
  let ?s = "(wgo u Wake2 s)\<lparr>wpt := Some u\<rparr>"
  have "wpcs ?s u = Wake2" "wpcs ?s t = WAsleep" using assms by (auto simp: wgo_def)
  then obtain s' where "wstep\<^sup>*\<^sup>* ?s s'" "wpcs s' t = WRunnable" using wake_from_2 by blast
  then show ?thesis using wstep_go [OF w_lock [OF assms(1,2)]] by blast
qed

lemma wake_asleep:
  assumes "winv s" "wpcs s u = Wake1" "wpcs s t = WAsleep"
  shows "\<exists>s'. wstep\<^sup>*\<^sup>* s s' \<and> wpcs s' t = WRunnable"
proof (cases "wpt s")
  case None
  with assms show ?thesis by (intro wake_from_1)
next
  case (Some v)
  have lk: "wlk s = Some u" using winv_pc(1) [OF assms(1), of u] assms(2) by (simp add: holds_lk_def)
  have v: "wpcs s v \<in> {WSleep3, WBack}" "v \<noteq> u" "v \<noteq> t"
    using winv_pc(2) [OF assms(1), of v] winv_pc(1) [OF assms(1), of v] Some lk assms(2,3)
    by (auto simp: holds_pt_def holds_lk_def)
  have "\<exists>s1. wstep s s1 \<and> wpcs s1 u = Wake1 \<and> wpcs s1 t = WAsleep \<and> wpt s1 = None"
    using v assms(2,3) w_mark [of s v] w_back [of s v] by (fastforce simp: wgo_def)
  then obtain s1 where s1: "wstep s s1" "wpcs s1 u = Wake1" "wpcs s1 t = WAsleep" "wpt s1 = None" by blast
  show ?thesis using wake_from_1 [OF s1(2,4,3)] wstep_go [OF s1(1)] by blast
qed

text \<open>A waiter that the condition finds on its way to sleep can be woken.\<close>

lemma sleeper_woken:
  assumes "wreach s" "cond s" "wpcs s t \<in> {WSleep1, WSleep2, WSleep3, WAsleep}"
  shows "(\<exists>u. wpcs s u \<in> {Wake1, Wake2}) \<and> (\<exists>s'. wstep\<^sup>*\<^sup>* s s' \<and> wpcs s' t = WRunnable)"
proof -
  have inv: "winv s" using winv_reach [OF assms(1)] .
  have t: "wpcs s t \<in> {WSleep3, WAsleep}" using winv_pc(3,4) [OF inv assms(2), of t] assms(3) by auto
  then obtain u where u: "wpcs s u \<in> {Wake1, Wake2}" using winv_pc(5) [OF inv assms(2)] by (auto simp: waking_def)
  have "\<exists>s'. wstep\<^sup>*\<^sup>* s s' \<and> wpcs s' t = WRunnable"
  proof (cases "wpcs s t = WAsleep")
    case True
    then show ?thesis using u wake_asleep [OF inv] wake_from_2 by blast
  next
    case False
    then have t3: "wpcs s t = WSleep3" using t by blast
    then have pt: "wpt s = Some t" using winv_pc(2) [OF inv, of t] by (simp add: holds_pt_def)
    then have u1: "wpcs s u = Wake1" "u \<noteq> t"
      using u winv_pc(2) [OF inv, of u] t3 by (auto simp: holds_pt_def)
    let ?s = "(wgo t WAsleep s)\<lparr>wpt := None\<rparr>"
    have "wpcs ?s u = Wake1" "wpt ?s = None" "wpcs ?s t = WAsleep" using u1 by (simp_all add: wgo_def)
    then obtain s' where "wstep\<^sup>*\<^sup>* ?s s'" "wpcs s' t = WRunnable" using wake_from_1 by blast
    then show ?thesis using wstep_go [OF w_mark [OF t3]] by blast
  qed
  with u show ?thesis by blast
qed

lemma wreach_go: "wreach s \<Longrightarrow> wstep s t \<Longrightarrow> t = t' \<Longrightarrow> wreach t'"
  by (blast intro: wreach_step)

text \<open>C7: No wakeup is lost. In every state that the threads reach in which the condition holds: when the lock of the condition is
  free, nobody is asleep or on the way to sleep; and a thread that is still asleep, or about to be, is so only while the lock is held by a
  signaller that has set the condition and has yet to wake the sleepers, and there is a run on which this thread becomes runnable.\<close>

theorem no_lost_wakeup:
  assumes "wreach s" "cond s"
  shows "(wlk s = None \<longrightarrow> (\<forall>t. wpcs s t \<notin> {WSleep1, WSleep2, WSleep3, WAsleep}))
     \<and> (\<forall>t. wpcs s t \<in> {WSleep1, WSleep2, WSleep3, WAsleep} \<longrightarrow>
          (\<exists>u. wlk s = Some u \<and> wpcs s u \<in> {Wake1, Wake2}) \<and> (\<exists>s'. wstep\<^sup>*\<^sup>* s s' \<and> wpcs s' t = WRunnable))"
proof -
  have "(\<exists>u. wlk s = Some u \<and> wpcs s u \<in> {Wake1, Wake2}) \<and> (\<exists>s'. wstep\<^sup>*\<^sup>* s s' \<and> wpcs s' t = WRunnable)"
    if t: "wpcs s t \<in> {WSleep1, WSleep2, WSleep3, WAsleep}" for t
  proof -
    obtain u where "wpcs s u \<in> {Wake1, Wake2}" using sleeper_woken [OF assms t] by blast
    moreover from this have "wlk s = Some u" using winv_pc(1) [OF winv_reach [OF assms(1)], of u] by (auto simp: holds_lk_def)
    ultimately show ?thesis using sleeper_woken [OF assms t] by blast
  qed
  then show ?thesis by fastforce
qed

theorem no_lost_wakeup_witness:
  "\<exists>s s'. wreach s \<and> cond s \<and> wpcs s 0 = WAsleep \<and> wstep\<^sup>*\<^sup>* s s' \<and> wpcs s' 0 = WRunnable"
proof -
  have 0: "wreach \<lparr>wpcs = (\<lambda>_. WOut)(0 := WTest, 1 := WOut), wlk = Some 0, wpt = None, cond = False\<rparr>"
    by (rule wreach_go [OF wreach_init w_enter [of _ 0]]) (auto simp: winit_def wgo_def)
  have 1: "wreach \<lparr>wpcs = (\<lambda>_. WOut)(0 := WSleep1, 1 := WOut), wlk = Some 0, wpt = None, cond = False\<rparr>"
    by (rule wreach_go [OF 0 w_sleep [of _ 0]]) (auto simp: winit_def wgo_def)
  have 2: "wreach \<lparr>wpcs = (\<lambda>_. WOut)(0 := WSleep2, 1 := WOut), wlk = Some 0, wpt = Some 0, cond = False\<rparr>"
    by (rule wreach_go [OF 1 w_ptable [of _ 0]]) (auto simp: winit_def wgo_def)
  have 3: "wreach \<lparr>wpcs = (\<lambda>_. WOut)(0 := WSleep3, 1 := WOut), wlk = None, wpt = Some 0, cond = False\<rparr>"
    by (rule wreach_go [OF 2 w_release [of _ 0]]) (auto simp: winit_def wgo_def)
  have 4: "wreach \<lparr>wpcs = (\<lambda>_. WOut)(0 := WAsleep, 1 := WOut), wlk = None, wpt = None, cond = False\<rparr>"
    by (rule wreach_go [OF 3 w_mark [of _ 0]]) (auto simp: winit_def wgo_def)
  have 5: "wreach \<lparr>wpcs = (\<lambda>_. WOut)(0 := WAsleep, 1 := WSetting), wlk = Some 1, wpt = None, cond = False\<rparr>"
    by (rule wreach_go [OF 4 w_signal [of _ 1]]) (auto simp: winit_def wgo_def)
  have 6: "wreach \<lparr>wpcs = (\<lambda>_. WOut)(0 := WAsleep, 1 := Wake1), wlk = Some 1, wpt = None, cond = True\<rparr>"
    by (rule wreach_go [OF 5 w_set [of _ 1]]) (auto simp: winit_def wgo_def)
  let ?s = "\<lparr>wpcs = (\<lambda>_. WOut)(0 := WAsleep, 1 := Wake1), wlk = Some 1, wpt = None, cond = True\<rparr> :: wsys"
  have "cond ?s" "wpcs ?s 0 = WAsleep" by simp_all
  with no_lost_wakeup [OF 6] 6 show ?thesis by blast
qed

section \<open>Scheduling\<close>

text \<open>Every process that a CPU runs is marked as running, and no two CPUs run the same one.\<close>

definition sched_inv :: "'z pstate_scheme \<Rightarrow> bool" where
  "sched_inv s \<longleftrightarrow> (\<forall>c < length (cpus (hw s)). \<forall>p. cproc (cpus (hw s) ! c) = Some p \<longrightarrow>
     p < length (procs s) \<and> pstate (procs s ! p) = RUNNING
     \<and> (\<forall>d < length (cpus (hw s)). cproc (cpus (hw s) ! d) = Some p \<longrightarrow> d = c))"

definition on_cpu :: "nat option \<Rightarrow> hw \<Rightarrow> hw" where
  "on_cpu p h = h\<lparr>cpus := (cpus h)[me h := (cpus h ! me h)\<lparr>cproc := p\<rparr>]\<rparr>"

lemma on_cpu_ok:
  assumes "hw_ok h"
  shows "hw_ok (on_cpu p h)" and "depth (on_cpu p h) = depth h" and "me (on_cpu p h) = me h"
    and "length (cpus (on_cpu p h)) = length (cpus h)" and "lock_mine lk (on_cpu p h) = lock_mine lk h"
    and "c < length (cpus h) \<Longrightarrow> cproc (cpus (on_cpu p h) ! c) = (if c = me h then p else cproc (cpus h ! c))"
proof -
  have i: "me h < length (cpus h)" using assms by (simp add: hw_ok_def cpus_ok_def)
  show "hw_ok (on_cpu p h)"
    using cpus_ok_upd [of h "(cpus h ! me h)\<lparr>cproc := p\<rparr>" "ifl h"] assms i
    by (simp add: hw_ok_def on_cpu_def cli_ok_def cpus_ok_def)
qed (use assms in \<open>auto simp: on_cpu_def hw_ok_def cpus_ok_def lock_mine_def nth_list_update\<close>)

lemma switchuvm_ok:
  assumes "hw_ok (hw s)" "0 < depth (hw s)" "kstack (the_proc s i) \<noteq> 0" "pgdir (the_proc s i) \<noteq> 0"
  shows "switchuvm (Some i) s = Ok (s\<lparr>esp0 := kstack (the_proc s i) + KSTACKSIZE, cr3 := V2P (pgdir (the_proc s i))\<rparr>)"
proof -
  have pc: "pushcli (hw s) = Ok (pushed (hw s))" using assms(1) by (simp add: hw_simps hw_ok_def)
  note p = hw_ok_pushed [OF assms(1)]
  then have mc: "mycpu (pushed (hw s)) = Ok (me (hw s))" using mycpu_ok [of "pushed (hw s)"] by (simp add: hw_ok_def)
  have "popcli (pushed (hw s)) = Ok (hw s)"
    using popcli_ok [of "pushed (hw s)"] p popped_pushed [OF assms(1)] peeked_nested [OF assms(2)]
    by (simp add: hw_ok_def)
  then show ?thesis using assms(3,4) pc mc by (simp add: switchuvm_def Let_def lcr3_def)
qed

lemma sched_invD:
  assumes "sched_inv s" "c < length (cpus (hw s))" "cproc (cpus (hw s) ! c) = Some p"
  shows "p < length (procs s)" and "pstate (procs s ! p) = RUNNING"
    and "d < length (cpus (hw s)) \<Longrightarrow> cproc (cpus (hw s) ! d) = Some p \<Longrightarrow> d = c"
  using assms unfolding sched_inv_def by blast+

lemma sched_inv_on_cpu:
  assumes "sched_inv s" "hw_ok (hw s)" "p < length (procs s)" "\<forall>c < length (cpus (hw s)). cproc (cpus (hw s) ! c) \<noteq> Some p"
    and "hw t = on_cpu q (hw s)" "procs t = (procs s)[p := x]" "q = None \<or> q = Some p \<and> pstate x = RUNNING"
  shows "sched_inv t"
  unfolding sched_inv_def
proof (intro allI impI)
  fix c r assume c: "c < length (cpus (hw t))" "cproc (cpus (hw t) ! c) = Some r"
  note oc = on_cpu_ok [OF assms(2), where p = q]
  have cp: "cproc (cpus (hw t) ! d) = (if d = me (hw s) then q else cproc (cpus (hw s) ! d))" "d < length (cpus (hw s))"
    if "d < length (cpus (hw t))" for d using that oc(4,6) assms(5) by simp_all
  show "r < length (procs t) \<and> pstate (procs t ! r) = RUNNING
     \<and> (\<forall>d < length (cpus (hw t)). cproc (cpus (hw t) ! d) = Some r \<longrightarrow> d = c)"
  proof (cases "c = me (hw s)")
    case True
    then have "r = p" "pstate x = RUNNING" using cp [OF c(1)] c(2) assms(7) by auto
    moreover have "d = c" if "d < length (cpus (hw t))" "cproc (cpus (hw t) ! d) = Some p" for d
      using cp [OF that(1)] that(2) assms(4) True by (auto split: if_splits)
    ultimately show ?thesis using assms(3,6) by auto
  next
    case False
    then have r: "cproc (cpus (hw s) ! c) = Some r" "c < length (cpus (hw s))" using cp [OF c(1)] c(2) by auto
    note inv = sched_invD [OF assms(1) r(2,1)]
    have "r \<noteq> p" using r assms(4) by blast
    moreover have "d = c" if "d < length (cpus (hw t))" "cproc (cpus (hw t) ! d) = Some r" for d
      using cp [OF that(1)] that(2) assms(7) \<open>r \<noteq> p\<close> inv(3) by (auto split: if_splits)
    ultimately show ?thesis using inv(1,2) assms(6) by auto
  qed
qed

text \<open>C11: a process runs on one CPU at a time. When the scheduler, holding \<open>ptable.lock\<close>, picks a
  process, the first runnable one from where it looks, no CPU runs that process, its page
  table and kernel stack are installed, and the invariant holds again; it also holds when
  the process has given up the CPU and the scheduler is back in its loop.\<close>

theorem scheduler_exclusive:
  assumes "hw_ok (hw s)" "0 < depth (hw s)" "sched_inv s" "running s = None"
    and "find_proc (\<lambda>p. pstate p = RUNNABLE) i (drop i (procs s)) = Some p"
    and "kstack (the_proc s p) \<noteq> 0" "pgdir (the_proc s p) \<noteq> 0"
  shows "\<exists>t. scheduler_pick (me (hw s)) i s = Ok (Some p, t) \<and> sched_inv t \<and> running t = Some p
     \<and> (\<forall>c < length (cpus (hw s)). cproc (cpus (hw s) ! c) \<noteq> Some p)
     \<and> cr3 t = V2P (pgdir (the_proc s p)) \<and> esp0 t = kstack (the_proc s p) + KSTACKSIZE
     \<and> sched_inv (scheduler_back (me (hw s)) (upd_proc p (\<lambda>x. x\<lparr>pstate := RUNNABLE\<rparr>) t))"
proof -
  have "i \<le> p \<and> p < i + length (drop i (procs s)) \<and> pstate (drop i (procs s) ! (p - i)) = RUNNABLE"
    using find_proc_Some [OF assms(5)] by blast
  then have p: "p < length (procs s)" "pstate (procs s ! p) = RUNNABLE" by auto
  have me: "me (hw s) < length (cpus (hw s))" using assms(1) by (simp add: hw_ok_def cpus_ok_def)
  have free: "\<forall>c < length (cpus (hw s)). cproc (cpus (hw s) ! c) \<noteq> Some p"
    using assms(3) p(2) unfolding sched_inv_def by fastforce
  let ?u = "s\<lparr>hw := on_cpu (Some p) (hw s)\<rparr>"
  let ?t = "upd_proc p (\<lambda>x. x\<lparr>pstate := RUNNING\<rparr>) (?u\<lparr>esp0 := kstack (the_proc s p) + KSTACKSIZE, cr3 := V2P (pgdir (the_proc s p))\<rparr>)"
  note oc = on_cpu_ok [OF assms(1)]
  have "set_cproc (me (hw s)) (Some p) s = ?u" by (simp add: set_cproc_def on_cpu_def upd_cpu_def)
  moreover have "switchuvm (Some p) ?u = Ok (?u\<lparr>esp0 := kstack (the_proc s p) + KSTACKSIZE, cr3 := V2P (pgdir (the_proc s p))\<rparr>)"
    using switchuvm_ok [of ?u p] assms(2,6,7) oc by simp
  ultimately have run: "scheduler_pick (me (hw s)) i s = Ok (Some p, ?t)"
    using assms(5) by (simp add: scheduler_pick_def)
  have inv: "sched_inv ?t"
    by (rule sched_inv_on_cpu [OF assms(3,1) p(1) free, where q = "Some p" and x = "(procs s ! p)\<lparr>pstate := RUNNING\<rparr>"]) simp_all
  let ?b = "scheduler_back (me (hw s)) (upd_proc p (\<lambda>x. x\<lparr>pstate := RUNNABLE\<rparr>) ?t)"
  have "sched_inv ?b"
  proof (rule sched_inv_on_cpu [OF assms(3,1) p(1) free, of _ None])
    show "hw ?b = on_cpu None (hw s)"
      using me by (simp add: scheduler_back_def set_cproc_def switchkvm_def lcr3_def on_cpu_def upd_cpu_def)
    show "procs ?b = (procs s)[p := (procs s ! p)\<lparr>pstate := RUNNABLE\<rparr>]"
      using p(1) by (simp add: scheduler_back_def set_cproc_def switchkvm_def lcr3_def)
  qed simp
  with run inv free me oc show ?thesis by (intro exI [of _ ?t]) simp
qed

theorem scheduler_exclusive_witness:
  "\<exists>t. scheduler_pick 0 0 (demo_s\<lparr>hw := acquired (\<lambda>_. 0) PtableLock (on_cpu None run_hw), procs := [demo_proc\<lparr>pstate := RUNNABLE\<rparr>]\<rparr>) = Ok (Some 0, t)
     \<and> sched_inv t \<and> running t = Some 0 \<and> cr3 t = V2P 0x80500000"
proof -
  let ?h = "on_cpu None run_hw"
  let ?s = "demo_s\<lparr>hw := acquired (\<lambda>_. 0) PtableLock ?h, procs := [demo_proc\<lparr>pstate := RUNNABLE\<rparr>]\<rparr>"
  have h: "hw_ok ?h" using on_cpu_ok(1) [OF run_hw_ok] .
  have len: "length (cpus ?h) = 1" "me ?h = 0" "cproc (cpus ?h ! 0) = None" by (simp_all add: on_cpu_def run_hw_def boot_hw_def)
  have "length (cpus (acquired (\<lambda>_. 0) PtableLock ?h)) = 1" using len by (simp add: acquired_def)
  then have "sched_inv ?s" using len h by (simp add: sched_inv_def)
  then show ?thesis
    using scheduler_exclusive [of ?s 0 0] acquired_state [OF h] h len
    by (auto simp: demo_proc_def)
qed

end
