(* ===== verification/Bio.thy ===== *)
theory Bio
  imports Sched
begin

text \<open>
  Sleep locks (\<open>sleeplock.c\<close>), the buffer cache (\<open>bio.c\<close>) and the disk in memory that the
  kernel can be linked with (\<open>memide.c\<close>).

  A sleep lock that somebody holds makes \<open>acquiresleep\<close> sleep: the outcome \<open>Sleeps\<close>. A
  buffer is its index in \<open>bcache.buf\<close>; the doubly linked list is the list \<open>lru\<close> of
  indices, most recently used first. The data of a block is a function from offsets, of
  which those below \<open>BSIZE\<close> are used. Every write to the disk is also appended to
  \<open>wtrace\<close>: a crash leaves the disk as it was after some prefix of the writes.
\<close>

section \<open>Sleep locks\<close>

record sleeplock =
  slocked :: bool
  slname :: string
  slpid :: int

type_synonym block = memory

record buf =
  bvalid :: bool
  bdirty :: bool
  bdev :: uint
  blockno :: uint
  brefcnt :: uint
  bdata :: block

record bstate = pstate +
  slocks :: "slockid \<Rightarrow> sleeplock"
  bufs :: "buf list"
  lru :: "nat list"
  disk :: "uint \<Rightarrow> block"
  disksize :: uint
  wtrace :: "(uint \<times> block) list"

definition BSIZE :: uint where [simp]: "BSIZE = 512"
definition NBUF :: nat where [simp]: "NBUF = 30"

definition initsleeplock :: "slockid \<Rightarrow> string \<Rightarrow> 'z bstate_scheme \<Rightarrow> 'z bstate_scheme" where
  "initsleeplock l nm s =
     s\<lparr>hw := initlock (SleepLk l) ''sleep lock'' (hw s),
       slocks := (slocks s)(l := \<lparr>slocked = False, slname = nm, slpid = 0\<rparr>)\<rparr>"

definition acquiresleep :: "slockid \<Rightarrow> 'z bstate_scheme \<Rightarrow> 'z bstate_scheme res" where
  "acquiresleep l s =
     bindE (lock (SleepLk l) s) (\<lambda>s.
     if slocked (slocks s l) then Inl Sleeps
     else
       let s = s\<lparr>slocks := (slocks s)(l := (slocks s l)\<lparr>slocked := True\<rparr>)\<rparr> in
       bindE (curproc s) (\<lambda>(p, s).
       let s = s\<lparr>slocks := (slocks s)(l := (slocks s l)\<lparr>slpid := pid (the_proc s p)\<rparr>)\<rparr>
       in unlock (SleepLk l) s))"

definition releasesleep :: "slockid \<Rightarrow> 'z bstate_scheme \<Rightarrow> 'z bstate_scheme res" where
  "releasesleep l s =
     bindE (lock (SleepLk l) s) (\<lambda>s.
     let s = s\<lparr>slocks := (slocks s)(l := (slocks s l)\<lparr>slocked := False, slpid := 0\<rparr>)\<rparr> in
     bindE (wakeup (ChSleep l) s) (unlock (SleepLk l)))"

definition holdingsleep :: "slockid \<Rightarrow> 'z bstate_scheme \<Rightarrow> (bool \<times> 'z bstate_scheme) res" where
  "holdingsleep l s =
     bindE (lock (SleepLk l) s) (\<lambda>s.
     bindE (if slocked (slocks s l)
            then bindE (curproc s) (\<lambda>(p, s). Ok (slpid (slocks s l) = pid (the_proc s p), s))
            else Ok (False, s)) (\<lambda>(r, s).
     bindE (unlock (SleepLk l) s) (\<lambda>s. Ok (r, s))))"

section \<open>The disk\<close>

definition upd_buf :: "nat \<Rightarrow> (buf \<Rightarrow> buf) \<Rightarrow> 'z bstate_scheme \<Rightarrow> 'z bstate_scheme" where
  "upd_buf b f s = s\<lparr>bufs := (bufs s)[b := f (bufs s ! b)]\<rparr>"

abbreviation the_buf :: "'z bstate_scheme \<Rightarrow> nat \<Rightarrow> buf" where
  "the_buf s b \<equiv> bufs s ! b"

definition disk_write :: "uint \<Rightarrow> block \<Rightarrow> 'z bstate_scheme \<Rightarrow> 'z bstate_scheme" where
  "disk_write n d s = s\<lparr>disk := (disk s)(n := d), wtrace := wtrace s @ [(n, d)]\<rparr>"

definition iderw :: "nat \<Rightarrow> 'z bstate_scheme \<Rightarrow> 'z bstate_scheme res" where
  "iderw b s =
     bindE (holdingsleep (BufLock b) s) (\<lambda>(r, s).
     if \<not> r then panic ''iderw: buf not locked''
     else if bvalid (the_buf s b) \<and> \<not> bdirty (the_buf s b) then panic ''iderw: nothing to do''
     else if bdev (the_buf s b) \<noteq> 1 then panic ''iderw: request not for disk 1''
     else if blockno (the_buf s b) \<ge> disksize s then panic ''iderw: block out of range''
     else
       let n = blockno (the_buf s b);
           s = (if bdirty (the_buf s b)
                then disk_write n (bdata (the_buf s b)) (upd_buf b (\<lambda>x. x\<lparr>bdirty := False\<rparr>) s)
                else upd_buf b (\<lambda>x. x\<lparr>bdata := disk s n\<rparr>) s)
       in Ok (upd_buf b (\<lambda>x. x\<lparr>bvalid := True\<rparr>) s))"

section \<open>The buffer cache\<close>

primrec binit_bufs :: "nat list \<Rightarrow> 'z bstate_scheme \<Rightarrow> 'z bstate_scheme" where
  "binit_bufs [] s = s"
| "binit_bufs (b # bs) s =
     binit_bufs bs (initsleeplock (BufLock b) ''buffer'' (s\<lparr>lru := b # lru s\<rparr>))"

definition binit :: "'z bstate_scheme \<Rightarrow> 'z bstate_scheme" where
  "binit s =
     (let s = s\<lparr>hw := initlock BcacheLock ''bcache'' (hw s)\<rparr>;
          s = s\<lparr>lru := []\<rparr>
      in binit_bufs [0..<NBUF] s)"

definition bget :: "uint \<Rightarrow> uint \<Rightarrow> 'z bstate_scheme \<Rightarrow> (nat \<times> 'z bstate_scheme) res" where
  "bget dev bn s =
     bindE (lock BcacheLock s) (\<lambda>s.
     case find (\<lambda>b. bdev (the_buf s b) = dev \<and> blockno (the_buf s b) = bn) (lru s) of
       Some b \<Rightarrow>
         let s = upd_buf b (\<lambda>x. x\<lparr>brefcnt := brefcnt x + 1\<rparr>) s in
         bindE (unlock BcacheLock s) (\<lambda>s.
         bindE (acquiresleep (BufLock b) s) (\<lambda>s. Ok (b, s)))
     | None \<Rightarrow>
         (case find (\<lambda>b. brefcnt (the_buf s b) = 0 \<and> \<not> bdirty (the_buf s b)) (rev (lru s)) of
            Some b \<Rightarrow>
              let s = upd_buf b (\<lambda>x. x\<lparr>bdev := dev, blockno := bn, bvalid := False, bdirty := False,
                                      brefcnt := 1\<rparr>) s in
              bindE (unlock BcacheLock s) (\<lambda>s.
              bindE (acquiresleep (BufLock b) s) (\<lambda>s. Ok (b, s)))
          | None \<Rightarrow> panic ''bget: no buffers''))"

definition bread :: "uint \<Rightarrow> uint \<Rightarrow> 'z bstate_scheme \<Rightarrow> (nat \<times> 'z bstate_scheme) res" where
  "bread dev bn s =
     bindE (bget dev bn s) (\<lambda>(b, s).
     bindE (whenE (\<not> bvalid (the_buf s b)) (iderw b) s) (\<lambda>s. Ok (b, s)))"

definition bwrite :: "nat \<Rightarrow> 'z bstate_scheme \<Rightarrow> 'z bstate_scheme res" where
  "bwrite b s =
     bindE (holdingsleep (BufLock b) s) (\<lambda>(r, s).
     if \<not> r then panic ''bwrite''
     else iderw b (upd_buf b (\<lambda>x. x\<lparr>bdirty := True\<rparr>) s))"

definition brelse :: "nat \<Rightarrow> 'z bstate_scheme \<Rightarrow> 'z bstate_scheme res" where
  "brelse b s =
     bindE (holdingsleep (BufLock b) s) (\<lambda>(r, s).
     if \<not> r then panic ''brelse''
     else
       bindE (releasesleep (BufLock b) s) (\<lambda>s.
       bindE (lock BcacheLock s) (\<lambda>s.
       let s = upd_buf b (\<lambda>x. x\<lparr>brefcnt := brefcnt x - 1\<rparr>) s;
           s = (if brefcnt (the_buf s b) = 0 then s\<lparr>lru := b # remove1 b (lru s)\<rparr> else s)
       in unlock BcacheLock s)))"

text \<open>A machine with an empty disk of 100 blocks and two buffers, as the examples use it.\<close>

definition demo_b :: bstate where
  "demo_b = pstate.extend demo_s (bstate.fields (\<lambda>_. \<lparr>slocked = False, slname = [], slpid = 0\<rparr>)
     (replicate 2 \<lparr>bvalid = False, bdirty = False, bdev = 0, blockno = 0, brefcnt = 0, bdata = (\<lambda>_. 0)\<rparr>)
     [0, 1] (\<lambda>_ _. 0) 100 [])"

lemma demo_b_sel [simp]:
  "hw demo_b = run_hw" "procs demo_b = demo_proc # replicate 63 idle_proc"
  "disk demo_b = (\<lambda>_ _. 0)" "disksize demo_b = 100" "lru demo_b = [0, 1]" "wtrace demo_b = []"
  using demo_s_sel by (simp_all add: demo_b_def pstate.defs bstate.defs)

end
