(* ===== verification/Logfs.thy ===== *)
theory Logfs
  imports Bio
begin

text \<open>
  The write-ahead log of the file system, \<open>log.c\<close>, with \<open>readsb\<close> of \<open>fs.c\<close> and the
  superblock of \<open>fs.h\<close>. The in-memory header is a count and a list of block numbers; on
  disk it is a word with the count followed by the block numbers.
\<close>

section \<open>State\<close>

record superblock =
  sb_size :: uint
  nblocks :: uint
  ninodes :: uint
  nlog :: uint
  logstart :: uint
  inodestart :: uint
  bmapstart :: uint

record loghdr =
  lh_n :: int
  lh_block :: "nat \<Rightarrow> uint"

record logst =
  lstart :: uint
  lsize :: int
  outstanding :: int
  committing :: bool
  ldev :: uint
  lh :: loghdr

record lstate = bstate +
  log :: logst

definition MAXOPBLOCKS :: int where [simp]: "MAXOPBLOCKS = 10"
definition LOGSIZE :: int where [simp]: "LOGSIZE = MAXOPBLOCKS * 3"

abbreviation set_log :: "(logst \<Rightarrow> logst) \<Rightarrow> 'z lstate_scheme \<Rightarrow> 'z lstate_scheme" where
  "set_log f s \<equiv> s\<lparr>log := f (log s)\<rparr>"

text \<open>A word of a block as a C \<open>int\<close>.\<close>

definition sint32 :: "uint \<Rightarrow> int" where
  "sint32 w = sint w"

section \<open>Operations\<close>

definition readsb :: "uint \<Rightarrow> 'z bstate_scheme \<Rightarrow> (superblock \<times> 'z bstate_scheme) res" where
  "readsb dev s =
     bindE (bread dev 1 s) (\<lambda>(b, s).
     let d = bdata (the_buf s b);
         sb = \<lparr>sb_size = load32 d 0, nblocks = load32 d 4, ninodes = load32 d 8, nlog = load32 d 12,
               logstart = load32 d 16, inodestart = load32 d 20, bmapstart = load32 d 24\<rparr>
     in bindE (brelse b s) (\<lambda>s. Ok (sb, s)))"

fun install_loop :: "nat \<Rightarrow> nat \<Rightarrow> 'z lstate_scheme \<Rightarrow> 'z lstate_scheme res" where
  "install_loop tail 0 s = Ok s"
| "install_loop tail (Suc k) s =
     bindE (bread (ldev (log s)) (lstart (log s) + of_nat tail + 1) s) (\<lambda>(lbuf, s).
     bindE (bread (ldev (log s)) (lh_block (lh (log s)) tail) s) (\<lambda>(dbuf, s).
     let s = upd_buf dbuf (\<lambda>x. x\<lparr>bdata := bdata (the_buf s lbuf)\<rparr>) s in
     bindE (bwrite dbuf s) (\<lambda>s.
     bindE (brelse lbuf s) (\<lambda>s.
     bindE (brelse dbuf s) (\<lambda>s.
     install_loop (Suc tail) k s)))))"

definition install_trans :: "'z lstate_scheme \<Rightarrow> 'z lstate_scheme res" where
  "install_trans s = install_loop 0 (nat (lh_n (lh (log s)))) s"

text \<open>The header in memory has room for \<open>LOGSIZE\<close> block numbers, and so has the one on disk: a count beyond it runs off
  the array.\<close>

definition read_head :: "'z lstate_scheme \<Rightarrow> 'z lstate_scheme res" where
  "read_head s =
     bindE (bread (ldev (log s)) (lstart (log s)) s) (\<lambda>(b, s).
     let d = bdata (the_buf s b); n = sint32 (load32 d 0) in
     if n > LOGSIZE then Inl Undef
     else
       let s = set_log (\<lambda>l. l\<lparr>lh := \<lparr>lh_n = n,
                 lh_block = (\<lambda>i. if int i < n then load32 d (4 + 4 * of_nat i) else lh_block (lh l) i)\<rparr>\<rparr>) s
       in brelse b s)"

fun put_words :: "block \<Rightarrow> (nat \<Rightarrow> uint) \<Rightarrow> nat \<Rightarrow> block" where
  "put_words d f 0 = d"
| "put_words d f (Suc k) = store32 (put_words d f k) (4 + 4 * of_nat k) (f k)"

definition put_head :: "loghdr \<Rightarrow> block \<Rightarrow> block" where
  "put_head h d = put_words (store32 d 0 (of_int (lh_n h))) (lh_block h) (nat (lh_n h))"

definition write_head :: "'z lstate_scheme \<Rightarrow> 'z lstate_scheme res" where
  "write_head s =
     bindE (bread (ldev (log s)) (lstart (log s)) s) (\<lambda>(b, s).
     if lh_n (lh (log s)) > LOGSIZE then Inl Undef
     else
       let s = upd_buf b (\<lambda>x. x\<lparr>bdata := put_head (lh (log s)) (bdata x)\<rparr>) s in
       bindE (bwrite b s) (brelse b))"

definition set_lhn :: "int \<Rightarrow> 'z lstate_scheme \<Rightarrow> 'z lstate_scheme" where
  "set_lhn n s = set_log (\<lambda>l. l\<lparr>lh := (lh l)\<lparr>lh_n := n\<rparr>\<rparr>) s"

definition recover_from_log :: "'z lstate_scheme \<Rightarrow> 'z lstate_scheme res" where
  "recover_from_log s =
     bindE (read_head s) (\<lambda>s.
     bindE (install_trans s) (\<lambda>s.
     write_head (set_lhn 0 s)))"

text \<open>\<open>sizeof(struct logheader)\<close> is \<open>4 + 4 * LOGSIZE\<close>.\<close>

definition initlog :: "uint \<Rightarrow> 'z lstate_scheme \<Rightarrow> 'z lstate_scheme res" where
  "initlog dev s =
     (if 4 + 4 * LOGSIZE \<ge> uint BSIZE then panic ''initlog: too big logheader''
      else
        let s = s\<lparr>hw := initlock LogLock ''log'' (hw s)\<rparr> in
        bindE (readsb dev s) (\<lambda>(sb, s).
        recover_from_log (set_log (\<lambda>l. l\<lparr>lstart := logstart sb, lsize := sint32 (nlog sb), ldev := dev\<rparr>) s)))"

definition begin_op :: "'z lstate_scheme \<Rightarrow> 'z lstate_scheme res" where
  "begin_op s =
     bindE (lock LogLock s) (\<lambda>s.
     if committing (log s) then Inl Sleeps
     else if lh_n (lh (log s)) + (outstanding (log s) + 1) * MAXOPBLOCKS > LOGSIZE then Inl Sleeps
     else unlock LogLock (set_log (\<lambda>l. l\<lparr>outstanding := outstanding l + 1\<rparr>) s))"

fun write_log_loop :: "nat \<Rightarrow> nat \<Rightarrow> 'z lstate_scheme \<Rightarrow> 'z lstate_scheme res" where
  "write_log_loop tail 0 s = Ok s"
| "write_log_loop tail (Suc k) s =
     bindE (bread (ldev (log s)) (lstart (log s) + of_nat tail + 1) s) (\<lambda>(dst, s).
     bindE (bread (ldev (log s)) (lh_block (lh (log s)) tail) s) (\<lambda>(src, s).
     let s = upd_buf dst (\<lambda>x. x\<lparr>bdata := bdata (the_buf s src)\<rparr>) s in
     bindE (bwrite dst s) (\<lambda>s.
     bindE (brelse src s) (\<lambda>s.
     bindE (brelse dst s) (\<lambda>s.
     write_log_loop (Suc tail) k s)))))"

definition write_log :: "'z lstate_scheme \<Rightarrow> 'z lstate_scheme res" where
  "write_log s = write_log_loop 0 (nat (lh_n (lh (log s)))) s"

definition commit :: "'z lstate_scheme \<Rightarrow> 'z lstate_scheme res" where
  "commit s =
     (if lh_n (lh (log s)) > 0 then
        bindE (write_log s) (\<lambda>s.
        bindE (write_head s) (\<lambda>s.
        bindE (install_trans s) (\<lambda>s.
        write_head (set_lhn 0 s))))
      else Ok s)"

definition end_op :: "'z lstate_scheme \<Rightarrow> 'z lstate_scheme res" where
  "end_op s =
     bindE (lock LogLock s) (\<lambda>s.
     let s = set_log (\<lambda>l. l\<lparr>outstanding := outstanding l - 1\<rparr>) s in
     if committing (log s) then panic ''log.committing''
     else if outstanding (log s) = 0 then
       bindE (unlock LogLock (set_log (\<lambda>l. l\<lparr>committing := True\<rparr>) s)) (\<lambda>s.
       bindE (commit s) (\<lambda>s.
       bindE (lock LogLock s) (\<lambda>s.
       bindE (wakeup ChLog (set_log (\<lambda>l. l\<lparr>committing := False\<rparr>) s)) (unlock LogLock))))
     else bindE (wakeup ChLog s) (unlock LogLock))"

text \<open>The index of the first logged occurrence of a block, or the count.\<close>

fun log_index :: "nat \<Rightarrow> nat \<Rightarrow> (nat \<Rightarrow> uint) \<Rightarrow> uint \<Rightarrow> nat" where
  "log_index i 0 f bn = i"
| "log_index i (Suc k) f bn = (if f i = bn then i else log_index (Suc i) k f bn)"

definition log_write :: "nat \<Rightarrow> 'z lstate_scheme \<Rightarrow> 'z lstate_scheme res" where
  "log_write b s =
     (if lh_n (lh (log s)) \<ge> LOGSIZE \<or> lh_n (lh (log s)) \<ge> lsize (log s) - 1 then panic ''too big a transaction''
      else if outstanding (log s) < 1 then panic ''log_write outside of trans''
      else
        bindE (lock LogLock s) (\<lambda>s.
        let h = lh (log s);
            i = log_index 0 (nat (lh_n h)) (lh_block h) (blockno (the_buf s b));
            h' = h\<lparr>lh_block := (lh_block h)(i := blockno (the_buf s b)),
                   lh_n := (if int i = lh_n h then lh_n h + 1 else lh_n h)\<rparr>;
            s = set_log (\<lambda>l. l\<lparr>lh := h'\<rparr>) s;
            s = upd_buf b (\<lambda>x. x\<lparr>bdirty := True\<rparr>) s
        in unlock LogLock s))"

definition demo_l :: lstate where
  "demo_l = bstate.extend demo_b (lstate.fields \<lparr>lstart = 2, lsize = 30, outstanding = 0, committing = False,
     ldev = 1, lh = \<lparr>lh_n = 0, lh_block = (\<lambda>_. 0)\<rparr>\<rparr>)"

lemma demo_l_sel [simp]:
  "hw demo_l = run_hw" "procs demo_l = demo_proc # replicate 63 idle_proc"
  using demo_b_sel by (simp_all add: demo_l_def bstate.defs lstate.defs)

end
