(* ===== verification/Cache.thy ===== *)
theory Cache
  imports Bio
begin

text \<open>
  What the buffer cache promises its clients: the view of the disk through the cache.

  \<open>view s n\<close> is the content of block \<open>n\<close> that a client sees. The invariant \<open>binv\<close> is that of one
  process at a time: a buffer in use is locked by the process and has one reference, a block
  has at most one buffer, and a clean buffer that nobody uses agrees with the disk. Dirty
  buffers are those the log has pinned.
\<close>

section \<open>Sleep locks\<close>

definition me_pid :: "'z pstate_scheme \<Rightarrow> int" where
  "me_pid s = pid (the_proc s (the (running s)))"

definition bok :: "'z bstate_scheme \<Rightarrow> bool" where
  "bok s \<longleftrightarrow> hw_ok (hw s) \<and> lock_free BcacheLock (hw s) \<and> lock_free PtableLock (hw s)
     \<and> (\<forall>l. lock_free (SleepLk l) (hw s)) \<and> (\<exists>p < length (procs s). running s = Some p)"

text \<open>A state whose locks and processes have changed only in ways that do not matter.\<close>

definition still :: "'z bstate_scheme \<Rightarrow> 'z bstate_scheme \<Rightarrow> bool" where
  "still s t \<longleftrightarrow> hw_same (hw s) (hw t) \<and> map pid (procs t) = map pid (procs s)"

lemma still_refl [simp]: "still s s"
  by (simp add: still_def)

lemma still_trans: "still s t \<Longrightarrow> still t u \<Longrightarrow> still s u"
  using hw_same_trans by (auto simp: still_def)

lemma still_hw: "hw_same (hw s) h \<Longrightarrow> hw t = h \<Longrightarrow> procs t = procs s \<Longrightarrow> still s t"
  by (simp add: still_def)

lemma bok_still:
  assumes "bok s" "still s t"
  shows "bok t" and "me_pid t = me_pid s"
proof -
  obtain p where p: "p < length (procs s)" "running s = Some p" using assms(1) by (auto simp: bok_def)
  have same: "hw_same (hw s) (hw t)" and ok: "hw_ok (hw s)" using assms by (simp_all add: still_def bok_def)
  have run: "running t = Some p" using hw_same_cproc [OF ok same] p(2) by simp
  have len: "length (procs t) = length (procs s)" using assms(2) by (auto simp: still_def dest: map_eq_imp_length_eq)
  then show "bok t"
    using assms(1) hw_same_ok [OF same] hw_same_free [OF same] run p(1) by (auto simp: bok_def)
  have "map pid (procs t) ! p = map pid (procs s) ! p" using assms(2) by (simp add: still_def)
  then show "me_pid t = me_pid s" using run p len by (simp add: me_pid_def)
qed

text \<open>Inside the section of a sleep lock's spin lock.\<close>

lemma sleep_section:
  fixes s t :: "'z bstate_scheme" and l :: slockid
  assumes "bok s"
  defines "h \<equiv> acquired (mem s) (SleepLk l) (hw s)"
  shows "lock (SleepLk l) s = Ok (s\<lparr>hw := h\<rparr>)"
    and "hw t = h \<Longrightarrow> procs t = procs s \<Longrightarrow> curproc t = Ok (the (running s), t)"
    and "hw t = h \<Longrightarrow> \<exists>k. wakeup c t = Ok ((wakeup1 c t)\<lparr>hw := k\<rparr>) \<and> hw_same h k"
    and "hw_same h (hw t) \<Longrightarrow> \<exists>k. unlock (SleepLk l) t = Ok (t\<lparr>hw := k\<rparr>) \<and> hw_same (hw s) k"
proof -
  have ok: "hw_ok (hw s)" "lock_free (SleepLk l) (hw s)" "lock_free PtableLock (hw s)"
    using assms(1) by (auto simp: bok_def)
  obtain p where p: "running s = Some p" using assms(1) by (auto simp: bok_def)
  have h: "hw_ok h" "0 < depth h" "lock_free PtableLock h"
    using acquired_state [OF ok(1)] ok(3) by (simp_all add: h_def)
  show "lock (SleepLk l) s = Ok (s\<lparr>hw := h\<rparr>)" using ok by (simp add: hw_simps h_def)
  show "curproc t = Ok (the (running s), t)" if "hw t = h" "procs t = procs s"
  proof -
    have "running t = Some p" using that(1) p ok(1) by (simp add: h_def)
    moreover have "t\<lparr>hw := peeked (hw t)\<rparr> = t" using that(1) peeked_nested [OF h(2)] by simp
    ultimately show ?thesis using curproc_ok [of t] h(1) that(1) p by simp
  qed
  show "\<exists>k. wakeup c t = Ok ((wakeup1 c t)\<lparr>hw := k\<rparr>) \<and> hw_same h k" if "hw t = h"
    using wakeup_ok [of t c] hw_same_cycled [of h PtableLock "mem t"] h that by auto
  show "\<exists>k. unlock (SleepLk l) t = Ok (t\<lparr>hw := k\<rparr>) \<and> hw_same (hw s) k" if "hw_same h (hw t)"
    using unlock_same [OF ok(1,2), of "mem s" t] that by (auto simp: h_def)
qed

lemma acquiresleep_ok:
  assumes "bok s" "\<not> slocked (slocks s l)"
  shows "\<exists>k. acquiresleep l s = Ok (s\<lparr>hw := k,
       slocks := (slocks s)(l := (slocks s l)\<lparr>slocked := True, slpid := me_pid s\<rparr>)\<rparr>) \<and> hw_same (hw s) k"
proof -
  let ?h = "acquired (mem s) (SleepLk l) (hw s)"
  let ?s = "s\<lparr>hw := ?h, slocks := (slocks s)(l := (slocks s l)\<lparr>slocked := True\<rparr>)\<rparr>"
  let ?t = "s\<lparr>hw := ?h, slocks := (slocks s)(l := (slocks s l)\<lparr>slocked := True, slpid := me_pid s\<rparr>)\<rparr>"
  note sec = sleep_section [OF assms(1), where l = l]
  obtain k where k: "unlock (SleepLk l) ?t = Ok (?t\<lparr>hw := k\<rparr>)" "hw_same (hw s) k"
    using sec(4) [of ?t] by auto
  have "acquiresleep l s = unlock (SleepLk l) ?t"
    using assms(2) sec(1) sec(2) [of ?s] by (simp add: acquiresleep_def Let_def me_pid_def)
  with k show ?thesis by (intro exI [of _ k]) simp
qed

lemma holdingsleep_ok:
  assumes "bok s"
  shows "\<exists>k. holdingsleep l s = Ok (slocked (slocks s l) \<and> slpid (slocks s l) = me_pid s, s\<lparr>hw := k\<rparr>) \<and> hw_same (hw s) k"
proof -
  let ?t = "s\<lparr>hw := acquired (mem s) (SleepLk l) (hw s)\<rparr>"
  note sec = sleep_section [OF assms(1), where l = l]
  obtain k where k: "unlock (SleepLk l) ?t = Ok (?t\<lparr>hw := k\<rparr>)" "hw_same (hw s) k"
    using sec(4) [of ?t] by auto
  have "holdingsleep l s = Ok (slocked (slocks s l) \<and> slpid (slocks s l) = me_pid s, s\<lparr>hw := k\<rparr>)"
    using sec(1) sec(2) [of ?t] k(1) by (simp add: holdingsleep_def me_pid_def)
  with k(2) show ?thesis by blast
qed

lemma releasesleep_ok:
  assumes "bok s"
  shows "\<exists>k ps. releasesleep l s = Ok (s\<lparr>hw := k, procs := ps,
       slocks := (slocks s)(l := (slocks s l)\<lparr>slocked := False, slpid := 0\<rparr>)\<rparr>)
     \<and> hw_same (hw s) k \<and> map pid ps = map pid (procs s)"
proof -
  let ?h = "acquired (mem s) (SleepLk l) (hw s)"
  let ?s = "s\<lparr>hw := ?h, slocks := (slocks s)(l := (slocks s l)\<lparr>slocked := False, slpid := 0\<rparr>)\<rparr>"
  note sec = sleep_section [OF assms(1), where l = l]
  obtain j where j: "wakeup (ChSleep l) ?s = Ok ((wakeup1 (ChSleep l) ?s)\<lparr>hw := j\<rparr>)" "hw_same ?h j"
    using sec(3) [of ?s] by auto
  let ?t = "(wakeup1 (ChSleep l) ?s)\<lparr>hw := j\<rparr>"
  obtain k where k: "unlock (SleepLk l) ?t = Ok (?t\<lparr>hw := k\<rparr>)" "hw_same (hw s) k"
    using sec(4) [of ?t] j(2) by auto
  let ?ps = "procs (wakeup1 (ChSleep l) ?s)"
  have "map pid ?ps = map pid (procs s)" by (simp add: wakeup1_def)
  moreover have "releasesleep l s = Ok (?t\<lparr>hw := k\<rparr>)"
    using sec(1) j(1) k(1) by (simp add: releasesleep_def Let_def)
  moreover have "?t\<lparr>hw := k\<rparr> = s\<lparr>hw := k, procs := ?ps,
       slocks := (slocks s)(l := (slocks s l)\<lparr>slocked := False, slpid := 0\<rparr>)\<rparr>"
    by (simp add: wakeup1_def)
  ultimately show ?thesis using k(2) by metis
qed

section \<open>The view through the cache\<close>

abbreviation busy :: "'z bstate_scheme \<Rightarrow> nat \<Rightarrow> bool" where
  "busy s i \<equiv> slocked (slocks s (BufLock i))"

definition caches :: "'z bstate_scheme \<Rightarrow> uint \<Rightarrow> nat \<Rightarrow> bool" where
  "caches s n i \<longleftrightarrow> i < length (bufs s) \<and> bdev (the_buf s i) = 1 \<and> blockno (the_buf s i) = n"

definition view :: "'z bstate_scheme \<Rightarrow> uint \<Rightarrow> block" where
  "view s n = (case find (caches s n) [0..<length (bufs s)] of Some i \<Rightarrow> bdata (the_buf s i) | None \<Rightarrow> disk s n)"

definition spare :: "'z bstate_scheme \<Rightarrow> nat set" where
  "spare s = {i. i < length (bufs s) \<and> \<not> busy s i \<and> \<not> bdirty (the_buf s i)}"

definition buf_ok :: "'z bstate_scheme \<Rightarrow> nat \<Rightarrow> bool" where
  "buf_ok s i \<longleftrightarrow> (let x = the_buf s i in
     brefcnt x = (if busy s i then 1 else 0)
     \<and> (busy s i \<longrightarrow> slpid (slocks s (BufLock i)) = me_pid s \<and> bdev x = 1)
     \<and> (bdev x = 1 \<longrightarrow> bvalid x) \<and> (bdirty x \<longrightarrow> bdev x = 1)
     \<and> (\<not> busy s i \<and> \<not> bdirty x \<and> bdev x = 1 \<longrightarrow> bdata x = disk s (blockno x)))"

definition binv :: "'z bstate_scheme \<Rightarrow> bool" where
  "binv s \<longleftrightarrow> bok s \<and> distinct (lru s) \<and> set (lru s) = {..<length (bufs s)}
     \<and> (\<forall>n i j. caches s n i \<longrightarrow> caches s n j \<longrightarrow> i = j) \<and> (\<forall>i < length (bufs s). buf_ok s i)"

lemma view_hit: "binv s \<Longrightarrow> caches s n i \<Longrightarrow> view s n = bdata (the_buf s i)"
proof -
  assume inv: "binv s" and i: "caches s n i"
  then have "find (caches s n) [0..<length (bufs s)] \<noteq> None" by (auto simp: find_None_iff caches_def)
  then obtain j where j: "find (caches s n) [0..<length (bufs s)] = Some j" by blast
  then have "caches s n j" by (auto simp: find_Some_iff)
  with inv i have "j = i" by (auto simp: binv_def)
  with j show ?thesis by (simp add: view_def)
qed

lemma view_miss: "\<nexists>i. caches s n i \<Longrightarrow> view s n = disk s n"
proof -
  assume "\<nexists>i. caches s n i"
  then have "find (caches s n) [0..<length (bufs s)] = None" by (auto simp: find_None_iff)
  then show ?thesis by (simp add: view_def)
qed

text \<open>Taking a buffer: the buffer \<open>b\<close> becomes \<open>x\<close> and is locked by the process.\<close>

definition took :: "nat \<Rightarrow> buf \<Rightarrow> hw \<Rightarrow> 'z bstate_scheme \<Rightarrow> 'z bstate_scheme" where
  "took b x k s = s\<lparr>hw := k, bufs := (bufs s)[b := x],
     slocks := (slocks s)(BufLock b := (slocks s (BufLock b))\<lparr>slocked := True, slpid := me_pid s\<rparr>)\<rparr>"

lemma bufs_hw: "s\<lparr>bufs := B, hw := h\<rparr> = s\<lparr>hw := h, bufs := B\<rparr>" for s :: "'z bstate_scheme"
  by simp

lemma bget_take:
  assumes "bok s" "\<not> busy s b"
  shows "\<exists>k. bindE (lock BcacheLock s) (\<lambda>s. bindE (unlock BcacheLock (s\<lparr>bufs := (bufs s)[b := x]\<rparr>))
       (\<lambda>s. bindE (acquiresleep (BufLock b) s) (\<lambda>s. Ok (b, s)))) = Ok (b, took b x k s) \<and> hw_same (hw s) k"
proof -
  have ok: "hw_ok (hw s)" "lock_free BcacheLock (hw s)" using assms(1) by (simp_all add: bok_def)
  let ?h = "cycled (mem s) BcacheLock (hw s)" and ?u = "s\<lparr>hw := acquired (mem s) BcacheLock (hw s), bufs := (bufs s)[b := x]\<rparr>"
  let ?s = "s\<lparr>hw := ?h, bufs := (bufs s)[b := x]\<rparr>"
  have same: "hw_same (hw s) ?h" using hw_same_cycled [OF ok] .
  have un: "unlock BcacheLock ?u = Ok ?s" using unlock_ok [of ?u "mem s" BcacheLock "hw s"] ok(1) by simp
  have still: "still s ?s" using same by (intro still_hw) simp_all
  then obtain k where k: "acquiresleep (BufLock b) ?s = Ok (?s\<lparr>hw := k,
      slocks := (slocks ?s)(BufLock b := (slocks ?s (BufLock b))\<lparr>slocked := True, slpid := me_pid ?s\<rparr>)\<rparr>)" "hw_same ?h k"
    using acquiresleep_ok [OF bok_still(1) [OF assms(1) still], of "BufLock b"] assms(2) by auto
  have "me_pid ?s = me_pid s" using bok_still(2) [OF assms(1) still] .
  with k(1) un ok show ?thesis using hw_same_trans [OF same k(2)]
    by (intro exI [of _ k]) (simp add: hw_simps took_def bufs_hw)
qed

lemma find_in:
  assumes "set xs = {..<m}"
  shows "find P xs = Some i \<Longrightarrow> i < m \<and> P i" and "find P xs = None \<Longrightarrow> i < m \<Longrightarrow> \<not> P i"
proof -
  assume "find P xs = Some i"
  then have "i \<in> set xs" "P i" by (auto simp: find_Some_iff)
  with assms show "i < m \<and> P i" by simp
next
  assume "find P xs = None" "i < m"
  then show "\<not> P i" using assms by (simp add: find_None_iff)
qed

lemma took_sel [simp]:
  "hw (took b x k s) = k" "procs (took b x k s) = procs s" "disk (took b x k s) = disk s"
  "lru (took b x k s) = lru s" "disksize (took b x k s) = disksize s" "wtrace (took b x k s) = wtrace s"
  "length (bufs (took b x k s)) = length (bufs s)"
  "b < length (bufs s) \<Longrightarrow> the_buf (took b x k s) b = x" "i \<noteq> b \<Longrightarrow> the_buf (took b x k s) i = the_buf s i"
  "slocks (took b x k s) (BufLock b) = \<lparr>slocked = True, slname = slname (slocks s (BufLock b)), slpid = me_pid s\<rparr>"
  "i \<noteq> b \<Longrightarrow> slocks (took b x k s) (BufLock i) = slocks s (BufLock i)"
  by (simp_all add: took_def)

lemma took_bok: "bok s \<Longrightarrow> hw_same (hw s) k \<Longrightarrow> bok (took b x k s) \<and> me_pid (took b x k s) = me_pid s"
  using bok_still [of s "took b x k s"] by (simp add: still_def)

lemma iderw_fill:
  assumes "bok s" "busy s b" "slpid (slocks s (BufLock b)) = me_pid s" "b < length (bufs s)"
    and x: "\<not> bvalid (the_buf s b)" "\<not> bdirty (the_buf s b)" "bdev (the_buf s b) = 1" "blockno (the_buf s b) < disksize s"
  shows "\<exists>k. iderw b s = Ok (s\<lparr>hw := k, bufs := (bufs s)[b := (the_buf s b)\<lparr>bdata := disk s (blockno (the_buf s b)), bvalid := True\<rparr>]\<rparr>)
     \<and> hw_same (hw s) k"
proof -
  obtain k where "holdingsleep (BufLock b) s = Ok (True, s\<lparr>hw := k\<rparr>)" "hw_same (hw s) k"
    using holdingsleep_ok [OF assms(1), of "BufLock b"] assms(2,3) by auto
  then show ?thesis using x assms(4)
    by (intro exI [of _ k]) (simp add: iderw_def upd_buf_def bufs_hw Let_def not_le)
qed

lemma iderw_flush:
  assumes "bok s" "busy s b" "slpid (slocks s (BufLock b)) = me_pid s" "b < length (bufs s)"
    and x: "bdirty (the_buf s b)" "bdev (the_buf s b) = 1" "blockno (the_buf s b) < disksize s"
  shows "\<exists>k. iderw b s = Ok (disk_write (blockno (the_buf s b)) (bdata (the_buf s b))
       (s\<lparr>hw := k, bufs := (bufs s)[b := (the_buf s b)\<lparr>bdirty := False, bvalid := True\<rparr>]\<rparr>)) \<and> hw_same (hw s) k"
proof -
  obtain k where "holdingsleep (BufLock b) s = Ok (True, s\<lparr>hw := k\<rparr>)" "hw_same (hw s) k"
    using holdingsleep_ok [OF assms(1), of "BufLock b"] assms(2,3) by auto
  then show ?thesis using x assms(4)
    by (intro exI [of _ k]) (simp add: iderw_def upd_buf_def disk_write_def bufs_hw Let_def not_le)
qed

text \<open>What \<open>bread\<close> makes of the buffer \<open>b\<close> it returns for block \<open>n\<close>.\<close>

definition filled :: "'z bstate_scheme \<Rightarrow> uint \<Rightarrow> nat \<Rightarrow> buf \<Rightarrow> bool" where
  "filled s n b x \<longleftrightarrow> b < length (bufs s) \<and> \<not> busy s b \<and> bdev x = 1 \<and> blockno x = n \<and> bvalid x \<and> brefcnt x = 1
     \<and> bdata x = view s n \<and> bdirty x = bdirty (the_buf s b)
     \<and> (caches s n b \<or> (\<nexists>i. caches s n i) \<and> \<not> bdirty (the_buf s b))"

lemma bread_hit:
  assumes inv: "binv s" and c: "caches s n b" and b: "\<not> busy s b"
  shows "\<exists>x k. bread 1 n s = Ok (b, took b x k s) \<and> hw_same (hw s) k \<and> filled s n b x"
proof -
  let ?x = "(the_buf s b)\<lparr>brefcnt := brefcnt (the_buf s b) + 1\<rparr>"
  have ok: "bok s" "buf_ok s b" using inv c by (simp_all add: binv_def caches_def)
  have lru: "set (lru s) = {..<length (bufs s)}" using inv by (simp add: binv_def)
  have "find (\<lambda>b. bdev (the_buf s b) = 1 \<and> blockno (the_buf s b) = n) (lru s) = Some b" (is "find ?P _ = _")
  proof (cases "find ?P (lru s)")
    case None
    then show ?thesis using find_in(2) [OF lru None, of b] c by (simp add: caches_def)
  next
    case (Some i)
    then have "caches s n i" using find_in(1) [OF lru Some] by (simp add: caches_def)
    with c Some inv show ?thesis by (auto simp: binv_def)
  qed
  with ok(1) obtain k where "bget 1 n s = Ok (b, took b ?x k s)" "hw_same (hw s) k"
    using bget_take [OF ok(1) b, of ?x]
    by (auto simp: bget_def upd_buf_def Let_def bok_def hw_simps)
  moreover have "filled s n b ?x"
    using ok(2) b c view_hit [OF inv c] by (auto simp: filled_def buf_ok_def caches_def Let_def)
  ultimately show ?thesis by (intro exI [of _ ?x] exI [of _ k]) (simp add: bread_def filled_def)
qed

lemma bread_miss:
  assumes inv: "binv s" and c: "\<nexists>i. caches s n i" and sp: "spare s \<noteq> {}" and n: "n < disksize s"
  shows "\<exists>b x k. bread 1 n s = Ok (b, took b x k s) \<and> hw_same (hw s) k \<and> filled s n b x"
proof -
  let ?P = "\<lambda>b. brefcnt (the_buf s b) = 0 \<and> \<not> bdirty (the_buf s b)"
  have ok: "bok s" and bufs: "\<And>i. i < length (bufs s) \<Longrightarrow> buf_ok s i" using inv by (simp_all add: binv_def)
  have lru: "set (lru s) = {..<length (bufs s)}" "set (rev (lru s)) = {..<length (bufs s)}" using inv by (simp_all add: binv_def)
  have miss: "find (\<lambda>b. bdev (the_buf s b) = 1 \<and> blockno (the_buf s b) = n) (lru s) = None" (is "find ?Q _ = _")
  proof (cases "find ?Q (lru s)")
    case (Some i)
    then show ?thesis using find_in(1) [OF lru(1) Some] c by (auto simp: caches_def)
  qed
  obtain i where i: "i < length (bufs s)" "?P i"
    using sp bufs by (fastforce simp: spare_def buf_ok_def Let_def)
  obtain b where find: "find ?P (rev (lru s)) = Some b"
    using find_in(2) [OF lru(2), of ?P i] i by (cases "find ?P (rev (lru s))") auto
  then have b: "b < length (bufs s)" "?P b" using find_in(1) [OF lru(2) find] by auto
  with bufs [OF b(1)] have idle: "\<not> busy s b" by (auto simp: buf_ok_def Let_def split: if_splits)
  let ?y = "(the_buf s b)\<lparr>bdev := 1, blockno := n, bvalid := False, bdirty := False, brefcnt := 1\<rparr>"
  obtain k where k: "bget 1 n s = Ok (b, took b ?y k s)" "hw_same (hw s) k"
    using bget_take [OF ok idle, of ?y] ok miss find
    by (auto simp: bget_def upd_buf_def Let_def bok_def hw_simps)
  let ?t = "took b ?y k s" and ?x = "?y\<lparr>bdata := disk s n, bvalid := True\<rparr>"
  obtain j where j: "iderw b ?t = Ok (?t\<lparr>hw := j, bufs := (bufs ?t)[b := ?x]\<rparr>)" "hw_same k j"
    using iderw_fill [of ?t b] took_bok [OF ok k(2)] b n by auto
  have "?t\<lparr>hw := j, bufs := (bufs ?t)[b := ?x]\<rparr> = took b ?x j s" by (simp add: took_def)
  with k j b have "bread 1 n s = Ok (b, took b ?x j s)" by (simp add: bread_def)
  moreover have "filled s n b ?x" using b idle c view_miss [OF c] by (simp add: filled_def)
  ultimately show ?thesis using hw_same_trans [OF k(2) j(2)] by blast
qed

text \<open>The contract. \<open>held\<close> are the buffers in use, \<open>dirties\<close> the blocks that are pinned; nothing
  outside the cache and the disk changes, and the spin locks and the locks of the inodes stay as they are.\<close>

definition held :: "'z bstate_scheme \<Rightarrow> nat set" where
  "held s = {i. i < length (bufs s) \<and> busy s i}"

definition dirties :: "'z bstate_scheme \<Rightarrow> uint set" where
  "dirties s = {n. \<exists>i. caches s n i \<and> bdirty (the_buf s i)}"

definition bcopy :: "'z bstate_scheme \<Rightarrow> 'z bstate_scheme \<Rightarrow> 'z bstate_scheme" where
  "bcopy t s = s\<lparr>hw := hw t, procs := procs t, slocks := slocks t, bufs := bufs t, lru := lru t, disk := disk t, wtrace := wtrace t\<rparr>"

definition bmod :: "'z bstate_scheme \<Rightarrow> 'z bstate_scheme \<Rightarrow> bool" where
  "bmod s t \<longleftrightarrow> length (bufs t) = length (bufs s) \<and> bcopy t s = t \<and> still s t \<and> (\<forall>i. slocks t (InodeLock i) = slocks s (InodeLock i))"

lemma bmod_refl [simp]: "bmod s s"
  by (simp add: bmod_def bcopy_def)

lemma bmod_trans:
  assumes "bmod s t" "bmod t u"
  shows "bmod s u"
proof -
  have "bcopy u s = bcopy u (bcopy t s)" by (simp add: bcopy_def)
  with assms still_trans [of s t u] show ?thesis by (simp add: bmod_def)
qed

lemma bcopy_sel: "disksize (bcopy t s) = disksize s" "mem (bcopy t s) = mem s"
  by (simp_all add: bcopy_def)

lemma bmod_same: "bmod s t \<Longrightarrow> disksize t = disksize s" "bmod s t \<Longrightarrow> mem t = mem s"
  "bmod s t \<Longrightarrow> length (bufs t) = length (bufs s)"
  by (metis bmod_def bcopy_def bcopy_sel)+

lemma caches_took: "filled s n b x \<Longrightarrow> caches (took b x k s) m i \<longleftrightarrow> (if i = b then m = n else caches s m i)"
  by (auto simp: caches_def filled_def)

lemma filled_unique: "binv s \<Longrightarrow> filled s n b x \<Longrightarrow> caches s n i \<Longrightarrow> i = b"
  by (auto simp: binv_def filled_def)

lemma took_view:
  assumes inv: "binv s" and x: "filled s n b x" and "hw_same (hw s) k"
  shows "binv (took b x k s)" and "view (took b x k s) = view s"
proof -
  let ?t = "took b x k s"
  have b: "b < length (bufs s)" "\<not> busy s b" "buf_ok s b" using inv x by (auto simp: filled_def binv_def)
  have bok: "bok ?t" "me_pid ?t = me_pid s" using took_bok [OF _ assms(3)] inv by (auto simp: binv_def)
  have "buf_ok ?t i" if "i < length (bufs s)" for i
  proof (cases "i = b")
    case True
    then show ?thesis using x bok(2) b by (simp add: buf_ok_def filled_def Let_def)
  next
    case False
    then show ?thesis using inv that bok(2) by (simp add: buf_ok_def binv_def Let_def)
  qed
  then show t: "binv ?t" using inv bok(1) filled_unique [OF inv x]
    by (auto simp: binv_def caches_took [OF x] split: if_splits)
  show "view ?t = view s"
  proof
    fix m
    show "view ?t m = view s m"
    proof (cases "\<exists>i. caches ?t m i")
      case True
      then obtain i where i: "caches ?t m i" by blast
      show ?thesis
      proof (cases "i = b")
        case True
        then show ?thesis using view_hit [OF t i] x b i by (simp add: caches_took [OF x]) (simp add: filled_def)
      next
        case False
        then show ?thesis using view_hit [OF t i] view_hit [OF inv, of m i] i by (simp add: caches_took [OF x])
      qed
    next
      case False
      then have new: "\<And>i. i \<noteq> b \<Longrightarrow> \<not> caches s m i" "m \<noteq> n" by (metis caches_took [OF x])+
      show ?thesis
      proof (cases "caches s m b")
        case True
        then have "\<not> caches s n b" using new(2) by (auto simp: caches_def)
        then have "\<not> bdirty (the_buf s b)" using x by (auto simp: filled_def)
        then show ?thesis using True b view_hit [OF inv True] view_miss [OF False]
          by (auto simp: buf_ok_def caches_def Let_def)
      next
        case 2: False
        then have "\<nexists>i. caches s m i" using new by metis
        then show ?thesis using view_miss False by (metis took_sel(3))
      qed
    qed
  qed
qed

section \<open>The operations\<close>

text \<open>\<open>kept s t\<close>: both are good states that differ in the cache only, with the same view and disk.\<close>

definition kept :: "'z bstate_scheme \<Rightarrow> 'z bstate_scheme \<Rightarrow> bool" where
  "kept s t \<longleftrightarrow> binv t \<and> bmod s t \<and> view t = view s \<and> disk t = disk s \<and> wtrace t = wtrace s \<and> dirties t = dirties s"

definition opened :: "'z bstate_scheme \<Rightarrow> uint \<Rightarrow> nat \<Rightarrow> 'z bstate_scheme \<Rightarrow> bool" where
  "opened s n b t \<longleftrightarrow> kept s t \<and> b \<notin> held s \<and> held t = insert b (held s) \<and> spare t = spare s - {b}
     \<and> caches t n b \<and> bdata (the_buf t b) = view s n \<and> (bdirty (the_buf t b) \<longleftrightarrow> n \<in> dirties s)
     \<and> (\<forall>i. i \<noteq> b \<longrightarrow> the_buf t i = the_buf s i) \<and> (\<forall>i. bdirty (the_buf t i) = bdirty (the_buf s i))"

lemma took_opened:
  assumes inv: "binv s" and x: "filled s n b x" and k: "hw_same (hw s) k"
  shows "opened s n b (took b x k s)"
proof -
  let ?t = "took b x k s"
  have b: "b < length (bufs s)" "\<not> busy s b" "bdirty x = bdirty (the_buf s b)" "bdata x = view s n" using x by (auto simp: filled_def)
  have d: "bdirty (the_buf s b) \<Longrightarrow> caches s n b" using x by (auto simp: filled_def)
  have c: "caches s m b \<Longrightarrow> caches s n b \<Longrightarrow> m = n" for m by (simp add: caches_def)
  have "bmod s ?t" using k by (simp add: bmod_def bcopy_def took_def still_def)
  moreover have dir: "(\<exists>i. caches ?t m i \<and> bdirty (the_buf ?t i)) \<longleftrightarrow> (\<exists>i. caches s m i \<and> bdirty (the_buf s i))" for m
  proof -
    have "caches ?t m i \<and> bdirty (the_buf ?t i) \<longleftrightarrow> caches s m i \<and> bdirty (the_buf s i)" for i
      using b d c by (cases "i = b") (auto simp: caches_took [OF x])
    then show ?thesis by blast
  qed
  moreover have "bdirty x \<longleftrightarrow> n \<in> dirties s"
    using b(3) d filled_unique [OF inv x] by (auto simp: dirties_def)
  moreover have same: "bdirty (the_buf ?t i) = bdirty (the_buf s i)" for i using b by (cases "i = b") simp_all
  moreover have "held ?t = insert b (held s)" "spare ?t = spare s - {b}"
  proof -
    have "busy ?t i \<longleftrightarrow> i = b \<or> busy s i" for i by (cases "i = b") simp_all
    with same show "held ?t = insert b (held s)" "spare ?t = spare s - {b}" using b(1) by (auto simp: held_def spare_def)
  qed
  ultimately show ?thesis using took_view [OF assms] b
    by (simp add: opened_def kept_def dirties_def held_def caches_took [OF x])
qed

lemma bread_ok:
  assumes "binv s" "n < disksize s" "\<And>i. i \<in> held s \<Longrightarrow> \<not> caches s n i" "n \<in> dirties s \<or> spare s \<noteq> {}"
  obtains b t where "bread 1 n s = Ok (b, t)" "opened s n b t"
proof (cases "\<exists>i. caches s n i")
  case True
  then obtain i where i: "caches s n i" by blast
  then have "\<not> busy s i" using assms(3) by (auto simp: held_def caches_def)
  with bread_hit [OF assms(1) i] took_opened [OF assms(1)] that show ?thesis by blast
next
  case False
  then have "spare s \<noteq> {}" using assms(4) by (auto simp: dirties_def)
  with bread_miss [OF assms(1) False _ assms(2)] took_opened [OF assms(1)] that show ?thesis by blast
qed

text \<open>Changing the data of a buffer in use.\<close>

definition poke :: "nat \<Rightarrow> block \<Rightarrow> 'z bstate_scheme \<Rightarrow> 'z bstate_scheme" where
  "poke b d s = upd_buf b (\<lambda>x. x\<lparr>bdata := d\<rparr>) s"

text \<open>The disk after a sequence of writes, and a state that has made them.\<close>

definition replay :: "(uint \<times> block) list \<Rightarrow> (uint \<Rightarrow> block) \<Rightarrow> uint \<Rightarrow> block" where
  "replay ws d = fold (\<lambda>(n, b) d. d(n := b)) ws d"

lemma replay_simps [simp]:
  "replay [] d = d" "replay ((n, b) # ws) d = replay ws (d(n := b))" "replay (ws @ ws') d = replay ws' (replay ws d)"
  by (simp_all add: replay_def)

lemma replay_other: "n \<notin> fst ` set ws \<Longrightarrow> replay ws d n = d n"
proof (induction ws arbitrary: d)
  case (Cons w ws)
  then show ?case by (cases w) simp
qed simp

lemma replay_in: "(n, b) \<in> set ws \<Longrightarrow> distinct (map fst ws) \<Longrightarrow> replay ws d n = b"
proof (induction ws arbitrary: d)
  case (Cons w ws)
  then show ?case by (cases w) (auto simp: replay_other)
qed simp

definition did :: "'z bstate_scheme \<Rightarrow> (uint \<times> block) list \<Rightarrow> 'z bstate_scheme \<Rightarrow> bool" where
  "did s ws t \<longleftrightarrow> binv t \<and> bmod s t \<and> view t = replay ws (view s) \<and> disk t = replay ws (disk s)
     \<and> wtrace t = wtrace s @ ws \<and> dirties t = dirties s - fst ` set ws"

lemma did_kept: "did s [] t \<longleftrightarrow> kept s t"
  by (auto simp: did_def kept_def)

lemma did_trans: "did s ws t \<Longrightarrow> did t ws' u \<Longrightarrow> did s (ws @ ws') u"
  using bmod_trans [of s t u] by (auto simp: did_def)

lemma did_kept_trans: "did s ws t \<Longrightarrow> kept t u \<Longrightarrow> did s ws u" "kept s t \<Longrightarrow> did t ws u \<Longrightarrow> did s ws u"
  using did_trans [of s ws t "[]" u] did_trans [of s "[]" t ws u] by (simp_all add: did_kept)

text \<open>A change of one buffer in use, perhaps with a write to the disk.\<close>

lemma bmod_upd: "length B = length (bufs s) \<Longrightarrow> hw_same (hw s) k \<Longrightarrow> bmod s (s\<lparr>hw := k, bufs := B, disk := D, wtrace := w\<rparr>)"
  unfolding bmod_def bcopy_def by (intro conjI bstate.equality) (simp_all add: still_def)

lemma set_buf:
  fixes s t :: "'z bstate_scheme"
  assumes inv: "binv s" and b: "b \<in> held s" "caches s n b" and k: "hw_same (hw s) k" and D: "\<And>m. m \<noteq> n \<Longrightarrow> D m = disk s m"
    and t: "t = s\<lparr>hw := k, bufs := (bufs s)[b := (the_buf s b)\<lparr>bdata := d, bdirty := e, bvalid := True\<rparr>], disk := D, wtrace := w\<rparr>"
  shows "binv t" "bmod s t" "view t = (view s)(n := d)" "dirties t = (if e then insert n (dirties s) else dirties s - {n})"
    "held t = held s" "spare t = spare s" "\<And>m i. caches t m i = caches s m i" "\<And>i. i \<noteq> b \<Longrightarrow> the_buf t i = the_buf s i"
proof -
  have ok: "bok s" "buf_ok s b" "b < length (bufs s)" "busy s b" using inv b by (auto simp: binv_def held_def)
  have buf: "the_buf t i = (if i = b then (the_buf s b)\<lparr>bdata := d, bdirty := e, bvalid := True\<rparr> else the_buf s i)" for i
    using ok(3) t by simp
  have busy: "slocks t = slocks s" and len: "length (bufs t) = length (bufs s)" and disk: "disk t = D" using t by simp_all
  show c: "caches t m i = caches s m i" for m i using buf len by (simp add: caches_def)
  show "held t = held s" using busy len by (simp add: held_def)
  have uniq: "i \<noteq> b \<Longrightarrow> \<not> caches s n i" for i using inv b by (auto simp: binv_def)
  have uniqn: "m \<noteq> n \<Longrightarrow> \<not> caches s m b" for m using b by (simp add: caches_def)
  show "spare t = spare s" using busy len buf ok(4) by (auto simp: spare_def)
  show "the_buf t i = the_buf s i" if "i \<noteq> b" for i using buf that by simp
  show "bmod s t" unfolding t by (rule bmod_upd) (simp_all add: k)
  show "dirties t = (if e then insert n (dirties s) else dirties s - {n})"
  proof (rule set_eqI)
    fix m
    have "caches s m i \<and> bdirty (the_buf t i) \<longleftrightarrow> (if m = n then i = b \<and> e else caches s m i \<and> bdirty (the_buf s i))" for i
    proof (cases "i = b")
      case True
      have "bdirty (the_buf t b) = e" using buf [of b] by simp
      with True b(2) uniqn [of m] show ?thesis by auto
    next
      case False
      then have "the_buf t i = the_buf s i" using buf [of i] by simp
      with False uniq [of i] show ?thesis by auto
    qed
    then show "m \<in> dirties t \<longleftrightarrow> m \<in> (if e then insert n (dirties s) else dirties s - {n})" by (cases "m = n"; cases e) (simp_all add: dirties_def c)
  qed
  have bok: "bok t" "me_pid t = me_pid s" using bok_still [of s t] ok(1) k t by (simp_all add: still_def)
  have "buf_ok t i" if "i < length (bufs s)" for i
  proof (cases "i = b")
    case True
    then show ?thesis using ok buf busy bok(2) b(2) by (simp add: buf_ok_def caches_def Let_def)
  next
    case False
    then have "bdev (the_buf s i) = 1 \<longrightarrow> blockno (the_buf s i) \<noteq> n" using uniq that by (auto simp: caches_def)
    then show ?thesis using inv that buf busy bok(2) False disk D by (auto simp: buf_ok_def binv_def Let_def)
  qed
  then show tinv: "binv t" using inv bok(1) c t len by (simp add: binv_def)
  have "view t m = ((view s)(n := d)) m" for m
  proof (cases "\<exists>i. caches s m i")
    case True
    then obtain i where i: "caches s m i" by blast
    then have i': "caches t m i" using c by simp
    show ?thesis using view_hit [OF inv i] view_hit [OF tinv i'] buf uniq uniqn i b by auto
  next
    case False
    then have F: "\<nexists>i. caches t m i" using c by simp
    show ?thesis using view_miss [OF False] view_miss [OF F] D disk False b by auto
  qed
  then show "view t = (view s)(n := d)" by (rule ext)
qed

lemma bwrite_ok:
  assumes inv: "binv s" and b: "b \<in> held s" "caches s n b" and n: "n < disksize s"
  shows "\<exists>t. bwrite b (poke b d s) = Ok t \<and> did s [(n, d)] t \<and> held t = held s \<and> spare t = spare s
       \<and> caches t n b \<and> \<not> bdirty (the_buf t b) \<and> bdata (the_buf t b) = d \<and> (\<forall>i. i \<noteq> b \<longrightarrow> the_buf t i = the_buf s i)"
proof -
  let ?x = "(the_buf s b)\<lparr>bdata := d, bdirty := True\<rparr>" and ?y = "(the_buf s b)\<lparr>bdata := d, bdirty := False, bvalid := True\<rparr>"
  let ?p = "poke b d s"
  have ok: "bok s" "buf_ok s b" "b < length (bufs s)" "busy s b" using inv b by (auto simp: binv_def held_def)
  have own: "slpid (slocks s (BufLock b)) = me_pid s" "bdev (the_buf s b) = 1" "blockno (the_buf s b) = n" "brefcnt (the_buf s b) = 1"
    using ok b(2) by (simp_all add: buf_ok_def caches_def Let_def)
  have p: "bok ?p" "me_pid ?p = me_pid s" using bok_still [of s ?p] ok(1) by (simp_all add: still_def poke_def upd_buf_def)
  obtain k where k: "holdingsleep (BufLock b) ?p = Ok (True, ?p\<lparr>hw := k\<rparr>)" "hw_same (hw s) k"
    using holdingsleep_ok [OF p(1), of "BufLock b"] ok(4) own(1) p(2) by (auto simp: poke_def upd_buf_def)
  let ?q = "s\<lparr>hw := k, bufs := (bufs s)[b := ?x]\<rparr>"
  have q: "upd_buf b (\<lambda>x. x\<lparr>bdirty := True\<rparr>) (?p\<lparr>hw := k\<rparr>) = ?q" using ok(3) by (simp add: poke_def upd_buf_def)
  have qok: "bok ?q" "me_pid ?q = me_pid s" using bok_still [of s ?q] ok(1) k(2) by (simp_all add: still_def)
  obtain j where j: "iderw b ?q = Ok (disk_write n d (?q\<lparr>hw := j, bufs := (bufs ?q)[b := ?y]\<rparr>))" "hw_same k j"
    using iderw_flush [OF qok(1), of b] ok own qok(2) n by auto
  let ?t = "disk_write n d (?q\<lparr>hw := j, bufs := (bufs ?q)[b := ?y]\<rparr>)"
  have t: "?t = s\<lparr>hw := j, bufs := (bufs s)[b := ?y], disk := (disk s)(n := d), wtrace := wtrace s @ [(n, d)]\<rparr>"
    by (simp add: disk_write_def)
  have "bwrite b ?p = Ok ?t" using k(1) j(1) q by (simp add: bwrite_def)
  moreover note set_buf [OF inv b hw_same_trans [OF k(2) j(2)], where D = "(disk s)(n := d)" and t = ?t and d = d and e = False and w = "wtrace s @ [(n, d)]"]
  ultimately show ?thesis using ok(3) b(2) t by (intro exI [of _ ?t]) (simp add: did_def)
qed

text \<open>Giving a buffer back: it goes to the front of the list.\<close>

definition gave :: "nat \<Rightarrow> hw \<Rightarrow> proc list \<Rightarrow> 'z bstate_scheme \<Rightarrow> 'z bstate_scheme" where
  "gave b k ps s = s\<lparr>hw := k, procs := ps, slocks := (slocks s)(BufLock b := (slocks s (BufLock b))\<lparr>slocked := False, slpid := 0\<rparr>),
     bufs := (bufs s)[b := (the_buf s b)\<lparr>brefcnt := 0\<rparr>], lru := b # remove1 b (lru s)\<rparr>"

lemma gave_sel [simp]:
  "hw (gave b k ps s) = k" "procs (gave b k ps s) = ps" "disk (gave b k ps s) = disk s" "lru (gave b k ps s) = b # remove1 b (lru s)"
  "wtrace (gave b k ps s) = wtrace s" "length (bufs (gave b k ps s)) = length (bufs s)"
  "b < length (bufs s) \<Longrightarrow> the_buf (gave b k ps s) b = (the_buf s b)\<lparr>brefcnt := 0\<rparr>"
  "i \<noteq> b \<Longrightarrow> the_buf (gave b k ps s) i = the_buf s i"
  "\<not> busy (gave b k ps s) b" "i \<noteq> b \<Longrightarrow> slocks (gave b k ps s) (BufLock i) = slocks s (BufLock i)"
  by (simp_all add: gave_def)

lemma brelse_run:
  assumes inv: "binv s" and b: "b \<in> held s"
  shows "\<exists>k ps. brelse b s = Ok (gave b k ps s) \<and> hw_same (hw s) k \<and> map pid ps = map pid (procs s)"
proof -
  have ok: "bok s" "buf_ok s b" "b < length (bufs s)" "busy s b" using inv b by (auto simp: binv_def held_def)
  obtain k where k: "holdingsleep (BufLock b) s = Ok (True, s\<lparr>hw := k\<rparr>)" "hw_same (hw s) k"
    using holdingsleep_ok [OF ok(1), of "BufLock b"] ok by (auto simp: buf_ok_def Let_def)
  let ?s = "s\<lparr>hw := k\<rparr>"
  have s: "bok ?s" using bok_still(1) [of s ?s] ok(1) k(2) by (simp add: still_def)
  obtain j ps where j: "releasesleep (BufLock b) ?s = Ok (?s\<lparr>hw := j, procs := ps,
       slocks := (slocks s)(BufLock b := (slocks s (BufLock b))\<lparr>slocked := False, slpid := 0\<rparr>)\<rparr>)"
     "hw_same k j" "map pid ps = map pid (procs s)"
    using releasesleep_ok [OF s, of "BufLock b"] by auto
  have same: "hw_same (hw s) j" using hw_same_trans [OF k(2) j(2)] .
  then have h: "hw_ok j" "lock_free BcacheLock j" using hw_same_ok hw_same_free ok(1) by (auto simp: bok_def)
  let ?h = "acquired (mem s) BcacheLock j"
  let ?u = "(gave b j ps s)\<lparr>hw := ?h\<rparr>"
  have "brefcnt (the_buf s b) = 1" using ok by (simp add: buf_ok_def Let_def)
  then have "brelse b s = unlock BcacheLock ?u"
    using k(1) j(1) h ok(3) by (simp add: brelse_def hw_simps upd_buf_def Let_def gave_def)
  also have "\<dots> = Ok (gave b (cycled (mem s) BcacheLock j) ps s)"
    using unlock_ok [of ?u "mem s" BcacheLock j] h(1) by (simp add: gave_def)
  finally show ?thesis using hw_same_trans [OF same hw_same_cycled [OF h]] j(3) by blast
qed

lemma brelse_ok:
  assumes inv: "binv s" and b: "b \<in> held s" and d: "bdirty (the_buf s b) \<or> bdata (the_buf s b) = disk s (blockno (the_buf s b))"
  shows "\<exists>t. brelse b s = Ok t \<and> kept s t \<and> held t = held s - {b} \<and> spare s \<subseteq> spare t
      \<and> (\<not> bdirty (the_buf s b) \<longrightarrow> b \<in> spare t) \<and> (\<forall>m i. caches t m i = caches s m i)
      \<and> (\<forall>i. bdata (the_buf t i) = bdata (the_buf s i) \<and> bdirty (the_buf t i) = bdirty (the_buf s i))"
proof -
  obtain k ps where run: "brelse b s = Ok (gave b k ps s)" "hw_same (hw s) k" "map pid ps = map pid (procs s)"
    using brelse_run [OF inv b] by blast
  let ?t = "gave b k ps s"
  have ok: "bok s" "buf_ok s b" "b < length (bufs s)" "busy s b" using inv b by (auto simp: binv_def held_def)
  have buf: "bdata (the_buf ?t i) = bdata (the_buf s i)" "bdirty (the_buf ?t i) = bdirty (the_buf s i)"
    "bdev (the_buf ?t i) = bdev (the_buf s i)" "blockno (the_buf ?t i) = blockno (the_buf s i)" for i
    using ok(3) by (cases "i = b"; simp)+
  have busy: "busy ?t i \<longleftrightarrow> i \<noteq> b \<and> busy s i" for i by (cases "i = b") simp_all
  have c: "caches ?t m i = caches s m i" for m i using buf by (simp add: caches_def)
  have bok: "bok ?t" "me_pid ?t = me_pid s" using bok_still [of s ?t] ok(1) run by (simp_all add: still_def)
  have "buf_ok ?t i" if "i < length (bufs s)" for i
  proof (cases "i = b")
    case True
    then show ?thesis using ok d by (auto simp: buf_ok_def Let_def)
  next
    case False
    then show ?thesis using inv that bok(2) by (simp add: buf_ok_def binv_def Let_def)
  qed
  moreover have "distinct (lru ?t)" "set (lru ?t) = {..<length (bufs s)}" using inv ok(3) by (auto simp: binv_def)
  ultimately have t: "binv ?t" using inv bok(1) c by (simp add: binv_def)
  moreover have "view ?t = view s"
  proof
    show "view ?t m = view s m" for m
      using view_hit [OF t] view_hit [OF inv] view_miss [of ?t] view_miss [of s m] c buf by (cases "\<exists>i. caches s m i") auto
  qed
  moreover have "bmod s ?t" unfolding bmod_def bcopy_def by (intro conjI bstate.equality) (use run(2,3) in \<open>simp_all add: gave_def still_def\<close>)
  ultimately have "kept s ?t" using c buf by (simp add: kept_def dirties_def)
  then show ?thesis using run(1) c buf busy ok(3) by (intro exI [of _ ?t]) (auto simp: held_def spare_def)
qed

section \<open>Clients\<close>

text \<open>A clean block that nobody uses is on the disk.\<close>

lemma view_clean:
  assumes inv: "binv s" and n: "n \<notin> dirties s" "\<And>i. i \<in> held s \<Longrightarrow> \<not> caches s n i"
  shows "view s n = disk s n"
proof (cases "\<exists>i. caches s n i")
  case True
  then obtain i where i: "caches s n i" by blast
  then have "buf_ok s i" "\<not> busy s i" "\<not> bdirty (the_buf s i)"
    using inv n by (auto simp: binv_def caches_def held_def dirties_def)
  then show ?thesis using view_hit [OF inv i] i by (auto simp: buf_ok_def caches_def Let_def)
qed (simp add: view_miss)

text \<open>Opening two blocks, and copying one to the other as the log does.\<close>

lemma two_open:
  assumes inv: "binv s" and free: "held s = {}" and ac: "a \<noteq> c" "a < disksize s" "c < disksize s"
    and room: "spare s \<noteq> {}" "c \<in> dirties s \<or> (\<nexists>i. spare s = {i})"
  obtains x y t u where "bread 1 a s = Ok (x, t)" "bread 1 c t = Ok (y, u)" "bmod s t" "kept s u"
    "held u = {x, y}" "x \<noteq> y" "caches u a x" "caches u c y" "spare u = spare s - {x, y}"
    "bdata (the_buf u x) = view s a" "bdata (the_buf u y) = view s c"
    "bdirty (the_buf u x) \<longleftrightarrow> a \<in> dirties s" "bdirty (the_buf u y) \<longleftrightarrow> c \<in> dirties s"
    "\<And>z. z \<in> spare s \<Longrightarrow> \<not> bdirty (the_buf u z)"
proof -
  obtain x t where x: "bread 1 a s = Ok (x, t)" "opened s a x t"
    using bread_ok [OF inv ac(2)] free room(1) by blast
  have t: "binv t" "held t = {x}" "disksize t = disksize s" "dirties t = dirties s" "spare t = spare s - {x}" "caches t a x"
    "bmod s t" "view t = view s" using x(2) free bmod_same(1) by (auto simp: opened_def kept_def)
  then have roomt: "c \<in> dirties t \<or> spare t \<noteq> {}" using room by auto
  have "\<not> caches t c x" using t(6) ac(1) by (simp add: caches_def)
  then have freet: "\<And>i. i \<in> held t \<Longrightarrow> \<not> caches t c i" using t(2) by simp
  have "c < disksize t" using t(3) ac(3) by simp
  then obtain y u where y: "bread 1 c t = Ok (y, u)" "opened t c y u" using bread_ok [OF t(1) _ freet roomt] by blast
  have ne: "x \<noteq> y" using t(2) y(2) by (auto simp: opened_def)
  have bx: "the_buf u x = the_buf t x" using y(2) ne by (simp add: opened_def)
  have "length (bufs u) = length (bufs t)" using y(2) bmod_same(3) [of t u] by (simp add: opened_def kept_def)
  then have "caches u a x" using t(6) bx by (simp add: caches_def)
  moreover have "kept s u" using x(2) y(2) bmod_trans [of s t u] by (simp add: opened_def kept_def)
  moreover have "held u = {x, y}" "spare u = spare s - {x, y}" "caches u c y" "bdata (the_buf u y) = view s c"
    "bdirty (the_buf u y) \<longleftrightarrow> c \<in> dirties s" using y(2) t by (auto simp: opened_def)
  moreover have "bdata (the_buf u x) = view s a" "bdirty (the_buf u x) \<longleftrightarrow> a \<in> dirties s" using x(2) bx by (auto simp: opened_def)
  moreover have "\<not> bdirty (the_buf u z)" if "z \<in> spare s" for z using that x(2) y(2) by (simp add: opened_def spare_def)
  ultimately show thesis using that [OF x(1) y(1) t(7)] ne by blast
qed

lemma copy_close:
  assumes inv: "binv u" and two: "held u = {x, y}" "x \<noteq> y" "caches u a x" "caches u c y" "c < disksize u"
    and x: "bdirty (the_buf u x) \<or> bdata (the_buf u x) = disk u a"
  obtains v w t where "bwrite y (poke y (bdata (the_buf u x)) u) = Ok v" "brelse x v = Ok w" "brelse y w = Ok t"
    "did u [(c, bdata (the_buf u x))] t" "held t = {}" "spare u \<subseteq> spare t" "y \<in> spare t"
    "\<not> bdirty (the_buf u x) \<Longrightarrow> x \<in> spare t"
proof -
  let ?d = "bdata (the_buf u x)"
  obtain v where v: "bwrite y (poke y ?d u) = Ok v" "did u [(c, ?d)] v" "held v = held u" "spare v = spare u"
      "caches v c y" "\<not> bdirty (the_buf v y)" "bdata (the_buf v y) = ?d" "\<forall>i. i \<noteq> y \<longrightarrow> the_buf v i = the_buf u i"
    using bwrite_ok [OF inv _ two(4,5), of ?d] two(1) by auto
  have vx: "the_buf v x = the_buf u x" "binv v" "disk v = (disk u)(c := ?d)" using v two(2) by (auto simp: did_def)
  have "a \<noteq> c" using two inv by (auto simp: binv_def)
  then have "bdirty (the_buf v x) \<or> bdata (the_buf v x) = disk v (blockno (the_buf v x))" using x vx two(3) by (auto simp: caches_def)
  then obtain w where w: "brelse x v = Ok w" "kept v w" "held w = held v - {x}" "spare v \<subseteq> spare w"
      "\<not> bdirty (the_buf v x) \<Longrightarrow> x \<in> spare w" "\<And>m i. caches w m i = caches v m i"
      "\<And>i. bdata (the_buf w i) = bdata (the_buf v i)" "\<And>i. bdirty (the_buf w i) = bdirty (the_buf v i)"
    using brelse_ok [OF vx(2), of x] v(3) two(1) by auto
  have "blockno (the_buf w y) = c" using w(6) v(5) by (auto simp: caches_def)
  then have wy: "bdata (the_buf w y) = disk w (blockno (the_buf w y))" using w(2,7) v(7) vx(3) by (simp add: kept_def)
  have inw: "binv w" "y \<in> held w" using w(2,3) v(3) two(1,2) by (auto simp: kept_def)
  obtain t where t: "brelse y w = Ok t" "kept w t" "held t = held w - {y}" "spare w \<subseteq> spare t"
      "\<not> bdirty (the_buf w y) \<Longrightarrow> y \<in> spare t"
    using brelse_ok [OF inw] wy by blast
  have "did u [(c, ?d)] t" using did_kept_trans v(2) w(2) t(2) by blast
  moreover have "held t = {}" using t(3) w(3) v(3) two(1) by auto
  moreover have "spare u \<subseteq> spare t" using t(4) w(4) v(4) by auto
  moreover have "y \<in> spare t" using t(5) w(8) v(6) by simp
  moreover have "\<not> bdirty (the_buf u x) \<Longrightarrow> x \<in> spare t" using t(4) w(5) vx(1) by auto
  ultimately show thesis using that [OF v(1) w(1) t(1)] by blast
qed

text \<open>Rewriting one block.\<close>

lemma rewrite_ok:
  assumes inv: "binv s" and free: "held s = {}" and n: "n < disksize s" and room: "n \<in> dirties s \<or> spare s \<noteq> {}"
  obtains b t v w where "bread 1 n s = Ok (b, t)" "bmod s t" "bdata (the_buf t b) = view s n"
    "bwrite b (poke b d t) = Ok v" "brelse b v = Ok w" "did s [(n, d)] w" "held w = {}" "spare s \<subseteq> spare w"
proof -
  obtain b t where b: "bread 1 n s = Ok (b, t)" "opened s n b t" using bread_ok [OF inv n _ room] free by blast
  have t: "binv t" "b \<in> held t" "caches t n b" "held t = {b}" "spare t = spare s - {b}" "bmod s t" "kept s t"
    using b(2) free by (auto simp: opened_def kept_def)
  have "n < disksize t" using n bmod_same(1) [OF t(6)] by simp
  then obtain v where v: "bwrite b (poke b d t) = Ok v" "did t [(n, d)] v" "held v = held t" "spare v = spare t"
      "caches v n b" "\<not> bdirty (the_buf v b)" "bdata (the_buf v b) = d"
    using bwrite_ok [OF t(1-3), of d] by auto
  have "bdata (the_buf v b) = disk v (blockno (the_buf v b))" using v(2,5,7) by (simp add: did_def caches_def)
  then obtain w where w: "brelse b v = Ok w" "kept v w" "held w = held v - {b}" "spare v \<subseteq> spare w" "b \<in> spare w"
    using brelse_ok [of v b] v(2,3,6) t(2) by (auto simp: did_def)
  have "did s [(n, d)] w" using did_kept_trans(2) [OF t(7)] did_kept_trans(1) [OF v(2) w(2)] by blast
  then show thesis using that [OF b(1) t(6) _ v(1) w(1)] b(2) w v(3,4) t(4,5) by (auto simp: opened_def)
qed

section \<open>The cache as a store of blocks\<close>

text \<open>A client's requests, a read or a write of a block each, and the answers an array would give.\<close>

primrec serve :: "(uint \<Rightarrow> 's \<Rightarrow> (block \<times> 's) res) \<Rightarrow> (uint \<Rightarrow> block \<Rightarrow> 's \<Rightarrow> 's res) \<Rightarrow> (uint \<times> block option) list \<Rightarrow> 's \<Rightarrow> (block list \<times> 's) res" where
  "serve rd wr [] s = Ok ([], s)"
| "serve rd wr (r # rs) s = (case r of
      (n, None) \<Rightarrow> bindE (rd n s) (\<lambda>(d, s). bindE (serve rd wr rs s) (\<lambda>(ds, s). Ok (d # ds, s)))
    | (n, Some d) \<Rightarrow> bindE (wr n d s) (serve rd wr rs))"

primrec answers :: "(uint \<times> block option) list \<Rightarrow> (uint \<Rightarrow> block) \<Rightarrow> block list" where
  "answers [] c = []"
| "answers (r # rs) c = (case r of (n, None) \<Rightarrow> c n # answers rs c | (n, Some d) \<Rightarrow> answers rs (c(n := d)))"

definition updates :: "(uint \<times> block option) list \<Rightarrow> (uint \<times> block) list" where
  "updates rs = List.map_filter (\<lambda>(n, d). map_option (Pair n) d) rs"

text \<open>A store of blocks: what is written to a block is what is read from it, and nothing else changes.\<close>

locale block_store =
  fixes good :: "'s \<Rightarrow> bool" and contents :: "'s \<Rightarrow> uint \<Rightarrow> block" and in_range :: "'s \<Rightarrow> uint \<Rightarrow> bool"
    and rd :: "uint \<Rightarrow> 's \<Rightarrow> (block \<times> 's) res" and wr :: "uint \<Rightarrow> block \<Rightarrow> 's \<Rightarrow> 's res"
  assumes rd_ok: "good s \<Longrightarrow> in_range s n \<Longrightarrow> \<exists>t. rd n s = Ok (contents s n, t) \<and> good t \<and> contents t = contents s \<and> in_range t = in_range s"
    and wr_ok: "good s \<Longrightarrow> in_range s n \<Longrightarrow> \<exists>t. wr n d s = Ok t \<and> good t \<and> contents t = (contents s)(n := d) \<and> in_range t = in_range s"
begin

lemma serve_ok:
  "good s \<Longrightarrow> (\<And>n d. (n, d) \<in> set rs \<Longrightarrow> in_range s n) \<Longrightarrow>
   \<exists>t. serve rd wr rs s = Ok (answers rs (contents s), t) \<and> good t \<and> contents t = replay (updates rs) (contents s)"
proof (induction rs arbitrary: s)
  case (Cons r rs)
  obtain n d where r: "r = (n, d)" by fastforce
  have n: "in_range s n" and rest: "\<And>m e. (m, e) \<in> set rs \<Longrightarrow> in_range s m" using Cons.prems(2) r by auto
  show ?case
  proof (cases d)
    case None
    obtain t where t: "rd n s = Ok (contents s n, t)" "good t" "contents t = contents s" "in_range t = in_range s"
      using rd_ok [OF Cons.prems(1) n] by blast
    then show ?thesis using Cons.IH [of t] rest r None by (auto simp: updates_def map_filter_simps)
  next
    case (Some e)
    obtain t where t: "wr n e s = Ok t" "good t" "contents t = (contents s)(n := e)" "in_range t = in_range s"
      using wr_ok [OF Cons.prems(1) n] by blast
    then show ?thesis using Cons.IH [of t] rest r Some by (auto simp: updates_def map_filter_simps simp del: fun_upd_apply)
  qed
qed (simp add: updates_def map_filter_simps)

end

definition read_block :: "uint \<Rightarrow> 'z bstate_scheme \<Rightarrow> (block \<times> 'z bstate_scheme) res" where
  "read_block n s = bindE (bread 1 n s) (\<lambda>(b, s). bindE (brelse b s) (\<lambda>t. Ok (bdata (the_buf s b), t)))"

definition write_block :: "uint \<Rightarrow> block \<Rightarrow> 'z bstate_scheme \<Rightarrow> 'z bstate_scheme res" where
  "write_block n d s = bindE (bread 1 n s) (\<lambda>(b, s). bindE (bwrite b (poke b d s)) (brelse b))"

definition cache_idle :: "'z bstate_scheme \<Rightarrow> bool" where
  "cache_idle s \<longleftrightarrow> binv s \<and> held s = {} \<and> spare s \<noteq> {}"

lemma read_block_ok:
  assumes "cache_idle s" "n < disksize s"
  shows "\<exists>t. read_block n s = Ok (view s n, t) \<and> cache_idle t \<and> kept s t \<and> spare s \<subseteq> spare t"
proof -
  have s: "binv s" "held s = {}" "spare s \<noteq> {}" using assms(1) by (simp_all add: cache_idle_def)
  obtain b t where b: "bread 1 n s = Ok (b, t)" "opened s n b t" using bread_ok [OF s(1) assms(2)] s(2,3) by blast
  have t: "binv t" "b \<in> held t" "kept s t" "held t = {b}" "bdata (the_buf t b) = view s n" "spare t = spare s - {b}"
    using b(2) s(2) by (auto simp: opened_def kept_def)
  have "blockno (the_buf t b) = n" using b(2) by (simp add: opened_def caches_def)
  moreover have "view s n = disk s n" if "n \<notin> dirties s" using view_clean [OF s(1) that] s(2) by simp
  ultimately have d: "bdirty (the_buf t b) \<or> bdata (the_buf t b) = disk t (blockno (the_buf t b))"
    using b(2) t(3,5) by (auto simp: opened_def kept_def)
  obtain u where u: "brelse b t = Ok u" "kept t u" "held u = held t - {b}" "spare t \<subseteq> spare u" "\<not> bdirty (the_buf t b) \<longrightarrow> b \<in> spare u"
    using brelse_ok [OF t(1,2) d] by blast
  have "b \<in> spare s \<Longrightarrow> \<not> bdirty (the_buf t b)" using b(2) by (auto simp: opened_def spare_def)
  then have "spare s \<subseteq> spare u" using u(4,5) t(6) by auto
  moreover have "kept s u" using t(3) u(2) did_kept_trans(1) [of s "[]" t u] by (simp add: did_kept)
  ultimately show ?thesis using b(1) u(1,3) t(4,5) s(3) by (auto simp: read_block_def cache_idle_def kept_def)
qed

lemma write_block_ok:
  assumes "cache_idle s" "n < disksize s"
  shows "\<exists>t. write_block n d s = Ok t \<and> cache_idle t \<and> did s [(n, d)] t"
proof -
  have s: "binv s" "held s = {}" "spare s \<noteq> {}" using assms(1) by (simp_all add: cache_idle_def)
  obtain b t v w where "bread 1 n s = Ok (b, t)" "bwrite b (poke b d t) = Ok v" "brelse b v = Ok w" "did s [(n, d)] w" "held w = {}" "spare s \<subseteq> spare w"
    using rewrite_ok [OF s(1,2) assms(2) disjI2 [OF s(3)], of d] by metis
  then show ?thesis using s(3) by (auto simp: write_block_def cache_idle_def did_def)
qed

interpretation bcache: block_store "cache_idle :: 'z bstate_scheme \<Rightarrow> bool" view "\<lambda>s n. n < disksize s" read_block write_block
proof
  fix s :: "'z bstate_scheme" and n d
  assume s: "cache_idle s" "n < disksize s"
  obtain t where t: "read_block n s = Ok (view s n, t)" "cache_idle t" "kept s t" using read_block_ok [OF s] by blast
  then have "view t = view s" "disksize t = disksize s" using bmod_same(1) [of s t] by (simp_all add: kept_def)
  with t show "\<exists>t. read_block n s = Ok (view s n, t) \<and> cache_idle t \<and> view t = view s \<and> (\<lambda>n. n < disksize t) = (\<lambda>n. n < disksize s)"
    by (intro exI [of _ t]) simp
  obtain u where u: "write_block n d s = Ok u" "cache_idle u" "did s [(n, d)] u" using write_block_ok [OF s] by blast
  then have "view u = (view s)(n := d)" "disksize u = disksize s" using bmod_same(1) [of s u] by (simp_all add: did_def)
  with u show "\<exists>t. write_block n d s = Ok t \<and> cache_idle t \<and> view t = (view s)(n := d) \<and> (\<lambda>n. n < disksize t) = (\<lambda>n. n < disksize s)"
    by (intro exI [of _ u]) simp
qed

text \<open>C3: The buffer cache is transparent. Any sequence of reads (\<open>bread\<close>, \<open>brelse\<close>) and writes (\<open>bread\<close>, \<open>bwrite\<close>,
  \<open>brelse\<close>) of blocks on the disk returns; the reads return what an array of blocks that starts with the
  current view would return, whichever buffers were recycled in between, even with a
  single spare buffer; the final view is the array after the writes.\<close>

theorem cache_transparent:
  assumes "cache_idle s" "\<And>n d. (n, d) \<in> set rs \<Longrightarrow> n < disksize s"
  shows "\<exists>t. serve read_block write_block rs s = Ok (answers rs (view s), t) \<and> cache_idle t
     \<and> view t = replay (updates rs) (view s)"
  using assms by (rule bcache.serve_ok)

definition demo_cache :: bstate where
  "demo_cache = demo_b\<lparr>disk := (\<lambda>n _. ucast n)\<rparr>"

lemma demo_cache_idle: "cache_idle demo_cache" and demo_cache_view: "view demo_cache n = (\<lambda>_. ucast n)"
proof -
  have sel: "hw demo_cache = run_hw" "procs demo_cache = demo_proc # replicate 63 idle_proc" "lru demo_cache = [0, 1]"
    "bufs demo_cache = replicate 2 \<lparr>bvalid = False, bdirty = False, bdev = 0, blockno = 0, brefcnt = 0, bdata = (\<lambda>_. 0)\<rparr>"
    "disk demo_cache = (\<lambda>n _. ucast n)" "\<And>i. \<not> busy demo_cache i"
    using demo_s_sel by (simp_all add: demo_cache_def demo_b_def pstate.defs bstate.defs)
  have c: "\<not> caches demo_cache n i" for n i by (auto simp: caches_def sel)
  have "bok demo_cache" using run_hw_ok run_hw_free by (simp add: bok_def sel)
  moreover have "buf_ok demo_cache i" if "i < 2" for i using that sel(6) by (simp add: buf_ok_def sel(4) Let_def)
  ultimately have "binv demo_cache" using c by (auto simp: binv_def sel)
  moreover have "0 \<in> spare demo_cache" by (simp add: spare_def sel)
  ultimately show "cache_idle demo_cache" by (auto simp: cache_idle_def held_def sel)
  show "view demo_cache n = (\<lambda>_. ucast n)" using c view_miss [of demo_cache n] by (simp add: sel)
qed

theorem cache_transparent_witness:
  "\<exists>t. serve read_block write_block [(5, None), (6, Some (\<lambda>_. 9)), (7, None), (8, None), (6, None)] demo_cache
     = Ok ([\<lambda>_. 5, \<lambda>_. 7, \<lambda>_. 8, \<lambda>_. 9], t)"
proof -
  let ?rs = "[(5, None), (6, Some (\<lambda>_. 9)), (7, None), (8, None), (6, None)]"
  have "n < disksize demo_cache" if "(n, d) \<in> set ?rs" for n d using that by (auto simp: demo_cache_def)
  moreover have "answers ?rs (view demo_cache) = [\<lambda>_. 5, \<lambda>_. 7, \<lambda>_. 8, \<lambda>_. 9]" by (simp add: demo_cache_view)
  ultimately show ?thesis using cache_transparent [OF demo_cache_idle, of ?rs] by metis
qed

end
