(* ===== verification/Crash.thy ===== *)
theory Crash
  imports Logfs Cache
begin

text \<open>
  Crashes. The disk after a crash is the disk as it was after some of the writes that the kernel
  had issued; the machine then starts with an empty cache and runs \<open>recover_from_log\<close>, which may
  itself be cut short by the next crash.

  \<open>log_writes\<close>, \<open>install_writes\<close> and \<open>recovery_writes\<close> are the writes of the routines of the log, in
  order; that the routines make exactly these writes is shown over the contract of the
  buffer cache in \<open>Cache\<close>.
\<close>

section \<open>The routines of the log as sequences of writes\<close>

abbreviation lpos :: "uint \<Rightarrow> nat \<Rightarrow> uint" where
  "lpos L i \<equiv> L + of_nat i + 1"

definition log_writes :: "uint \<Rightarrow> (nat \<Rightarrow> uint) \<Rightarrow> nat list \<Rightarrow> (uint \<Rightarrow> block) \<Rightarrow> (uint \<times> block) list" where
  "log_writes L hb is v = map (\<lambda>i. (lpos L i, v (hb i))) is"

definition install_writes :: "uint \<Rightarrow> (nat \<Rightarrow> uint) \<Rightarrow> nat list \<Rightarrow> (uint \<Rightarrow> block) \<Rightarrow> (uint \<times> block) list" where
  "install_writes L hb is v = map (\<lambda>i. (hb i, v (lpos L i))) is"

text \<open>The geometry that the log relies on: the \<open>n\<close> logged blocks are different from each other and
  from the blocks \<open>L\<close> to \<open>L + N\<close> of the log, all of them are on the disk, and they fit the header.\<close>

definition in_log :: "uint \<Rightarrow> nat \<Rightarrow> uint \<Rightarrow> bool" where
  "in_log L N m \<longleftrightarrow> unat (m - L) \<le> N"

definition geometry :: "uint \<Rightarrow> nat \<Rightarrow> uint \<Rightarrow> nat \<Rightarrow> (nat \<Rightarrow> uint) \<Rightarrow> bool" where
  "geometry L N ds n hb \<longleftrightarrow> n \<le> N \<and> int n \<le> LOGSIZE \<and> unat L + N < unat ds \<and> inj_on hb {..<n} \<and> (\<forall>i < n. hb i < ds \<and> \<not> in_log L N (hb i))"

lemma bcopy_log: "log (bcopy t s) = log s"
  by (simp add: bcopy_def)

lemma bmod_log: "bmod s t \<Longrightarrow> log t = log s"
  using bcopy_log [of t s] by (simp add: bmod_def)

lemma lpos_facts:
  assumes "geometry L N ds n hb" "i < n"
  shows "unat (lpos L i) = unat L + i + 1" "lpos L i < ds" "lpos L i \<noteq> L" "in_log L N (lpos L i)" "L < ds"
proof -
  have b: "i + 1 \<le> N" "unat L + N < unat ds" using assms by (auto simp: geometry_def)
  have "unat ds < 2 ^ LENGTH(32)" by (rule unsigned_less)
  then have m: "unat L + i + 1 < 4294967296" using b by simp
  then have i: "unat (of_nat i + 1 :: uint) = i + 1" by (simp add: unat_word_ariths unat_of_nat)
  then show u: "unat (lpos L i) = unat L + i + 1" using m by (simp add: unat_word_ariths add.assoc)
  show "lpos L i < ds" unfolding word_less_nat_alt u using b by simp
  show "lpos L i \<noteq> L" using u by (metis add.assoc add_cancel_left_right add_eq_0_iff_both_eq_0 one_neq_zero)
  have "lpos L i - L = of_nat i + 1" by simp
  then show "in_log L N (lpos L i)" using i b by (simp add: in_log_def)
  show "L < ds" unfolding word_less_nat_alt using b by simp
qed

text \<open>A state between two steps: no buffer is in use and there is one to spare.\<close>

definition quiet :: "'z lstate_scheme \<Rightarrow> bool" where
  "quiet s \<longleftrightarrow> binv s \<and> held s = {} \<and> spare s \<noteq> {} \<and> ldev (log s) = 1"

text \<open>What a routine does that makes the writes \<open>ws\<close>.\<close>

definition steps :: "'z lstate_scheme \<Rightarrow> (uint \<times> block) list \<Rightarrow> 'z lstate_scheme \<Rightarrow> bool" where
  "steps s ws t \<longleftrightarrow> did s ws t \<and> held t = {} \<and> spare s \<subseteq> spare t"

lemma steps_refl: "quiet s \<Longrightarrow> steps s [] s"
  by (simp add: steps_def did_def quiet_def)

lemma steps_trans: "steps s ws t \<Longrightarrow> steps t ws' u \<Longrightarrow> steps s (ws @ ws') u"
  using did_trans by (auto simp: steps_def)

lemma steps_same: "steps s ws t \<Longrightarrow> log t = log s" "steps s ws t \<Longrightarrow> disksize t = disksize s" "steps s ws t \<Longrightarrow> quiet s \<Longrightarrow> quiet t"
  by (auto simp: steps_def did_def quiet_def bmod_log bmod_same)

lemma write_log_step:
  assumes q: "quiet s" and g: "geometry L N (disksize s) n hb" and s: "lstart (log s) = L" "lh_block (lh (log s)) = hb"
    and i: "i < n" "hb i \<in> dirties s" "lpos L i \<notin> dirties s"
  shows "\<exists>t. write_log_loop i (Suc k) s = write_log_loop (Suc i) k t \<and> steps s [(lpos L i, view s (hb i))] t"
proof -
  note lp = lpos_facts [OF g i(1)]
  have hb: "hb i < disksize s" "lpos L i \<noteq> hb i" using g i(1) lp(4) by (auto simp: geometry_def)
  have q': "binv s" "held s = {}" "spare s \<noteq> {}" "ldev (log s) = 1" using q by (simp_all add: quiet_def)
  obtain x y t u where o: "bread 1 (lpos L i) s = Ok (x, t)" "bread 1 (hb i) t = Ok (y, u)" "bmod s t" "kept s u"
    "held u = {x, y}" "x \<noteq> y" "caches u (lpos L i) x" "caches u (hb i) y" "spare u = spare s - {x, y}"
    "bdata (the_buf u y) = view s (hb i)" "bdirty (the_buf u y)" "\<And>z. z \<in> spare s \<Longrightarrow> \<not> bdirty (the_buf u z)"
    using two_open [OF q'(1,2) hb(2) lp(2) hb(1) q'(3)] i(2) by metis
  have u: "binv u" "held u = {y, x}" "y \<noteq> x" "lpos L i < disksize u"
    using o(4,5,6) lp(2) bmod_same(1) [of s u] by (auto simp: kept_def)
  obtain v w r where c: "bwrite x (poke x (bdata (the_buf u y)) u) = Ok v" "brelse y v = Ok w" "brelse x w = Ok r"
    "did u [(lpos L i, bdata (the_buf u y))] r" "held r = {}" "spare u \<subseteq> spare r" "x \<in> spare r"
    using copy_close [OF u(1-3) o(8,7) u(4)] o(11) by metis
  have "spare s \<subseteq> spare r" using o(9,11,12) c(6,7) by auto
  then have "steps s [(lpos L i, view s (hb i))] r" using did_kept_trans(2) [OF o(4)] c(4,5) o(10) by (simp add: steps_def)
  moreover have "write_log_loop i (Suc k) s = write_log_loop (Suc i) k r"
    using o(1,2) c(1-3) q'(4) s bmod_log [OF o(3)] by (simp add: Let_def poke_def)
  ultimately show ?thesis by blast
qed

lemma install_step:
  assumes q: "quiet s" and g: "geometry L N (disksize s) n hb" and s: "lstart (log s) = L" "lh_block (lh (log s)) = hb"
    and i: "i < n" "hb i \<in> dirties s \<or> (\<nexists>z. spare s = {z})" "lpos L i \<notin> dirties s"
  shows "\<exists>t. install_loop i (Suc k) s = install_loop (Suc i) k t \<and> steps s [(hb i, view s (lpos L i))] t"
proof -
  note lp = lpos_facts [OF g i(1)]
  have hb: "hb i < disksize s" "lpos L i \<noteq> hb i" using g i(1) lp(4) by (auto simp: geometry_def)
  have q': "binv s" "held s = {}" "spare s \<noteq> {}" "ldev (log s) = 1" using q by (simp_all add: quiet_def)
  obtain x y t u where o: "bread 1 (lpos L i) s = Ok (x, t)" "bread 1 (hb i) t = Ok (y, u)" "bmod s t" "kept s u"
    "held u = {x, y}" "x \<noteq> y" "caches u (lpos L i) x" "caches u (hb i) y" "spare u = spare s - {x, y}"
    "bdata (the_buf u x) = view s (lpos L i)" "\<not> bdirty (the_buf u x)"
    using two_open [OF q'(1,2) hb(2) lp(2) hb(1) q'(3) i(2)] i(3) by metis
  have u: "binv u" "hb i < disksize u" "disk u = disk s" using o(4) hb(1) bmod_same(1) [of s u] by (auto simp: kept_def)
  have "view s (lpos L i) = disk s (lpos L i)" using view_clean [OF q'(1) i(3)] q'(2) by simp
  then have "bdata (the_buf u x) = disk u (lpos L i)" using o(10) u(3) by simp
  then obtain v w r where c: "bwrite y (poke y (bdata (the_buf u x)) u) = Ok v" "brelse x v = Ok w" "brelse y w = Ok r"
    "did u [(hb i, bdata (the_buf u x))] r" "held r = {}" "spare u \<subseteq> spare r" "y \<in> spare r" "x \<in> spare r"
    using copy_close [OF u(1) o(5-8) u(2)] o(11) by metis
  have "spare s \<subseteq> spare r" using o(9) c(6-8) by auto
  then have "steps s [(hb i, view s (lpos L i))] r" using did_kept_trans(2) [OF o(4)] c(4,5) o(10) by (simp add: steps_def)
  moreover have "install_loop i (Suc k) s = install_loop (Suc i) k r"
    using o(1,2) c(1-3) q'(4) s bmod_log [OF o(3)] by (simp add: Let_def poke_def)
  ultimately show ?thesis by blast
qed

lemma writes_Cons:
  "log_writes L hb [i..<i + Suc k] v = (lpos L i, v (hb i)) # log_writes L hb [Suc i..<Suc i + k] v"
  "install_writes L hb [i..<i + Suc k] v = (hb i, v (lpos L i)) # install_writes L hb [Suc i..<Suc i + k] v"
  by (simp_all add: log_writes_def install_writes_def upt_conv_Cons del: upt_Suc)

lemma writes_cong:
  "(\<And>j. j \<in> set is \<Longrightarrow> v (hb j) = v' (hb j)) \<Longrightarrow> log_writes L hb is v = log_writes L hb is v'"
  "(\<And>j. j \<in> set is \<Longrightarrow> v (lpos L j) = v' (lpos L j)) \<Longrightarrow> install_writes L hb is v = install_writes L hb is v'"
  by (simp_all add: log_writes_def install_writes_def)

lemma write_log_loop_ok:
  assumes "quiet s" and g: "geometry L N (disksize s) n hb" and "lstart (log s) = L" "lh_block (lh (log s)) = hb"
    and "i + k \<le> n" "\<And>j. j < n \<Longrightarrow> hb j \<in> dirties s \<and> lpos L j \<notin> dirties s"
  shows "\<exists>t. write_log_loop i k s = Ok t \<and> steps s (log_writes L hb [i..<i + k] (view s)) t"
  using assms
proof (induction k arbitrary: i s)
  case 0
  then show ?case using steps_refl [of s] by (simp add: log_writes_def)
next
  case (Suc k)
  then have i: "i < n" by simp
  obtain t where t: "write_log_loop i (Suc k) s = write_log_loop (Suc i) k t" "steps s [(lpos L i, view s (hb i))] t"
    using write_log_step [OF Suc.prems(1-4) i] Suc.prems(6) i by blast
  have same: "quiet t" "disksize t = disksize s" "log t = log s" using steps_same t(2) Suc.prems(1) by blast+
  have d: "dirties t = dirties s - {lpos L i}" "view t = (view s)(lpos L i := view s (hb i))"
    using t(2) by (simp_all add: steps_def did_def)
  have "view t (hb j) = view s (hb j)" if "j < n" for j
    using that d(2) lpos_facts(4) [OF Suc.prems(2) i] Suc.prems(2) by (auto simp: geometry_def)
  then have ws: "log_writes L hb [Suc i..<Suc i + k] (view t) = log_writes L hb [Suc i..<Suc i + k] (view s)"
    using Suc.prems(5) by (intro writes_cong) (simp del: upt_Suc)
  have dj: "hb j \<in> dirties t \<and> lpos L j \<notin> dirties t" if "j < n" for j
    using Suc.prems(6) [OF that] Suc.prems(6) [OF i] d(1) by auto
  have k: "Suc i + k \<le> n" and g': "geometry L N (disksize t) n hb" using Suc.prems(2,5) same(2) by simp_all
  obtain u where u: "write_log_loop (Suc i) k t = Ok u" "steps t (log_writes L hb [Suc i..<Suc i + k] (view t)) u"
    using Suc.IH [OF same(1) g' _ _ k dj] same(3) Suc.prems(3,4) by auto
  show ?case using t(1) u(1) steps_trans [OF t(2) u(2)] unfolding writes_Cons ws by auto
qed

lemma steps_roomy: "steps s ws t \<Longrightarrow> spare s \<noteq> {} \<Longrightarrow> \<nexists>z. spare s = {z} \<Longrightarrow> \<nexists>z. spare t = {z}"
  unfolding steps_def by (metis subset_singletonD)

lemma install_loop_ok:
  assumes "quiet s" and g: "geometry L N (disksize s) n hb" and "lstart (log s) = L" "lh_block (lh (log s)) = hb"
    and "i + k \<le> n" "(\<forall>j < n. i \<le> j \<longrightarrow> hb j \<in> dirties s) \<or> (\<nexists>z. spare s = {z})" "\<And>j. j < n \<Longrightarrow> lpos L j \<notin> dirties s"
  shows "\<exists>t. install_loop i k s = Ok t \<and> steps s (install_writes L hb [i..<i + k] (view s)) t"
  using assms
proof (induction k arbitrary: i s)
  case 0
  then show ?case using steps_refl [of s] by (simp add: install_writes_def)
next
  case (Suc k)
  then have i: "i < n" by simp
  then have room: "hb i \<in> dirties s \<or> (\<nexists>z. spare s = {z})" using Suc.prems(6) by blast
  obtain t where t: "install_loop i (Suc k) s = install_loop (Suc i) k t" "steps s [(hb i, view s (lpos L i))] t"
    using install_step [OF Suc.prems(1-4) i room Suc.prems(7) [OF i]] by blast
  have same: "quiet t" "disksize t = disksize s" "log t = log s" using steps_same t(2) Suc.prems(1) by blast+
  have d: "dirties t = dirties s - {hb i}" "view t = (view s)(hb i := view s (lpos L i))"
    using t(2) by (simp_all add: steps_def did_def)
  have "view t (lpos L j) = view s (lpos L j)" if "j < n" for j
    using that d(2) lpos_facts(4) [OF Suc.prems(2) that] Suc.prems(2) i by (auto simp: geometry_def)
  then have ws: "install_writes L hb [Suc i..<Suc i + k] (view t) = install_writes L hb [Suc i..<Suc i + k] (view s)"
    using Suc.prems(5) by (intro writes_cong) (simp del: upt_Suc)
  have dj: "lpos L j \<notin> dirties t" if "j < n" for j using Suc.prems(7) [OF that] d(1) by auto
  have "\<And>j. j < n \<Longrightarrow> Suc i \<le> j \<Longrightarrow> hb j \<noteq> hb i" using Suc.prems(2) i inj_onD [of hb "{..<n}"] by (fastforce simp: geometry_def)
  then have rm: "(\<forall>j < n. Suc i \<le> j \<longrightarrow> hb j \<in> dirties t) \<or> (\<nexists>z. spare t = {z})"
    using Suc.prems(1,6) steps_roomy [OF t(2)] d(1) by (auto simp: quiet_def)
  have k: "Suc i + k \<le> n" and g': "geometry L N (disksize t) n hb" using Suc.prems(2,5) same(2) by simp_all
  obtain u where u: "install_loop (Suc i) k t = Ok u" "steps t (install_writes L hb [Suc i..<Suc i + k] (view t)) u"
    using Suc.IH [OF same(1) g' _ _ k rm dj] same(3) Suc.prems(3,4) by auto
  show ?case using t(1) u(1) steps_trans [OF t(2) u(2)] unfolding writes_Cons ws by auto
qed

section \<open>The header\<close>

text \<open>The cache does not look at the log.\<close>

lemma log_irrelevant [simp]:
  "caches (s\<lparr>log := l\<rparr>) = caches s" "view (s\<lparr>log := l\<rparr>) = view s" "held (s\<lparr>log := l\<rparr>) = held s" "spare (s\<lparr>log := l\<rparr>) = spare s"
  "dirties (s\<lparr>log := l\<rparr>) = dirties s" "binv (s\<lparr>log := l\<rparr>) = binv s"
proof -
  show c: "caches (s\<lparr>log := l\<rparr>) = caches s" by (intro ext) (simp add: caches_def)
  show "view (s\<lparr>log := l\<rparr>) = view s" by (rule ext) (simp add: view_def c split: option.split)
  show "held (s\<lparr>log := l\<rparr>) = held s" "spare (s\<lparr>log := l\<rparr>) = spare s" "dirties (s\<lparr>log := l\<rparr>) = dirties s"
    by (simp_all add: held_def spare_def dirties_def c)
  have "me_pid (s\<lparr>log := l\<rparr>) = me_pid s" "bok (s\<lparr>log := l\<rparr>) = bok s" by (simp_all add: me_pid_def bok_def)
  then show "binv (s\<lparr>log := l\<rparr>) = binv s" by (simp add: binv_def c buf_ok_def)
qed

lemma still_log [simp]: "still (s\<lparr>log := l\<rparr>) (t\<lparr>log := l'\<rparr>) = still s t"
  by (simp add: still_def)

lemma kept_log: "kept s t \<Longrightarrow> kept (s\<lparr>log := l\<rparr>) (t\<lparr>log := l\<rparr>)"
proof -
  assume k: "kept s t"
  have "bcopy (t\<lparr>log := l\<rparr>) (s\<lparr>log := l\<rparr>) = (bcopy t s)\<lparr>log := l\<rparr>" by (simp add: bcopy_def)
  then have "bmod (s\<lparr>log := l\<rparr>) (t\<lparr>log := l\<rparr>)" using k by (simp add: kept_def bmod_def)
  with k show ?thesis by (simp add: kept_def)
qed

lemma write_head_ok:
  assumes q: "quiet s" and "lstart (log s) = L" "L < disksize s" "L \<notin> dirties s" and n: "lh_n (lh (log s)) \<le> LOGSIZE"
  shows "\<exists>t. write_head s = Ok t \<and> steps s [(L, put_head (lh (log s)) (view s L))] t"
proof -
  have q': "binv s" "held s = {}" "spare s \<noteq> {}" "ldev (log s) = 1" using q by (simp_all add: quiet_def)
  obtain b t v w where r: "bread 1 L s = Ok (b, t)" "bmod s t" "bdata (the_buf t b) = view s L"
      "bwrite b (poke b (put_head (lh (log s)) (view s L)) t) = Ok v" "brelse b v = Ok w"
      "did s [(L, put_head (lh (log s)) (view s L))] w" "held w = {}" "spare s \<subseteq> spare w"
    using rewrite_ok [OF q'(1,2) assms(3) disjI2 [OF q'(3)], of "put_head (lh (log s)) (view s L)"] by metis
  have "write_head s = Ok w"
    using r(1,3-5) assms(2) q'(4) bmod_log [OF r(2)] n by (simp add: write_head_def Let_def poke_def upd_buf_def)
  with r show ?thesis by (auto simp: steps_def)
qed

definition get_head :: "loghdr \<Rightarrow> block \<Rightarrow> loghdr" where
  "get_head h d = \<lparr>lh_n = sint32 (load32 d 0),
     lh_block = (\<lambda>i. if int i < sint32 (load32 d 0) then load32 d (4 + 4 * of_nat i) else lh_block h i)\<rparr>"

lemma read_head_ok:
  assumes q: "quiet s" and "lstart (log s) = L" "L < disksize s" "L \<notin> dirties s" and n: "sint32 (load32 (view s L) 0) \<le> LOGSIZE"
  shows "\<exists>t. read_head s = Ok t \<and> steps (s\<lparr>log := (log s)\<lparr>lh := get_head (lh (log s)) (view s L)\<rparr>\<rparr>) [] t"
proof -
  let ?l = "(log s)\<lparr>lh := get_head (lh (log s)) (view s L)\<rparr>"
  have q': "binv s" "held s = {}" "spare s \<noteq> {}" "ldev (log s) = 1" using q by (simp_all add: quiet_def)
  obtain b t where b: "bread 1 L s = Ok (b, t)" "opened s L b t"
    using bread_ok [OF q'(1) assms(3)] q' by blast
  have t: "kept s t" "bdata (the_buf t b) = view s L" "held t = {b}" "\<not> bdirty (the_buf t b)" "spare t = spare s - {b}"
    using b(2) q'(2) assms(4) by (auto simp: opened_def)
  have "blockno (the_buf t b) = L" using b(2) by (simp add: opened_def caches_def)
  then have d: "bdata (the_buf t b) = disk t (blockno (the_buf t b))"
    using t(1,2) view_clean [OF q'(1) assms(4)] q'(2) by (simp add: kept_def)
  let ?t = "t\<lparr>log := ?l\<rparr>"
  obtain u where u: "brelse b ?t = Ok u" "kept ?t u" "held u = held ?t - {b}" "spare ?t \<subseteq> spare u" "b \<in> spare u"
    using brelse_ok [of ?t b] t d by (auto simp: kept_def)
  have "steps (s\<lparr>log := ?l\<rparr>) [] u"
    using kept_log [OF t(1), of ?l] did_kept_trans(2) [of "s\<lparr>log := ?l\<rparr>" ?t "[]" u] u t(3,5) by (auto simp: steps_def did_kept)
  moreover have "log t = log s" using bmod_log t(1) by (auto simp: kept_def)
  then have "read_head s = Ok u" using b(1) u(1) t(2) assms(2) q'(4) n by (simp add: read_head_def Let_def get_head_def cong: if_cong)
  ultimately show ?thesis by blast
qed

lemma unat_word_no: "i < 1000 \<Longrightarrow> unat (4 + 4 * of_nat i :: uint) = 4 + 4 * i"
  by (simp add: unat_word_ariths unat_of_nat)

lemma put_words_load:
  assumes "k < 1000"
  shows "load32 (put_words d f k) 0 = load32 d 0"
    and "i < k \<Longrightarrow> load32 (put_words d f k) (4 + 4 * of_nat i) = f i"
proof -
  have al: "word_aligned (4 + 4 * of_nat j)" if "j < 1000" for j
    using unat_word_no [OF that] by (simp add: word_aligned_unat)
  have ne: "4 + 4 * of_nat j \<noteq> (0 :: uint)" "j \<noteq> l \<Longrightarrow> 4 + 4 * of_nat j \<noteq> (4 + 4 * of_nat l :: uint)" if "j < 1000" "l < 1000" for j l
    using unat_word_no that by (metis add_eq_0_iff_both_eq_0 unat_0 zero_neq_numeral) (metis add_left_cancel mult_left_cancel unat_word_no that zero_neq_numeral)
  have al0: "word_aligned 0" by (simp add: word_aligned_unat)
  show "load32 (put_words d f k) 0 = load32 d 0" using assms
  proof (induction k)
    case (Suc k)
    then show ?case using ne(1) [of k k] al [of k] al0 by (simp add: load32_store32_other)
  qed simp
  show "load32 (put_words d f k) (4 + 4 * of_nat i) = f i" if "i < k" using assms that
  proof (induction k)
    case (Suc k)
    show ?case
    proof (cases "i = k")
      case False
      then have "load32 (store32 (put_words d f k) (4 + 4 * of_nat k) (f k)) (4 + 4 * of_nat i) = load32 (put_words d f k) (4 + 4 * of_nat i)"
        using Suc.prems ne(2) [of k i] al by (intro load32_store32_other) simp_all
      then show ?thesis using Suc False by simp
    qed simp
  qed simp
qed

lemma head_load:
  assumes "0 \<le> lh_n h" "lh_n h < 1000"
  shows "sint32 (load32 (put_head h d) 0) = lh_n h"
    and "int i < lh_n h \<Longrightarrow> load32 (put_head h d) (4 + 4 * of_nat i) = lh_block h i"
proof -
  have k: "nat (lh_n h) < 1000" using assms by simp
  have "load32 (put_head h d) 0 = of_int (lh_n h)" using put_words_load(1) [OF k] by (simp add: put_head_def)
  then show "sint32 (load32 (put_head h d) 0) = lh_n h"
    using assms by (simp add: sint32_def signed_of_int signed_take_bit_int_eq_self)
  show "load32 (put_head h d) (4 + 4 * of_nat i) = lh_block h i" if "int i < lh_n h"
    using put_words_load(2) [OF k, of i] that by (simp add: put_head_def)
qed

lemma put_head_clear: "put_head (h\<lparr>lh_n := 0\<rparr>) d = store32 d 0 0"
  by (simp add: put_head_def)

section \<open>Recovery\<close>

definition log_n :: "uint \<Rightarrow> (uint \<Rightarrow> block) \<Rightarrow> nat" where
  "log_n L d = nat (sint32 (load32 (d L) 0))"

definition log_home :: "uint \<Rightarrow> (uint \<Rightarrow> block) \<Rightarrow> nat \<Rightarrow> uint" where
  "log_home L d i = load32 (d L) (4 + 4 * of_nat i)"

text \<open>The writes of \<open>recover_from_log\<close> on the disk \<open>d\<close>.\<close>

definition recovery_writes :: "uint \<Rightarrow> (uint \<Rightarrow> block) \<Rightarrow> (uint \<times> block) list" where
  "recovery_writes L d = install_writes L (log_home L d) [0..<log_n L d] d @ [(L, store32 (d L) 0 0)]"

definition recovered :: "uint \<Rightarrow> (uint \<Rightarrow> block) \<Rightarrow> uint \<Rightarrow> block" where
  "recovered L d = replay (recovery_writes L d) d"

lemma geometry_cong: "(\<And>i. i < n \<Longrightarrow> f i = g i) \<Longrightarrow> geometry L N ds n f = geometry L N ds n g"
  by (simp add: geometry_def inj_on_def)

lemma home_writes: "set is \<subseteq> {..<n} \<Longrightarrow> geometry L N ds n hb \<Longrightarrow> in_log L N m \<Longrightarrow> m \<notin> fst ` set (install_writes L hb is v)"
  by (auto simp: install_writes_def geometry_def)

lemma quiet_log: "quiet s \<Longrightarrow> ldev l = 1 \<Longrightarrow> quiet (s\<lparr>log := l\<rparr>)"
  by (simp add: quiet_def)

lemma head_in_log: "in_log L N L"
  by (simp add: in_log_def)

lemma install_then_clear:
  assumes q: "quiet s" and g: "geometry L N (disksize s) n (lh_block (lh (log s)))" and s: "lstart (log s) = L" "nat (lh_n (lh (log s))) = n"
    and room: "(\<forall>j < n. lh_block (lh (log s)) j \<in> dirties s) \<or> (\<nexists>z. spare s = {z})" and d: "\<And>m. in_log L N m \<Longrightarrow> m \<notin> dirties s"
    and L: "L < disksize s"
  shows "\<exists>t u. install_trans s = Ok t \<and> write_head (set_lhn 0 t) = Ok u
     \<and> steps (set_lhn 0 s) (install_writes L (lh_block (lh (log s))) [0..<n] (view s) @ [(L, store32 (view s L) 0 0)]) u"
proof -
  let ?hb = "lh_block (lh (log s))" and ?l = "(log s)\<lparr>lh := (lh (log s))\<lparr>lh_n := 0\<rparr>\<rparr>"
  have lp: "lpos L j \<notin> dirties s" if "j < n" for j using d lpos_facts(4) [OF g that] by blast
  obtain t where t: "install_trans s = Ok t" "steps s (install_writes L ?hb [0..<n] (view s)) t"
    using install_loop_ok [OF q g s(1) refl, of 0 n] room lp s(2) by (auto simp: install_trans_def)
  note same = steps_same(1,2) [OF t(2)] steps_same(3) [OF t(2) q]
  have lset: "set_lhn 0 t = t\<lparr>log := ?l\<rparr>" "set_lhn 0 s = s\<lparr>log := ?l\<rparr>" using same(1) by (simp_all add: set_lhn_def)
  have out: "L \<notin> fst ` set (install_writes L ?hb [0..<n] (view s))" by (intro home_writes [OF _ g head_in_log]) auto
  have v: "view t L = view s L" "L \<notin> dirties t" using t(2) d [OF head_in_log] replay_other [OF out] by (auto simp: steps_def did_def)
  have qt: "quiet (t\<lparr>log := ?l\<rparr>)" using quiet_log [OF same(3), of ?l] q by (simp add: quiet_def)
  obtain u where u: "write_head (t\<lparr>log := ?l\<rparr>) = Ok u" "steps (t\<lparr>log := ?l\<rparr>) [(L, store32 (view s L) 0 0)] u"
    using write_head_ok [OF qt, of L] s(1) L same(2) v put_head_clear by auto
  have "bcopy (t\<lparr>log := ?l\<rparr>) (s\<lparr>log := ?l\<rparr>) = (bcopy t s)\<lparr>log := ?l\<rparr>" by (simp add: bcopy_def)
  then have "steps (s\<lparr>log := ?l\<rparr>) (install_writes L ?hb [0..<n] (view s)) (t\<lparr>log := ?l\<rparr>)"
    using t(2) by (simp add: steps_def did_def bmod_def)
  then show ?thesis using t(1) u steps_trans lset by auto
qed

text \<open>A machine that has just started: the cache holds no block that differs from the disk.\<close>

definition booted :: "uint \<Rightarrow> 'z lstate_scheme \<Rightarrow> bool" where
  "booted L r \<longleftrightarrow> quiet r \<and> dirties r = {} \<and> (\<nexists>z. spare r = {z}) \<and> lstart (log r) = L"

lemma booted_view: "booted L r \<Longrightarrow> view r = disk r"
  using view_clean [of r] by (intro ext) (auto simp: booted_def quiet_def)

lemma recover_ok:
  assumes r: "booted L r" and g: "geometry L N (disksize r) (log_n L (disk r)) (log_home L (disk r))"
  shows "\<exists>t. recover_from_log r = Ok t \<and> booted L t \<and> disk t = recovered L (disk r)
     \<and> wtrace t = wtrace r @ recovery_writes L (disk r) \<and> lh_n (lh (log t)) = 0 \<and> disksize t = disksize r"
proof -
  let ?d = "disk r" and ?l = "(log r)\<lparr>lh := get_head (lh (log r)) (disk r L)\<rparr>" and ?n = "log_n L (disk r)"
  have L: "L < disksize r" using g unfolding geometry_def word_less_nat_alt by simp
  have "int ?n \<le> LOGSIZE" using g by (simp only: geometry_def)
  then have le: "sint32 (load32 (?d L) 0) \<le> LOGSIZE" by (simp add: log_n_def split: if_splits)
  have r': "quiet r" "lstart (log r) = L" "dirties r = {}" "\<nexists>z. spare r = {z}" "ldev (log r) = 1" using r by (auto simp: booted_def quiet_def)
  obtain s where s: "read_head r = Ok s" "steps (r\<lparr>log := ?l\<rparr>) [] s"
    using read_head_ok [OF r'(1,2) L] r'(3) booted_view [OF r] le by auto
  have q: "quiet (r\<lparr>log := ?l\<rparr>)" using quiet_log [OF r'(1)] r'(5) by simp
  note same = steps_same(1,2) [OF s(2)] steps_same(3) [OF s(2) q]
  have s': "view s = ?d" "disk s = ?d" "wtrace s = wtrace r" "dirties s = {}" "\<nexists>z. spare s = {z}" "log s = ?l" "disksize s = disksize r"
    using s(2) r'(3) booted_view [OF r] steps_roomy [OF s(2)] q r'(4) same by (auto simp: steps_def did_def quiet_def)
  let ?hb = "lh_block (get_head (lh (log r)) (?d L))"
  have hb: "?hb i = log_home L ?d i" if "i < ?n" for i using that by (auto simp: get_head_def log_home_def log_n_def)
  have g': "geometry L N (disksize s) ?n (lh_block (lh (log s)))" using g geometry_cong [OF hb] s'(6,7) by simp
  have n: "nat (lh_n (lh (log s))) = ?n" using s'(6) by (simp add: get_head_def log_n_def)
  have "install_writes L ?hb [0..<?n] ?d = install_writes L (log_home L ?d) [0..<?n] ?d" using hb by (simp add: install_writes_def)
  then have ws: "install_writes L (lh_block (lh (log s))) [0..<?n] (view s) @ [(L, store32 (view s L) 0 0)] = recovery_writes L ?d"
    using s'(1,6) by (simp add: recovery_writes_def)
  obtain t u where t: "install_trans s = Ok t" "write_head (set_lhn 0 t) = Ok u" "steps (set_lhn 0 s) (recovery_writes L ?d) u"
    using install_then_clear [OF same(3) g' _ n] s'(1,4-7) r'(2) L ws by auto
  have q0: "quiet (set_lhn 0 s)" using quiet_log [OF same(3)] r'(5) s'(6) by (simp add: set_lhn_def)
  have "recover_from_log r = Ok u" using s(1) t by (simp add: recover_from_log_def)
  moreover have "booted L u" using steps_same [OF t(3)] q0 steps_roomy [OF t(3)] s' t(3) r'(2)
    by (auto simp: booted_def set_lhn_def steps_def did_def quiet_def)
  moreover have "lh_n (lh (log u)) = 0" using steps_same(1) [OF t(3)] by (simp add: set_lhn_def)
  ultimately show ?thesis using t(3) s' steps_same(2) [OF t(3)] by (auto simp: steps_def did_def set_lhn_def recovered_def)
qed

section \<open>Commit\<close>

text \<open>A transaction that is ready to commit: the blocks in the header are those the cache pins,
  and the log on disk is empty.\<close>

definition ready :: "uint \<Rightarrow> nat \<Rightarrow> 'z lstate_scheme \<Rightarrow> bool" where
  "ready L N s \<longleftrightarrow> quiet s \<and> lstart (log s) = L \<and> 0 < lh_n (lh (log s))
     \<and> geometry L N (disksize s) (nat (lh_n (lh (log s)))) (lh_block (lh (log s)))
     \<and> dirties s = lh_block (lh (log s)) ` {..<nat (lh_n (lh (log s)))} \<and> log_n L (disk s) = 0"

definition commit_writes :: "uint \<Rightarrow> loghdr \<Rightarrow> (uint \<Rightarrow> block) \<Rightarrow> (uint \<times> block) list" where
  "commit_writes L h v = (let n = nat (lh_n h); H = put_head h (v L) in
     log_writes L (lh_block h) [0..<n] v @ [(L, H)] @ map (\<lambda>i. (lh_block h i, v (lh_block h i))) [0..<n] @ [(L, store32 H 0 0)])"

lemma log_writes_fst:
  assumes "geometry L N ds n hb"
  shows "distinct (map fst (log_writes L hb [0..<n] v))" "L \<notin> fst ` set (log_writes L hb [0..<n] v)"
    "\<not> in_log L N m \<Longrightarrow> m \<notin> fst ` set (log_writes L hb [0..<n] v)"
proof -
  have "inj_on (lpos L) {..<n}"
  proof (rule inj_onI)
    fix i j assume ij: "i \<in> {..<n}" "j \<in> {..<n}" and e: "lpos L i = lpos L j"
    then have "unat L + i + 1 = unat L + j + 1" using lpos_facts(1) [OF assms, of i] lpos_facts(1) [OF assms, of j] by (metis lessThan_iff)
    then show "i = j" by simp
  qed
  then show "distinct (map fst (log_writes L hb [0..<n] v))"
    by (simp add: log_writes_def distinct_map o_def atLeast0LessThan)
  have "fst ` set (log_writes L hb [0..<n] v) = lpos L ` {..<n}" by (force simp: log_writes_def)
  moreover have "L \<notin> lpos L ` {..<n}"
  proof
    assume "L \<in> lpos L ` {..<n}"
    then obtain i where "i < n" "L = lpos L i" by blast
    then show False using lpos_facts(3) [OF assms, of i] by metis
  qed
  moreover have "m \<notin> lpos L ` {..<n}" if "\<not> in_log L N m" using that lpos_facts(4) [OF assms] by blast
  ultimately show "L \<notin> fst ` set (log_writes L hb [0..<n] v)" "\<not> in_log L N m \<Longrightarrow> m \<notin> fst ` set (log_writes L hb [0..<n] v)"
    by simp_all
qed

lemma logged:
  assumes "geometry L N ds n hb" "i < n"
  shows "replay (log_writes L hb [0..<n] v) d (lpos L i) = v (hb i)"
  using assms log_writes_fst(1) [OF assms(1)] by (intro replay_in) (auto simp: log_writes_def)

lemma commit_ok:
  assumes "ready L N s"
  shows "\<exists>t. commit s = Ok t \<and> steps (set_lhn 0 s) (commit_writes L (lh (log s)) (view s)) t"
proof -
  define h hb n where "h = lh (log s)" and "hb = lh_block h" and "n = nat (lh_n h)"
  have q: "quiet s" and g: "geometry L N (disksize s) n hb" and l: "lstart (log s) = L" "0 < lh_n h" "lh_block (lh (log s)) = hb"
    and d: "dirties s = hb ` {..<n}" using assms by (simp_all add: ready_def h_def hb_def n_def)
  have dj: "in_log L N m \<Longrightarrow> m \<notin> dirties s" for m using d g by (auto simp: geometry_def)
  have le: "lh_n h \<le> LOGSIZE" using g l(2) by (simp add: geometry_def n_def)
  let ?W = "log_writes L hb [0..<n] (view s)" and ?H = "put_head h (view s L)"
  have ho: "hb j \<in> dirties s \<and> lpos L j \<notin> dirties s" if "j < n" for j using that d dj lpos_facts(4) [OF g that] by blast
  obtain t where t: "write_log s = Ok t" "steps s ?W t"
    using write_log_loop_ok [OF q g l(1,3), of 0 n] ho by (auto simp: write_log_def h_def n_def)
  note st = steps_same(1,2) [OF t(2)] steps_same(3) [OF t(2) q]
  have L: "L < disksize s" using g unfolding geometry_def word_less_nat_alt by simp
  have t': "view t = replay ?W (view s)" "dirties t = dirties s - fst ` set ?W" "view t L = view s L" "L \<notin> dirties t"
    using t(2) replay_other [OF log_writes_fst(2) [OF g]] dj [OF head_in_log] by (auto simp: steps_def did_def)
  obtain u where u: "write_head t = Ok u" "steps t [(L, ?H)] u"
    using write_head_ok [OF st(3), of L] st l(1) L t'(3,4) le by (auto simp: h_def)
  note su = steps_same(1,2) [OF u(2)] steps_same(3) [OF u(2) st(3)]
  have u': "view u = (view t)(L := ?H)" "dirties u = dirties t - {L}" using u(2) by (auto simp: steps_def did_def)
  have home: "hb j \<in> dirties u" if "j < n" for j
  proof -
    have "\<not> in_log L N (hb j)" using g that by (simp add: geometry_def)
    then have "hb j \<notin> fst ` set ?W" "hb j \<noteq> L" using log_writes_fst(3) [OF g] head_in_log [of L N] by auto
    then show ?thesis using u'(2) t'(2) d that by simp
  qed
  have logu: "log u = log s" "disksize u = disksize s" using st su by simp_all
  have g': "geometry L N (disksize u) n (lh_block (lh (log u)))" and n': "nat (lh_n (lh (log u))) = n" and lu: "lstart (log u) = L"
    using g logu l(1,3) by (simp_all add: n_def h_def)
  have du: "m \<notin> dirties u" if "in_log L N m" for m using dj [OF that] u'(2) t'(2) by blast
  obtain v w where vw: "install_trans u = Ok v" "write_head (set_lhn 0 v) = Ok w"
      "steps (set_lhn 0 u) (install_writes L (lh_block (lh (log u))) [0..<n] (view u) @ [(L, store32 (view u L) 0 0)]) w"
    using install_then_clear [OF su(3) g' lu n' _ du] home l(3) logu L by auto
  have "view u (lpos L j) = view s (hb j)" if "j < n" for j
    using u'(1) t'(1) logged [OF g that] lpos_facts(3) [OF g that] by simp
  then have "install_writes L hb [0..<n] (view u) = map (\<lambda>i. (hb i, view s (hb i))) [0..<n]" by (simp add: install_writes_def)
  then have ws: "?W @ [(L, ?H)] @ install_writes L (lh_block (lh (log u))) [0..<n] (view u) @ [(L, store32 (view u L) 0 0)]
      = commit_writes L h (view s)" unfolding commit_writes_def Let_def hb_def [symmetric] n_def [symmetric] using logu l(3) u'(1) by simp
  have "bcopy (set_lhn 0 u) (set_lhn 0 s) = set_lhn 0 (bcopy u s)" by (simp add: bcopy_def set_lhn_def logu)
  then have "steps (set_lhn 0 s) (?W @ [(L, ?H)]) (set_lhn 0 u)"
    using steps_trans [OF t(2) u(2)] by (simp add: steps_def did_def bmod_def set_lhn_def)
  then have "steps (set_lhn 0 s) (commit_writes L h (view s)) w" using steps_trans [OF _ vw(3)] ws by fastforce
  then show ?thesis using l(2) t(1) u(1) vw(1,2) by (simp add: commit_def h_def)
qed

section \<open>Crashes\<close>

text \<open>A disk from which recovery leads to \<open>v\<close>: the logged blocks hold what \<open>v\<close> has at their homes, and
  everywhere else outside the log the disk is \<open>v\<close> already.\<close>

definition leads :: "uint \<Rightarrow> nat \<Rightarrow> uint \<Rightarrow> (uint \<Rightarrow> block) \<Rightarrow> (uint \<Rightarrow> block) \<Rightarrow> bool" where
  "leads L N ds v d \<longleftrightarrow> geometry L N ds (log_n L d) (log_home L d)
     \<and> (\<forall>i < log_n L d. d (lpos L i) = v (log_home L d i))
     \<and> (\<forall>m. \<not> in_log L N m \<and> m \<notin> log_home L d ` {..<log_n L d} \<longrightarrow> d m = v m)"

lemma install_prefix:
  assumes "leads L N ds v d" "k \<le> log_n L d"
  defines "e \<equiv> replay (install_writes L (log_home L d) [0..<k] d) d"
  shows "in_log L N m \<Longrightarrow> e m = d m" "i < k \<Longrightarrow> e (log_home L d i) = v (log_home L d i)"
    "m \<notin> log_home L d ` {..<k} \<Longrightarrow> e m = d m"
proof -
  let ?W = "install_writes L (log_home L d) [0..<k] d"
  have g: "geometry L N ds (log_n L d) (log_home L d)" using assms(1) by (simp add: leads_def)
  then have "inj_on (log_home L d) {..<k}" using assms(2) inj_on_subset [of "log_home L d" "{..<log_n L d}" "{..<k}"] by (auto simp: geometry_def)
  then have dist: "distinct (map fst ?W)" by (simp add: install_writes_def distinct_map o_def atLeast0LessThan)
  have fst: "fst ` set ?W = log_home L d ` {..<k}" by (force simp: install_writes_def)
  show "e m = d m" if "m \<notin> log_home L d ` {..<k}" using replay_other [of m ?W d] fst that by (simp add: e_def)
  then show "e m = d m" if "in_log L N m" using g that assms(2) by (force simp: geometry_def)
  show "e (log_home L d i) = v (log_home L d i)" if "i < k"
  proof -
    have "(log_home L d i, d (lpos L i)) \<in> set ?W" using that by (auto simp: install_writes_def)
    then have "e (log_home L d i) = d (lpos L i)" using replay_in [OF _ dist] by (simp add: e_def)
    then show ?thesis using assms(1,2) that by (simp add: leads_def)
  qed
qed

lemma leads_recovered:
  assumes "leads L N ds v d" "\<not> in_log L N m"
  shows "recovered L d m = v m"
proof -
  have "m \<noteq> L" using assms(2) head_in_log by blast
  then have "recovered L d m = replay (install_writes L (log_home L d) [0..<log_n L d] d) d m"
    by (simp add: recovered_def recovery_writes_def)
  also have "\<dots> = v m"
  proof (cases "m \<in> log_home L d ` {..<log_n L d}")
    case True
    then show ?thesis using install_prefix(2) [OF assms(1) order_refl] by auto
  next
    case False
    then show ?thesis using install_prefix(3) [OF assms(1) order_refl False] assms by (simp add: leads_def)
  qed
  finally show ?thesis .
qed

lemma leads_clear:
  assumes "leads L N ds v d"
  shows "leads L N ds v (recovered L d)"
proof -
  have "recovered L d L = store32 (d L) 0 0" by (simp add: recovered_def recovery_writes_def)
  then have "log_n L (recovered L d) = 0" by (simp add: log_n_def sint32_def)
  with assms show ?thesis using leads_recovered [OF assms] by (simp add: leads_def geometry_def)
qed

lemma leads_prefix:
  assumes d: "leads L N ds v d"
  shows "leads L N ds v (replay (take k (recovery_writes L d)) d)"
proof (cases "k \<le> log_n L d")
  case True
  let ?W = "install_writes L (log_home L d) [0..<log_n L d] d" and ?e = "replay (install_writes L (log_home L d) [0..<k] d) d"
  have "length ?W = log_n L d" "take k ?W = install_writes L (log_home L d) [0..<k] d"
    using True by (simp_all add: install_writes_def take_map)
  then have "take k (recovery_writes L d) = install_writes L (log_home L d) [0..<k] d" using True by (simp add: recovery_writes_def)
  moreover have "leads L N ds v ?e"
  proof -
    note p = install_prefix [OF d True]
    have head: "log_n L ?e = log_n L d" "log_home L ?e = log_home L d"
      using p(1) [OF head_in_log] by (simp_all add: log_n_def log_home_def [abs_def])
    have "?e (lpos L i) = d (lpos L i)" if "i < log_n L d" for i
      using p(1) lpos_facts(4) [OF _ that] d by (auto simp: leads_def)
    moreover have "?e m = v m" if "\<not> in_log L N m" "m \<notin> log_home L d ` {..<log_n L d}" for m
      using p(3) [of m] True d that by (force simp: leads_def)
    ultimately show ?thesis using d by (simp add: leads_def head)
  qed
  ultimately show ?thesis by simp
next
  case False
  then have "take k (recovery_writes L d) = recovery_writes L d" by (simp add: recovery_writes_def install_writes_def)
  then show ?thesis using leads_clear [OF d] by (simp add: recovered_def)
qed

text \<open>Recoveries that are cut short after \<open>k\<close> writes each, for the \<open>k\<close> in a list.\<close>

definition crashes :: "uint \<Rightarrow> nat list \<Rightarrow> (uint \<Rightarrow> block) \<Rightarrow> uint \<Rightarrow> block" where
  "crashes L ks d = fold (\<lambda>k d. replay (take k (recovery_writes L d)) d) ks d"

lemma leads_crashes: "leads L N ds v d \<Longrightarrow> leads L N ds v (crashes L ks d)"
  unfolding crashes_def by (induction ks arbitrary: d) (simp_all add: leads_prefix)

text \<open>After \<open>k\<close> of the writes of \<open>commit\<close> the disk leads to the old contents or to the new ones.\<close>

lemma ready_facts:
  assumes "ready L N s"
  shows "\<not> in_log L N m \<Longrightarrow> m \<notin> lh_block (lh (log s)) ` {..<nat (lh_n (lh (log s)))} \<Longrightarrow> disk s m = view s m"
    and "geometry L N (disksize s) (nat (lh_n (lh (log s)))) (lh_block (lh (log s)))" "0 < lh_n (lh (log s))" "lh_n (lh (log s)) < 1000"
  using assms view_clean [of s m] by (auto simp: ready_def quiet_def geometry_def)

lemma crash_before:
  assumes s: "ready L N s" and k: "k \<le> nat (lh_n (lh (log s)))"
  shows "leads L N (disksize s) (disk s) (replay (take k (commit_writes L (lh (log s)) (view s))) (disk s))"
proof -
  let ?h = "lh (log s)" and ?W = "log_writes L (lh_block (lh (log s))) [0..<nat (lh_n (lh (log s)))] (view s)"
  note g = ready_facts(2) [OF s]
  let ?e = "replay (take k ?W) (disk s)"
  have "length ?W = nat (lh_n ?h)" by (simp add: log_writes_def)
  then have t: "take k (commit_writes L ?h (view s)) = take k ?W" using k by (simp add: commit_writes_def Let_def)
  have e: "?e m = disk s m" if "m \<notin> fst ` set ?W" for m
  proof -
    have "m \<notin> fst ` set (take k ?W)" using that set_take_subset [of k ?W] by (meson image_mono subsetD)
    then show ?thesis by (rule replay_other)
  qed
  have "?e L = disk s L" using e log_writes_fst(2) [OF g] by blast
  then have "log_n L ?e = 0" using s by (simp add: ready_def log_n_def)
  moreover have "?e m = disk s m" if "\<not> in_log L N m" for m using e log_writes_fst(3) [OF g that] by blast
  ultimately have "leads L N (disksize s) (disk s) ?e" using g by (simp add: leads_def geometry_def)
  then show ?thesis unfolding t .
qed

lemma crash_after:
  assumes s: "ready L N s" and k: "nat (lh_n (lh (log s))) < k"
  shows "leads L N (disksize s) (view s) (replay (take k (commit_writes L (lh (log s)) (view s))) (disk s))"
proof -
  define h hb n where "h = lh (log s)" and "hb = lh_block h" and "n = nat (lh_n h)"
  let ?W = "log_writes L hb [0..<n] (view s)" and ?H = "put_head h (view s L)"
  let ?D = "replay (?W @ [(L, ?H)]) (disk s)"
  have g: "geometry L N (disksize s) n hb" and n: "0 < lh_n h" "lh_n h < 1000" and same: "\<And>m. \<not> in_log L N m \<Longrightarrow> m \<notin> hb ` {..<n} \<Longrightarrow> disk s m = view s m"
    using ready_facts [OF s] by (simp_all add: h_def hb_def n_def)
  have DL: "?D L = ?H" by simp
  have nD: "log_n L ?D = n" using head_load(1) [of h] n DL by (simp add: log_n_def n_def)
  have hD: "log_home L ?D i = hb i" if "i < n" for i
  proof -
    have "int i < lh_n h" using that by (simp add: n_def)
    then show ?thesis using head_load(2) [of h i "view s L"] n DL by (simp add: log_home_def hb_def)
  qed
  have pos: "?D (lpos L i) = view s (hb i)" if "i < n" for i
    using logged [OF g that] lpos_facts(3) [OF g that] by simp
  have im: "log_home L ?D ` {..<n} = hb ` {..<n}" using hD by auto
  have "?D m = view s m" if "\<not> in_log L N m" "m \<notin> hb ` {..<n}" for m
    using that same [OF that] replay_other [OF log_writes_fst(3) [OF g that(1)]] head_in_log [of L N] by auto
  then have lead: "leads L N (disksize s) (view s) ?D"
    unfolding leads_def nD im using g geometry_cong [of n "log_home L ?D" hb] hD pos by simp
  have "install_writes L (log_home L ?D) [0..<n] ?D = map (\<lambda>i. (hb i, view s (hb i))) [0..<n]"
    unfolding install_writes_def by (rule map_cong) (use hD pos in auto)
  then have rec: "commit_writes L h (view s) = (?W @ [(L, ?H)]) @ recovery_writes L ?D"
    unfolding commit_writes_def recovery_writes_def nD DL Let_def n_def [symmetric] hb_def [symmetric] by simp
  have "length (?W @ [(L, ?H)]) = Suc n" by (simp add: log_writes_def)
  then have "take k (commit_writes L h (view s)) = (?W @ [(L, ?H)]) @ take (k - Suc n) (recovery_writes L ?D)"
    using k unfolding rec take_append by (simp add: n_def h_def)
  then have "replay (take k (commit_writes L h (view s))) (disk s) = replay (take (k - Suc n) (recovery_writes L ?D)) ?D" by simp
  then show ?thesis using leads_prefix [OF lead, of "k - Suc n"] unfolding h_def by simp
qed

lemma commit_disk:
  assumes s: "ready L N s" and m: "\<not> in_log L N m"
  shows "replay (commit_writes L (lh (log s)) (view s)) (disk s) m = view s m"
    and "replay (commit_writes L (lh (log s)) (view s)) (view s) m = view s m"
proof -
  let ?h = "lh (log s)" and ?n = "nat (lh_n (lh (log s)))"
  let ?W = "log_writes L (lh_block ?h) [0..<?n] (view s)" and ?I = "map (\<lambda>i. (lh_block ?h i, view s (lh_block ?h i))) [0..<?n]"
  note g = ready_facts(2) [OF s]
  have L: "m \<noteq> L" using m head_in_log by blast
  have W: "replay ?W e m = e m" for e using replay_other [OF log_writes_fst(3) [OF g m]] .
  have I: "replay ?I e m = (if m \<in> lh_block ?h ` {..<?n} then view s m else e m)" for e
  proof (cases "m \<in> lh_block ?h ` {..<?n}")
    case True
    then have "(m, view s m) \<in> set ?I" by auto
    moreover have "distinct (map fst ?I)" using g by (simp add: distinct_map o_def geometry_def atLeast0LessThan)
    ultimately show ?thesis using replay_in True by simp
  next
    case False
    then have "m \<notin> fst ` set ?I" by force
    then show ?thesis using replay_other False by simp
  qed
  have c: "replay (commit_writes L ?h (view s)) e m = replay ?I ((replay ?W e)(L := put_head ?h (view s L))) m" for e
    using L by (simp add: commit_writes_def Let_def)
  show "replay (commit_writes L ?h (view s)) (disk s) m = view s m" "replay (commit_writes L ?h (view s)) (view s) m = view s m"
    unfolding c I using W L ready_facts(1) [OF s m] by auto
qed

section \<open>Properties\<close>

text \<open>A state of two buffers: one holds a changed block 50 that the log has recorded, the other
  one has never been used.\<close>

definition blank_buf :: buf where
  "blank_buf = \<lparr>bvalid = False, bdirty = False, bdev = 0, blockno = 0, brefcnt = 0, bdata = (\<lambda>_. 0)\<rparr>"

definition demo_boot :: "(uint \<Rightarrow> block) \<Rightarrow> lstate" where
  "demo_boot d = demo_l\<lparr>bufs := [blank_buf, blank_buf], disk := d\<rparr>"

definition demo_txn :: lstate where
  "demo_txn = demo_l\<lparr>bufs := [blank_buf\<lparr>bvalid := True, bdirty := True, bdev := 1, blockno := 50, bdata := (\<lambda>_. 7)\<rparr>, blank_buf],
     log := (log demo_l)\<lparr>lh := \<lparr>lh_n = 1, lh_block = (\<lambda>_. 50)\<rparr>\<rparr>\<rparr>"

lemma demo_sel:
  "disk (demo_boot d) = d" "disk demo_txn = (\<lambda>_ _. 0)" "disksize (demo_boot d) = 100" "disksize demo_txn = 100"
  "lstart (log (demo_boot d)) = 2" "lstart (log demo_txn) = 2" "ldev (log (demo_boot d)) = 1" "ldev (log demo_txn) = 1"
  "\<not> busy (demo_boot d) i" "\<not> busy demo_txn i" "hw (demo_boot d) = run_hw" "hw demo_txn = run_hw" "lru (demo_boot d) = [0, 1]" "lru demo_txn = [0, 1]"
  "procs (demo_boot d) = demo_proc # replicate 63 idle_proc" "procs demo_txn = demo_proc # replicate 63 idle_proc"
  using demo_b_sel by (simp_all add: demo_boot_def demo_txn_def demo_l_def demo_b_def pstate.defs bstate.defs lstate.defs)

lemma demo_log:
  "log (demo_boot d) = \<lparr>lstart = 2, lsize = 30, outstanding = 0, committing = False, ldev = 1, lh = \<lparr>lh_n = 0, lh_block = (\<lambda>_. 0)\<rparr>\<rparr>"
  "log demo_txn = \<lparr>lstart = 2, lsize = 30, outstanding = 0, committing = False, ldev = 1, lh = \<lparr>lh_n = 1, lh_block = (\<lambda>_. 50)\<rparr>\<rparr>"
  by (simp_all add: demo_boot_def demo_txn_def demo_l_def demo_b_def pstate.defs bstate.defs lstate.defs)

definition txn_buf :: buf where
  "txn_buf = blank_buf\<lparr>bvalid := True, bdirty := True, bdev := 1, blockno := 50, bdata := (\<lambda>_. 7)\<rparr>"

lemma demo_bufs: "bufs (demo_boot d) = [blank_buf, blank_buf]" "bufs demo_txn = [txn_buf, blank_buf]"
  by (simp_all add: demo_boot_def demo_txn_def txn_buf_def)

lemma demo_buf_sel [simp]:
  "bdev blank_buf = 0" "\<not> bdirty blank_buf" "brefcnt blank_buf = 0" "bdev txn_buf = 1" "bdirty txn_buf" "bvalid txn_buf"
  "brefcnt txn_buf = 0" "blockno txn_buf = 50"
  by (simp_all add: blank_buf_def txn_buf_def)

lemma demo_bok: "bok (demo_boot d)" "bok demo_txn"
  using run_hw_ok run_hw_free by (simp_all add: bok_def demo_sel)

lemma demo_caches: "\<not> caches (demo_boot d) n i" "caches demo_txn n i \<longleftrightarrow> n = 50 \<and> i = 0"
proof -
  have "i = 0 \<or> i = 1 \<or> 2 \<le> i" by auto
  then show "\<not> caches (demo_boot d) n i" "caches demo_txn n i \<longleftrightarrow> n = 50 \<and> i = 0" by (auto simp: caches_def demo_bufs)
qed

lemma demo_sets: "held (demo_boot d) = {}" "held demo_txn = {}" "dirties (demo_boot d) = {}" "dirties demo_txn = {50}" "{0, 1} \<subseteq> spare (demo_boot d)" "1 \<in> spare demo_txn"
  by (simp_all add: held_def dirties_def spare_def demo_sel demo_caches) (simp_all add: demo_bufs)

lemma demo_binv: "binv (demo_boot d)" "binv demo_txn"
proof -
  have "buf_ok (demo_boot d) i" "buf_ok demo_txn i" if "i = 0 \<or> i = 1" for i
    using that demo_sel(9,10) by (auto simp: buf_ok_def demo_bufs Let_def)
  then have "buf_ok (demo_boot d) i" "buf_ok demo_txn i" if "i < 2" for i using less_2_cases that by auto
  then show "binv (demo_boot d)" "binv demo_txn" using demo_bok by (auto simp: binv_def demo_sel demo_caches demo_bufs)
qed

lemma demo_booted: "booted 2 (demo_boot d)"
  using demo_binv(1) [of d] demo_sets(1,3,5) [of d] by (auto simp: booted_def quiet_def demo_sel)

lemma zero_load: "load32 (\<lambda>_. 0) a = 0"
  by (simp add: load32_def)

lemma demo_ready: "ready 2 29 demo_txn"
proof -
  have h: "lh (log demo_txn) = \<lparr>lh_n = 1, lh_block = (\<lambda>_. 50)\<rparr>" by (simp add: demo_txn_def)
  have "quiet demo_txn" using demo_binv demo_sets by (auto simp: quiet_def demo_sel)
  moreover have "geometry 2 29 100 1 (\<lambda>_. 50)" by (simp add: geometry_def in_log_def inj_on_def)
  moreover have "log_n 2 (\<lambda>_ _. 0) = 0" by (simp add: log_n_def sint32_def zero_load)
  ultimately show ?thesis using h demo_sets(4) by (auto simp: ready_def demo_sel)
qed

text \<open>C2: A transaction commits atomically. Whatever number \<open>k\<close> of the disk writes of \<open>commit\<close> was made
  when the machine crashed, and however often and wherever the recoveries after it were
  cut short by further crashes, the recovery that completes leaves every block outside the log as it
  was before the transaction (while the header was not yet written, \<open>k \<le> n\<close>) or as the
  transaction left it in the cache. \<open>commit\<close> itself returns, with nothing left pinned and the view unchanged.\<close>

theorem commit_atomic:
  assumes "ready L N s"
  shows "\<exists>t ws. commit s = Ok t \<and> wtrace t = wtrace s @ ws \<and> disk t = replay ws (disk s) \<and> dirties t = {}
     \<and> (\<forall>m. \<not> in_log L N m \<longrightarrow> disk t m = view s m \<and> view t m = view s m)
     \<and> (\<forall>k ks r. booted L r \<and> disksize r = disksize s \<and> disk r = crashes L ks (replay (take k ws) (disk s)) \<longrightarrow>
          (\<exists>u. recover_from_log r = Ok u \<and> (\<forall>m. \<not> in_log L N m \<longrightarrow>
             disk u m = (if k \<le> nat (lh_n (lh (log s))) then disk s m else view s m))))"
proof -
  let ?n = "nat (lh_n (lh (log s)))" and ?ws = "commit_writes L (lh (log s)) (view s)"
  obtain t where t: "commit s = Ok t" "steps (set_lhn 0 s) ?ws t" using commit_ok [OF assms] by blast
  have t': "disk t = replay ?ws (disk s)" "view t = replay ?ws (view s)" "wtrace t = wtrace s @ ?ws" "dirties t = dirties s - fst ` set ?ws"
    using t(2) by (simp_all add: steps_def did_def set_lhn_def)
  have "dirties s \<subseteq> fst ` set ?ws" using assms by (force simp: ready_def commit_writes_def Let_def)
  then have clean: "dirties t = {}" using t'(4) by blast
  have rec: "\<exists>u. recover_from_log r = Ok u \<and> (\<forall>m. \<not> in_log L N m \<longrightarrow> disk u m = v m)"
    if r: "booted L r" "disksize r = disksize s" "disk r = crashes L ks d" and l: "leads L N (disksize s) v d" for r ks v d
  proof -
    have lead: "leads L N (disksize r) v (disk r)" using leads_crashes [OF l] r(2,3) by simp
    then have "geometry L N (disksize r) (log_n L (disk r)) (log_home L (disk r))" by (simp add: leads_def)
    then obtain u where "recover_from_log r = Ok u" "disk u = recovered L (disk r)" using recover_ok [OF r(1)] by blast
    then show ?thesis using leads_recovered [OF lead] by auto
  qed
  have "disk t m = view s m \<and> view t m = view s m" if "\<not> in_log L N m" for m
    using commit_disk [OF assms that] t' by simp
  moreover have "\<exists>u. recover_from_log r = Ok u \<and> (\<forall>m. \<not> in_log L N m \<longrightarrow> disk u m = (if k \<le> ?n then disk s m else view s m))"
    if "booted L r \<and> disksize r = disksize s \<and> disk r = crashes L ks (replay (take k ?ws) (disk s))" for k ks r
    using that rec [of r ks "replay (take k ?ws) (disk s)"] crash_before [OF assms, of k] crash_after [OF assms, of k]
    by (cases "k \<le> ?n") auto
  ultimately show ?thesis using t(1) t' clean by blast
qed

theorem commit_atomic_witness:
  "ready 2 29 demo_txn \<and> (\<exists>t ws. commit demo_txn = Ok t \<and> wtrace t = wtrace demo_txn @ ws \<and> disk t 50 = (\<lambda>_. 7)
     \<and> (\<exists>u. recover_from_log (demo_boot (crashes 2 [0, 1] (replay (take 1 ws) (disk demo_txn)))) = Ok u \<and> disk u 50 = (\<lambda>_. 0))
     \<and> (\<exists>u. recover_from_log (demo_boot (crashes 2 [0, 1] (replay (take 2 ws) (disk demo_txn)))) = Ok u \<and> disk u 50 = (\<lambda>_. 7)))"
proof -
  have v: "view demo_txn 50 = (\<lambda>_. 7)"
    using view_hit [OF demo_binv(2), of 50 0] demo_caches(2) by (simp add: demo_bufs txn_buf_def)
  have out: "\<not> in_log 2 29 50" by (simp add: in_log_def)
  have n: "nat (lh_n (lh (log demo_txn))) = 1" by (simp add: demo_txn_def)
  obtain t ws where c: "commit demo_txn = Ok t" "wtrace t = wtrace demo_txn @ ws" "disk t 50 = (\<lambda>_. 7)"
    and r: "\<And>k ks (r :: lstate). booted 2 r \<Longrightarrow> disksize r = disksize demo_txn \<Longrightarrow> disk r = crashes 2 ks (replay (take k ws) (disk demo_txn)) \<Longrightarrow>
      \<exists>u. recover_from_log r = Ok u \<and> disk u 50 = (if k \<le> 1 then disk demo_txn 50 else view demo_txn 50)"
    using commit_atomic [OF demo_ready] out v unfolding n by metis
  have "\<exists>u. recover_from_log (demo_boot (crashes 2 ks (replay (take k ws) (disk demo_txn)))) = Ok u
      \<and> disk u 50 = (if k \<le> 1 then disk demo_txn 50 else view demo_txn 50)" for k ks
    by (rule r) (simp_all add: demo_booted demo_sel)
  from this [where k = 1 and ks = "[0, 1]"] this [where k = 2 and ks = "[0, 1]"]
  show ?thesis using c v demo_ready by (auto simp: demo_sel)
qed

text \<open>C14: Recovery. On a machine that has just started, with a header that lists at most \<open>LOGSIZE\<close> blocks, all different and
  outside the log, \<open>recover_from_log\<close> returns; it has copied the blocks that the header on disk lists from the log to
  their homes, in order, and then cleared the header; running it again leaves the whole disk as it is.\<close>

theorem recover_from_log_spec:
  assumes "booted L r" "geometry L N (disksize r) (log_n L (disk r)) (log_home L (disk r))"
  shows "\<exists>t u. recover_from_log r = Ok t \<and> wtrace t = wtrace r @ recovery_writes L (disk r) \<and> disk t = recovered L (disk r)
     \<and> log_n L (disk t) = 0 \<and> lh_n (lh (log t)) = 0 \<and> view t = disk t
     \<and> recover_from_log t = Ok u \<and> disk u = disk t"
proof -
  obtain t where t: "recover_from_log r = Ok t" "booted L t" "disk t = recovered L (disk r)"
      "wtrace t = wtrace r @ recovery_writes L (disk r)" "lh_n (lh (log t)) = 0" "disksize t = disksize r"
    using recover_ok [OF assms] by blast
  have L: "disk t L = store32 (disk r L) 0 0" using t(3) by (simp add: recovered_def recovery_writes_def)
  then have n: "log_n L (disk t) = 0" by (simp add: log_n_def sint32_def)
  then have "geometry L N (disksize t) (log_n L (disk t)) (log_home L (disk t))" using assms(2) t(6) by (simp add: geometry_def)
  then obtain u where u: "recover_from_log t = Ok u" "disk u = recovered L (disk t)" using recover_ok [OF t(2)] by blast
  have "store32 (disk t L) 0 0 = disk t L" unfolding L by (simp add: store32_def fun_eq_iff)
  then have "disk u = disk t" using u(2) n by (simp add: recovered_def recovery_writes_def install_writes_def fun_upd_idem)
  then show ?thesis using t n u booted_view [OF t(2)] by blast
qed

theorem recover_from_log_spec_witness:
  "\<exists>t. recover_from_log (demo_boot ((\<lambda>_ _. 0)(2 := put_head \<lparr>lh_n = 1, lh_block = (\<lambda>_. 50)\<rparr> (\<lambda>_. 0), 3 := (\<lambda>_. 7)))) = Ok t
     \<and> disk t 50 = (\<lambda>_. 7) \<and> log_n 2 (disk t) = 0"
proof -
  let ?h = "\<lparr>lh_n = 1, lh_block = (\<lambda>_. 50)\<rparr>"
  let ?d = "(\<lambda>_ _. 0)(2 := put_head ?h (\<lambda>_. 0), 3 := (\<lambda>_. 7)) :: uint \<Rightarrow> block"
  have n: "log_n 2 ?d = 1" using head_load(1) [of ?h] by (simp add: log_n_def)
  have h: "log_home 2 ?d 0 = 50" using head_load(2) [of ?h 0] by (simp add: log_home_def)
  then have "geometry 2 29 100 (log_n 2 ?d) (log_home 2 ?d)" unfolding n by (simp add: geometry_def in_log_def inj_on_def)
  then obtain t where t: "recover_from_log (demo_boot ?d) = Ok t" "disk t = recovered 2 ?d" "log_n 2 (disk t) = 0"
    using recover_from_log_spec [OF demo_booted, of 29 ?d] by (auto simp: demo_sel)
  have "recovered 2 ?d 50 = (\<lambda>_. 7)" unfolding recovered_def recovery_writes_def n using h by (simp add: install_writes_def)
  then show ?thesis using t by auto
qed

text \<open>The header survives the disk. What \<open>write_head\<close> wrote, \<open>read_head\<close> on a machine started afterwards
  reads back: the count and every block number.\<close>

theorem head_roundtrip:
  assumes "quiet s" "lstart (log s) = L" "L < disksize s" "L \<notin> dirties s" "0 \<le> lh_n (lh (log s))" "lh_n (lh (log s)) \<le> LOGSIZE"
  shows "\<exists>t. write_head s = Ok t \<and> (\<forall>r. booted L r \<and> disksize r = disksize s \<and> disk r = disk t \<longrightarrow>
     (\<exists>u. read_head r = Ok u \<and> lh_n (lh (log u)) = lh_n (lh (log s))
       \<and> (\<forall>i. int i < lh_n (lh (log s)) \<longrightarrow> lh_block (lh (log u)) i = lh_block (lh (log s)) i)))"
proof -
  let ?h = "lh (log s)"
  obtain t where t: "write_head s = Ok t" "steps s [(L, put_head ?h (view s L))] t" using write_head_ok [OF assms(1-4,6)] by blast
  then have L: "disk t L = put_head ?h (view s L)" by (simp add: steps_def did_def)
  have "\<exists>u. read_head r = Ok u \<and> lh_n (lh (log u)) = lh_n ?h \<and> (\<forall>i. int i < lh_n ?h \<longrightarrow> lh_block (lh (log u)) i = lh_block ?h i)"
    if r: "booted L r \<and> disksize r = disksize s \<and> disk r = disk t" for r
  proof -
    have "quiet r" "lstart (log r) = L" "dirties r = {}" using r by (simp_all add: booted_def)
    moreover have "sint32 (load32 (view r L) 0) \<le> LOGSIZE" using booted_view [of L r] r L head_load(1) [of ?h] assms(5,6) by simp
    ultimately obtain u where u: "read_head r = Ok u" "steps (r\<lparr>log := (log r)\<lparr>lh := get_head (lh (log r)) (view r L)\<rparr>\<rparr>) [] u"
      using read_head_ok [of r L] r assms(3) by auto
    have "lh (log u) = get_head (lh (log r)) (put_head ?h (view s L))"
      using steps_same(1) [OF u(2)] booted_view [of L r] r L by simp
    then show ?thesis using u(1) head_load [of ?h] assms(5,6) by (simp add: get_head_def)
  qed
  then show ?thesis using t(1) by blast
qed

theorem head_roundtrip_witness:
  "\<exists>t. write_head demo_txn = Ok t \<and> (\<exists>u. read_head (demo_boot (disk t)) = Ok u \<and> lh_n (lh (log u)) = 1 \<and> lh_block (lh (log u)) 0 = 50)"
proof -
  have q: "quiet demo_txn" using demo_ready by (simp add: ready_def)
  have h: "lh (log demo_txn) = \<lparr>lh_n = 1, lh_block = (\<lambda>_. 50)\<rparr>" by (simp add: demo_txn_def)
  obtain t where t: "write_head demo_txn = Ok t" and r: "\<And>r :: lstate. booted 2 r \<Longrightarrow> disksize r = 100 \<Longrightarrow> disk r = disk t \<Longrightarrow>
     \<exists>u. read_head r = Ok u \<and> lh_n (lh (log u)) = 1 \<and> lh_block (lh (log u)) 0 = 50"
    using head_roundtrip [OF q, of 2] h by (fastforce simp: demo_sel demo_sets)
  have "\<exists>u. read_head (demo_boot (disk t)) = Ok u \<and> lh_n (lh (log u)) = 1 \<and> lh_block (lh (log u)) 0 = 50"
    by (rule r) (simp_all add: demo_booted demo_sel)
  with t show ?thesis by blast
qed

end
