(* ===== verification/Txn.thy ===== *)
theory Txn
  imports Crash
begin

text \<open>
  Transactions as the file system calls see them: the reservation of \<open>begin_op\<close> and the recording of
  a changed block by \<open>log_write\<close>, which pins the block in the cache until \<open>commit\<close>.
\<close>

definition pinned :: "'z lstate_scheme \<Rightarrow> bool" where
  "pinned s \<longleftrightarrow> (let h = lh (log s) in 0 \<le> lh_n h \<and> inj_on (lh_block h) {..<nat (lh_n h)}
     \<and> dirties s = lh_block h ` {..<nat (lh_n h)})"

lemma log_index_spec:
  "let j = log_index i k f bn in i \<le> j \<and> j \<le> i + k \<and> (j < i + k \<longrightarrow> f j = bn) \<and> (\<forall>l. i \<le> l \<and> l < j \<longrightarrow> f l \<noteq> bn)"
proof (induction k arbitrary: i)
  case (Suc k)
  show ?case
  proof (cases "f i = bn")
    case False
    then have "i \<le> l \<and> l < j \<longleftrightarrow> l = i \<and> i < j \<or> Suc i \<le> l \<and> l < j" for l j by auto
    then show ?thesis using Suc [of "Suc i"] False by (auto simp: Let_def)
  qed auto
qed auto

definition absorb :: "uint \<Rightarrow> loghdr \<Rightarrow> loghdr" where
  "absorb n h = (let i = log_index 0 (nat (lh_n h)) (lh_block h) n in
     h\<lparr>lh_block := (lh_block h)(i := n), lh_n := (if int i = lh_n h then lh_n h + 1 else lh_n h)\<rparr>)"

lemma absorb_spec:
  assumes "0 \<le> lh_n h" "inj_on (lh_block h) {..<nat (lh_n h)}"
  defines "B \<equiv> lh_block h ` {..<nat (lh_n h)}"
  shows "inj_on (lh_block (absorb n h)) {..<nat (lh_n (absorb n h))}"
    and "lh_block (absorb n h) ` {..<nat (lh_n (absorb n h))} = insert n B"
    and "lh_n (absorb n h) = lh_n h + (if n \<in> B then 0 else 1)"
proof -
  let ?m = "nat (lh_n h)" and ?i = "log_index 0 (nat (lh_n h)) (lh_block h) n"
  have i: "?i \<le> ?m" "?i < ?m \<Longrightarrow> lh_block h ?i = n" "\<And>l. l < ?i \<Longrightarrow> lh_block h l \<noteq> n"
    using log_index_spec [of 0 ?m "lh_block h" n] by (simp_all add: Let_def)
  have "inj_on (lh_block (absorb n h)) {..<nat (lh_n (absorb n h))} \<and> lh_block (absorb n h) ` {..<nat (lh_n (absorb n h))} = insert n B
    \<and> lh_n (absorb n h) = lh_n h + (if n \<in> B then 0 else 1)"
  proof (cases "?i < ?m")
    case True
    have same: "(lh_block h)(?i := n) = lh_block h" using i(2) [OF True] by (intro fun_upd_idem) simp
    have "int ?i \<noteq> lh_n h" using True assms(1) by linarith
    then have "absorb n h = h" unfolding absorb_def Let_def same by simp
    moreover have "n \<in> B" unfolding B_def using True i(2) [OF True] by (intro image_eqI [of n _ ?i]) simp_all
    ultimately show ?thesis using assms by auto
  next
    case False
    then have e: "?i = ?m" using i(1) by simp
    then have new: "\<And>l. l < ?m \<Longrightarrow> lh_block h l \<noteq> n" using i(3) by simp
    have a: "absorb n h = h\<lparr>lh_block := (lh_block h)(?m := n), lh_n := lh_n h + 1\<rparr>" using e assms(1) by (simp add: absorb_def Let_def)
    have m: "nat (lh_n h + 1) = Suc ?m" using assms(1) by simp
    have nb: "n \<notin> lh_block h ` {..<?m}" using new by auto
    have "inj_on ((lh_block h)(?m := n)) {..<Suc ?m}"
      using assms(2) nb by (auto simp: inj_on_def less_Suc_eq image_iff)
    moreover have "((lh_block h)(?m := n)) ` {..<Suc ?m} = insert n B" by (auto simp: B_def lessThan_Suc)
    moreover have "n \<notin> B" using nb by (simp add: B_def)
    ultimately show ?thesis unfolding a by (simp add: m)
  qed
  then show "inj_on (lh_block (absorb n h)) {..<nat (lh_n (absorb n h))}"
    "lh_block (absorb n h) ` {..<nat (lh_n (absorb n h))} = insert n B"
    "lh_n (absorb n h) = lh_n h + (if n \<in> B then 0 else 1)" by blast+
qed

text \<open>Logging a block whose buffer has been given the data \<open>d\<close>. Outside the cache and the disk only the
  header of the log changes.\<close>

definition lmod :: "'z lstate_scheme \<Rightarrow> 'z lstate_scheme \<Rightarrow> bool" where
  "lmod s t \<longleftrightarrow> (\<exists>h. bmod (s\<lparr>log := (log s)\<lparr>lh := h\<rparr>\<rparr>) t)"

definition txn_open :: "int \<Rightarrow> 'z lstate_scheme \<Rightarrow> bool" where
  "txn_open k s \<longleftrightarrow> lock_free LogLock (hw s) \<and> pinned s \<and> 1 \<le> outstanding (log s)
     \<and> lh_n (lh (log s)) + k \<le> LOGSIZE \<and> lh_n (lh (log s)) + k \<le> lsize (log s) - 1"

lemma log_write_ok:
  fixes s :: "'z lstate_scheme"
  assumes inv: "binv s" and b: "b \<in> held s" "caches s n b" and txn: "txn_open 1 s"
  shows "\<exists>t. log_write b (poke b d s) = Ok t \<and> binv t \<and> pinned t \<and> dirties t = insert n (dirties s) \<and> held t = held s
      \<and> spare t = spare s \<and> view t = (view s)(n := d) \<and> disk t = disk s \<and> wtrace t = wtrace s \<and> bdirty (the_buf t b)
      \<and> lock_free LogLock (hw t) \<and> bmod (s\<lparr>log := (log s)\<lparr>lh := absorb n (lh (log s))\<rparr>\<rparr>) t
      \<and> lh_n (lh (log t)) = lh_n (lh (log s)) + (if n \<in> dirties s then 0 else 1)"
proof -
  let ?l = "(log s)\<lparr>lh := absorb n (lh (log s))\<rparr>" and ?k = "cycled (mem s) LogLock (hw s)"
  let ?x = "(the_buf s b)\<lparr>bdata := d, bdirty := True, bvalid := True\<rparr>"
  let ?s = "s\<lparr>log := ?l\<rparr>"
  let ?t = "?s\<lparr>hw := ?k, bufs := (bufs ?s)[b := ?x], disk := disk ?s, wtrace := wtrace ?s\<rparr>"
  have hw: "hw_ok (hw s)" using inv by (simp add: binv_def bok_def)
  have free: "lock_free LogLock (hw s)" and pin: "pinned s" using txn by (simp_all add: txn_open_def)
  have x: "bvalid (the_buf s b)" "blockno (the_buf s b) = n" "b < length (bufs s)"
    using inv b by (auto simp: binv_def buf_ok_def caches_def Let_def)
  have xe: "?x = (the_buf s b)\<lparr>bdata := d, bdirty := True\<rparr>" using x(1) by (intro buf.equality) simp_all
  have "log_write b (poke b d s) = unlock LogLock (?t\<lparr>hw := acquired (mem s) LogLock (hw s)\<rparr>)"
    unfolding xe using txn hw free x by (simp add: log_write_def hw_simps Let_def upd_buf_def absorb_def poke_def txn_open_def)
  also have "\<dots> = Ok ?t" using unlock_ok [of "?t\<lparr>hw := acquired (mem s) LogLock (hw s)\<rparr>" "mem s" LogLock "hw s"] hw by simp
  finally have run: "log_write b (poke b d s) = Ok ?t" .
  have "binv ?s" "b \<in> held ?s" "caches ?s n b" "hw_same (hw ?s) ?k" using inv b hw_same_cycled [OF hw free] by simp_all
  note sb = set_buf [OF this, where D = "disk ?s" and t = ?t and d = d and e = True and w = "wtrace ?s"]
  have ab: "inj_on (lh_block (absorb n (lh (log s)))) {..<nat (lh_n (absorb n (lh (log s))))}"
    "lh_block (absorb n (lh (log s))) ` {..<nat (lh_n (absorb n (lh (log s))))} = insert n (dirties s)"
    "lh_n (absorb n (lh (log s))) = lh_n (lh (log s)) + (if n \<in> dirties s then 0 else 1)"
    using absorb_spec [of "lh (log s)" n] pin by (simp_all add: pinned_def Let_def)
  have "pinned ?t" using sb(4) ab pin by (simp add: pinned_def Let_def)
  moreover have "lock_free LogLock (hw ?t)" using hw_same_free [OF hw_same_cycled [OF hw free]] free by simp
  moreover have "bdirty (the_buf ?t b)" using x(3) by simp
  ultimately show ?thesis using run sb(1-6) ab(3) by (intro exI [of _ ?t]) simp
qed

text \<open>C15: Logging a block. Outside a transaction, or when the log is full, \<open>log_write\<close> panics. Otherwise it
  pins the block: the blocks in the header stay different from each other and are exactly
  the pinned ones, a block that is there already is absorbed (the count grows only for a
  new one), nothing is written to the disk, and what clients see does not change.\<close>

theorem log_write_spec:
  assumes inv: "binv s" and b: "b \<in> held s" "caches s n b" and free: "lock_free LogLock (hw s)" and pin: "pinned s"
  shows "if lh_n (lh (log s)) \<ge> LOGSIZE \<or> lh_n (lh (log s)) \<ge> lsize (log s) - 1
    then log_write b s = panic ''too big a transaction''
    else if outstanding (log s) < 1 then log_write b s = panic ''log_write outside of trans''
    else \<exists>t. log_write b s = Ok t \<and> binv t \<and> pinned t \<and> dirties t = insert n (dirties s) \<and> held t = held s
      \<and> view t = view s \<and> disk t = disk s \<and> wtrace t = wtrace s
      \<and> lh_n (lh (log t)) = lh_n (lh (log s)) + (if n \<in> dirties s then 0 else 1)"
proof (cases "lh_n (lh (log s)) \<ge> LOGSIZE \<or> lh_n (lh (log s)) \<ge> lsize (log s) - 1 \<or> outstanding (log s) < 1")
  case True
  then show ?thesis by (auto simp: log_write_def)
next
  case False
  then have "txn_open 1 s" using free pin by (simp add: txn_open_def)
  moreover have "poke b (bdata (the_buf s b)) s = s" by (simp add: poke_def upd_buf_def)
  moreover have "view s n = bdata (the_buf s b)" using view_hit [OF inv b(2)] .
  then have "(view s)(n := bdata (the_buf s b)) = view s" by (intro fun_upd_idem) simp
  ultimately show ?thesis using False log_write_ok [OF inv b, of "bdata (the_buf s b)"] by auto
qed

text \<open>The witness: the second buffer in use for block 60, while block 50 is pinned.\<close>

definition demo_busy :: lstate where
  "demo_busy = demo_txn\<lparr>bufs := [txn_buf, txn_buf\<lparr>bdirty := False, blockno := 60, brefcnt := 1\<rparr>],
     slocks := (slocks demo_txn)(BufLock 1 := \<lparr>slocked = True, slname = [], slpid = 1\<rparr>),
     log := (log demo_txn)\<lparr>outstanding := 1\<rparr>\<rparr>"

lemma demo_busy_sel:
  "hw demo_busy = run_hw" "procs demo_busy = demo_proc # replicate 63 idle_proc" "lru demo_busy = [0, 1]"
  "bufs demo_busy = [txn_buf, txn_buf\<lparr>bdirty := False, blockno := 60, brefcnt := 1\<rparr>]" "busy demo_busy i \<longleftrightarrow> i = 1"
  "slpid (slocks demo_busy (BufLock (Suc 0))) = 1" "lh (log demo_busy) = \<lparr>lh_n = 1, lh_block = (\<lambda>_. 50)\<rparr>"
  "lsize (log demo_busy) = 30" "outstanding (log demo_busy) = 1"
  using demo_sel(10) by (simp_all add: demo_busy_def demo_sel demo_log)

lemma demo_busy_caches: "caches demo_busy m i \<longleftrightarrow> m = 50 \<and> i = 0 \<or> m = 60 \<and> i = 1"
proof -
  have "i = 0 \<or> i = 1 \<or> 2 \<le> i" by auto
  then show ?thesis by (auto simp: caches_def demo_busy_sel)
qed

lemma demo_busy_ok: "binv demo_busy" "1 \<in> held demo_busy" "dirties demo_busy = {50}" "pinned demo_busy"
proof -
  show "1 \<in> held demo_busy" by (simp add: held_def demo_busy_sel)
  show d: "dirties demo_busy = {50}"
    unfolding dirties_def demo_busy_caches by (auto simp: demo_busy_sel)
  show "pinned demo_busy" using d by (auto simp: pinned_def Let_def demo_busy_sel inj_on_def)
  have bok: "bok demo_busy" using run_hw_ok run_hw_free by (simp add: bok_def demo_busy_sel)
  have me: "me_pid demo_busy = 1" by (simp add: me_pid_def demo_busy_sel demo_proc_def)
  have "buf_ok demo_busy 0" "buf_ok demo_busy 1" using me by (simp_all add: buf_ok_def demo_busy_sel Let_def)
  then have "buf_ok demo_busy i" if "i < 2" for i using less_2_cases [OF that] by auto
  moreover have "(50 :: uint) \<noteq> 60" by simp
  then have "\<forall>n i j. caches demo_busy n i \<longrightarrow> caches demo_busy n j \<longrightarrow> i = j" unfolding demo_busy_caches by metis
  moreover have "set (lru demo_busy) = {..<2}" "distinct (lru demo_busy)" "length (bufs demo_busy) = 2" by (auto simp: demo_busy_sel)
  ultimately show "binv demo_busy" using bok unfolding binv_def by metis
qed

theorem log_write_spec_witness:
  "\<exists>t. log_write 1 demo_busy = Ok t \<and> pinned t \<and> dirties t = {50, 60} \<and> lh_n (lh (log t)) = 2"
  using log_write_spec [OF demo_busy_ok(1,2), of 60] demo_busy_ok(3,4) demo_busy_caches [of 60 1] run_hw_free [of LogLock]
  by (simp add: demo_busy_sel insert_commute) blast

text \<open>C37: The reservation falls short. In a log of \<open>LOGSIZE\<close> blocks, the size that \<open>mkfs\<close> makes, \<open>begin_op\<close>
  admits three calls of \<open>MAXOPBLOCKS\<close> blocks each, 30 blocks in all; but one block of the log is the header,
  and once 29 blocks are logged \<open>log_write\<close> panics, although a call is still within its reservation.\<close>

theorem log_reservation_short:
  assumes "hw_ok (hw s)" "lock_free LogLock (hw s)" "\<not> committing (log s)" "lsize (log s) = LOGSIZE" "outstanding (log s) = 0" "lh_n (lh (log s)) = 0"
  shows "\<exists>t. repeatE 3 begin_op s = Ok t \<and> outstanding (log t) = 3 \<and> begin_op t = Inl Sleeps
     \<and> log_write b (set_lhn 29 t) = panic ''too big a transaction'' \<and> 29 < outstanding (log t) * MAXOPBLOCKS"
proof -
  have step: "\<exists>k. begin_op u = Ok (u\<lparr>hw := k, log := (log u)\<lparr>outstanding := outstanding (log u) + 1\<rparr>\<rparr>) \<and> hw_ok k \<and> lock_free LogLock k"
    if "hw_ok (hw u)" "lock_free LogLock (hw u)" "\<not> committing (log u)" "lh_n (lh (log u)) = 0" "outstanding (log u) \<le> 2" for u :: "'a lstate_scheme"
  proof -
    have "begin_op u = Ok (u\<lparr>hw := cycled (mem u) LogLock (hw u), log := (log u)\<lparr>outstanding := outstanding (log u) + 1\<rparr>\<rparr>)"
      using that by (simp add: begin_op_def hw_simps)
    then show ?thesis using hw_same_cycled [OF that(1,2)] hw_same_ok hw_same_free that(1,2) by blast
  qed
  obtain a where a: "begin_op s = Ok (s\<lparr>hw := a, log := (log s)\<lparr>outstanding := 1\<rparr>\<rparr>)" "hw_ok a" "lock_free LogLock a"
    using step [of s] assms by auto
  obtain c where c: "begin_op (s\<lparr>hw := a, log := (log s)\<lparr>outstanding := 1\<rparr>\<rparr>) = Ok (s\<lparr>hw := c, log := (log s)\<lparr>outstanding := 2\<rparr>\<rparr>)"
      "hw_ok c" "lock_free LogLock c"
    using step [of "s\<lparr>hw := a, log := (log s)\<lparr>outstanding := 1\<rparr>\<rparr>"] assms a by auto
  obtain d where d: "begin_op (s\<lparr>hw := c, log := (log s)\<lparr>outstanding := 2\<rparr>\<rparr>) = Ok (s\<lparr>hw := d, log := (log s)\<lparr>outstanding := 3\<rparr>\<rparr>)"
      "hw_ok d" "lock_free LogLock d"
    using step [of "s\<lparr>hw := c, log := (log s)\<lparr>outstanding := 2\<rparr>\<rparr>"] assms c by auto
  let ?t = "s\<lparr>hw := d, log := (log s)\<lparr>outstanding := 3\<rparr>\<rparr>"
  have "repeatE 3 begin_op s = Ok ?t" using a(1) c(1) d(1) by (simp add: numeral_eq_Suc)
  moreover have "begin_op ?t = Inl Sleeps" using d(2,3) assms by (simp add: begin_op_def hw_simps)
  moreover have "log_write b (set_lhn 29 ?t) = panic ''too big a transaction''" using assms(4) by (simp add: log_write_def set_lhn_def)
  ultimately show ?thesis by (intro exI [of _ ?t]) simp
qed

theorem log_reservation_short_witness:
  "\<exists>t. repeatE 3 begin_op (demo_boot (\<lambda>_ _. 0)) = Ok t \<and> log_write 0 (set_lhn 29 t) = panic ''too big a transaction''"
  using log_reservation_short [of "demo_boot (\<lambda>_ _. 0)" 0] run_hw_ok run_hw_free [of LogLock]
  by (auto simp: demo_sel demo_log)

end
