(* ===== verification/Fs.thy ===== *)
theory Fs
  imports Logfs
begin

text \<open>
  The file system, \<open>fs.c\<close>: block bitmap, inodes on disk and in the inode cache, file
  contents, directories and path names.

  An inode is its index in \<open>icache.inode\<close>. What \<open>readi\<close> copies to its destination is
  returned as a list of bytes, which the caller puts where the code points; \<open>writei\<close> takes
  the list of the \<open>n\<close> bytes at its source. The table \<open>devsw\<close> of device routines is an
  argument of \<open>readi\<close> and \<open>writei\<close>; a directory is never a device, so the directory
  routines pass the empty table. A path is the list of its characters without the final 0,
  a path element at most \<open>DIRSIZ\<close> of them.
\<close>

section \<open>State\<close>

record inode =
  idev :: uint
  inum :: uint
  iref :: int
  ivalid :: bool
  itype :: ushort
  major :: ushort
  minor :: ushort
  nlink :: ushort
  isize :: uint
  addrs :: "uint list"

record fstate = lstate +
  inodes :: "inode list"
  sb :: superblock

definition ROOTDEV :: uint where [simp]: "ROOTDEV = 1"
definition ROOTINO :: uint where [simp]: "ROOTINO = 1"
definition NDIRECT :: nat where [simp]: "NDIRECT = 12"
definition NINDIRECT :: nat where [simp]: "NINDIRECT = 128"
definition MAXFILE :: nat where [simp]: "MAXFILE = NDIRECT + NINDIRECT"
definition IPB :: uint where [simp]: "IPB = BSIZE div 64"
definition BPB :: uint where [simp]: "BPB = BSIZE * 8"
definition DIRSIZ :: nat where [simp]: "DIRSIZ = 14"
definition NINODE :: nat where [simp]: "NINODE = 50"
definition NDEV :: int where [simp]: "NDEV = 10"
definition T_DIR :: ushort where [simp]: "T_DIR = 1"
definition T_FILE :: ushort where [simp]: "T_FILE = 2"
definition T_DEV :: ushort where [simp]: "T_DEV = 3"

definition IBLOCK :: "uint \<Rightarrow> superblock \<Rightarrow> uint" where
  "IBLOCK i b = i div IPB + inodestart b"

definition BBLOCK :: "uint \<Rightarrow> superblock \<Rightarrow> uint" where
  "BBLOCK n b = n div BPB + bmapstart b"

abbreviation the_inode :: "'z fstate_scheme \<Rightarrow> nat \<Rightarrow> inode" where
  "the_inode s i \<equiv> inodes s ! i"

definition upd_inode :: "nat \<Rightarrow> (inode \<Rightarrow> inode) \<Rightarrow> 'z fstate_scheme \<Rightarrow> 'z fstate_scheme" where
  "upd_inode i f s = s\<lparr>inodes := (inodes s)[i := f (inodes s ! i)]\<rparr>"

section \<open>The on-disk inode\<close>

definition load16 :: "block \<Rightarrow> uint \<Rightarrow> ushort" where
  "load16 d a = ucast (d a) OR push_bit 8 (ucast (d (a + 1)))"

definition store16 :: "block \<Rightarrow> uint \<Rightarrow> ushort \<Rightarrow> block" where
  "store16 d a v = d(a := ucast v, a + 1 := ucast (drop_bit 8 v))"

text \<open>The offset of inode \<open>n\<close> in its block: \<open>struct dinode\<close> has 64 bytes.\<close>

definition dinode_off :: "uint \<Rightarrow> uint" where
  "dinode_off n = (n mod IPB) * 64"

fun load_words :: "block \<Rightarrow> uint \<Rightarrow> nat \<Rightarrow> uint list" where
  "load_words d a 0 = []"
| "load_words d a (Suc k) = load32 d a # load_words d (a + 4) k"

fun store_words :: "block \<Rightarrow> uint \<Rightarrow> uint list \<Rightarrow> block" where
  "store_words d a [] = d"
| "store_words d a (w # ws) = store_words (store32 d a w) (a + 4) ws"

definition get_dinode :: "block \<Rightarrow> uint \<Rightarrow> inode \<Rightarrow> inode" where
  "get_dinode d o1 ip = ip\<lparr>itype := load16 d o1, major := load16 d (o1 + 2), minor := load16 d (o1 + 4),
     nlink := load16 d (o1 + 6), isize := load32 d (o1 + 8), addrs := load_words d (o1 + 12) (NDIRECT + 1)\<rparr>"

definition put_dinode :: "block \<Rightarrow> uint \<Rightarrow> inode \<Rightarrow> block" where
  "put_dinode d o1 ip =
     (let d = store16 d o1 (itype ip);
          d = store16 d (o1 + 2) (major ip);
          d = store16 d (o1 + 4) (minor ip);
          d = store16 d (o1 + 6) (nlink ip);
          d = store32 d (o1 + 8) (isize ip)
      in store_words d (o1 + 12) (addrs ip))"

section \<open>Blocks\<close>

definition bzero :: "uint \<Rightarrow> uint \<Rightarrow> 'z lstate_scheme \<Rightarrow> 'z lstate_scheme res" where
  "bzero dev bno s =
     bindE (bread dev bno s) (\<lambda>(b, s).
     let s = upd_buf b (\<lambda>x. x\<lparr>bdata := memset (bdata x) 0 0 BSIZE\<rparr>) s in
     bindE (log_write b s) (brelse b))"

text \<open>The bit of block \<open>bi\<close> in a bitmap block, and the first clear one from \<open>bi\<close> on among
  the next \<open>k\<close> that lie below \<open>lim\<close>.\<close>

definition bit_mask :: "uint \<Rightarrow> byte" where
  "bit_mask bi = push_bit (unat (bi mod 8)) 1"

definition bit_used :: "block \<Rightarrow> uint \<Rightarrow> bool" where
  "bit_used d bi \<longleftrightarrow> d (bi div 8) AND bit_mask bi \<noteq> 0"

fun find_bit :: "nat \<Rightarrow> block \<Rightarrow> uint \<Rightarrow> uint \<Rightarrow> uint \<Rightarrow> uint option" where
  "find_bit 0 d b bi lim = None"
| "find_bit (Suc k) d b bi lim =
     (if b + bi < lim then if \<not> bit_used d bi then Some bi else find_bit k d b (bi + 1) lim
      else None)"

definition set_bit :: "uint \<Rightarrow> block \<Rightarrow> block" where
  "set_bit bi d = d(bi div 8 := d (bi div 8) OR bit_mask bi)"

definition clear_bit :: "uint \<Rightarrow> block \<Rightarrow> block" where
  "clear_bit bi d = d(bi div 8 := d (bi div 8) AND NOT (bit_mask bi))"

fun balloc_loop :: "nat \<Rightarrow> uint \<Rightarrow> uint \<Rightarrow> 'z fstate_scheme \<Rightarrow> (uint \<times> 'z fstate_scheme) res" where
  "balloc_loop 0 dev b s = Inl Loops"
| "balloc_loop (Suc k) dev b s =
     (if b < sb_size (sb s) then
        bindE (bread dev (BBLOCK b (sb s)) s) (\<lambda>(bp, s).
        case find_bit (unat BPB) (bdata (the_buf s bp)) b 0 (sb_size (sb s)) of
          Some bi \<Rightarrow>
            let s = upd_buf bp (\<lambda>x. x\<lparr>bdata := set_bit bi (bdata x)\<rparr>) s in
            bindE (log_write bp s) (\<lambda>s.
            bindE (brelse bp s) (\<lambda>s.
            bindE (bzero dev (b + bi) s) (\<lambda>s. Ok (b + bi, s))))
        | None \<Rightarrow> bindE (brelse bp s) (balloc_loop k dev (b + BPB)))
      else panic ''balloc: out of blocks'')"

text \<open>There are at most \<open>2 ^ 20\<close> bitmap blocks.\<close>

definition balloc :: "uint \<Rightarrow> 'z fstate_scheme \<Rightarrow> (uint \<times> 'z fstate_scheme) res" where
  "balloc dev s = balloc_loop (Suc (2 ^ 20)) dev 0 s"

definition bfree :: "uint \<Rightarrow> uint \<Rightarrow> 'z fstate_scheme \<Rightarrow> 'z fstate_scheme res" where
  "bfree dev b s =
     bindE (bread dev (BBLOCK b (sb s)) s) (\<lambda>(bp, s).
     let bi = b mod BPB in
     if \<not> bit_used (bdata (the_buf s bp)) bi then panic ''freeing free block''
     else
       let s = upd_buf bp (\<lambda>x. x\<lparr>bdata := clear_bit bi (bdata x)\<rparr>) s in
       bindE (log_write bp s) (brelse bp))"

section \<open>Inodes\<close>

primrec init_inode_locks :: "nat list \<Rightarrow> 'z bstate_scheme \<Rightarrow> 'z bstate_scheme" where
  "init_inode_locks [] s = s"
| "init_inode_locks (i # is) s = init_inode_locks is (initsleeplock (InodeLock i) ''inode'' s)"

definition iinit :: "uint \<Rightarrow> 'z fstate_scheme \<Rightarrow> 'z fstate_scheme res" where
  "iinit dev s =
     (let s = s\<lparr>hw := initlock IcacheLock ''icache'' (hw s)\<rparr>;
          s = init_inode_locks [0..<NINODE] s
      in bindE (readsb dev s) (\<lambda>(b, s).
         Ok (cprintf_msg (''sb: size %d nblocks %d ninodes %d nlog %d logstart %d inodestart %d bmap start %d'' @ [CHR 0x0A])
              (s\<lparr>sb := b\<rparr>))))"

text \<open>The scan of the cache: the entry for an inode if there is one, else the first free
  entry.\<close>

fun icache_scan :: "nat \<Rightarrow> inode list \<Rightarrow> uint \<Rightarrow> uint \<Rightarrow> nat option \<Rightarrow> nat option \<times> nat option" where
  "icache_scan k [] dev n emp = (None, emp)"
| "icache_scan k (ip # ips) dev n emp =
     (if iref ip > 0 \<and> idev ip = dev \<and> inum ip = n then (Some k, emp)
      else icache_scan (Suc k) ips dev n (if emp = None \<and> iref ip = 0 then Some k else emp))"

definition iget :: "uint \<Rightarrow> uint \<Rightarrow> 'z fstate_scheme \<Rightarrow> (nat \<times> 'z fstate_scheme) res" where
  "iget dev n s =
     bindE (lock IcacheLock s) (\<lambda>s.
     case icache_scan 0 (inodes s) dev n None of
       (Some i, _) \<Rightarrow>
         bindE (unlock IcacheLock (upd_inode i (\<lambda>x. x\<lparr>iref := iref x + 1\<rparr>) s)) (\<lambda>s. Ok (i, s))
     | (None, None) \<Rightarrow> panic ''iget: no inodes''
     | (None, Some i) \<Rightarrow>
         bindE (unlock IcacheLock
             (upd_inode i (\<lambda>x. x\<lparr>idev := dev, inum := n, iref := 1, ivalid := False\<rparr>) s)) (\<lambda>s. Ok (i, s)))"

fun ialloc_loop :: "nat \<Rightarrow> uint \<Rightarrow> ushort \<Rightarrow> uint \<Rightarrow> 'z fstate_scheme \<Rightarrow> (nat \<times> 'z fstate_scheme) res" where
  "ialloc_loop 0 dev ty n s = Inl Loops"
| "ialloc_loop (Suc k) dev ty n s =
     (if n < ninodes (sb s) then
        bindE (bread dev (IBLOCK n (sb s)) s) (\<lambda>(bp, s).
        if load16 (bdata (the_buf s bp)) (dinode_off n) = 0 then
          let s = upd_buf bp (\<lambda>x. x\<lparr>bdata :=
                store16 (memset (bdata x) (dinode_off n) 0 64) (dinode_off n) ty\<rparr>) s in
          bindE (log_write bp s) (\<lambda>s.
          bindE (brelse bp s) (iget dev n))
        else bindE (brelse bp s) (ialloc_loop k dev ty (n + 1)))
      else panic ''ialloc: no inodes'')"

definition ialloc :: "uint \<Rightarrow> ushort \<Rightarrow> 'z fstate_scheme \<Rightarrow> (nat \<times> 'z fstate_scheme) res" where
  "ialloc dev ty s = ialloc_loop (Suc (unat (ninodes (sb s)))) dev ty 1 s"

definition iupdate :: "nat \<Rightarrow> 'z fstate_scheme \<Rightarrow> 'z fstate_scheme res" where
  "iupdate ip s =
     bindE (bread (idev (the_inode s ip)) (IBLOCK (inum (the_inode s ip)) (sb s)) s) (\<lambda>(bp, s).
     let s = upd_buf bp (\<lambda>x. x\<lparr>bdata :=
           put_dinode (bdata x) (dinode_off (inum (the_inode s ip))) (the_inode s ip)\<rparr>) s in
     bindE (log_write bp s) (brelse bp))"

definition idup :: "nat \<Rightarrow> 'z fstate_scheme \<Rightarrow> (nat \<times> 'z fstate_scheme) res" where
  "idup ip s =
     bindE (lock IcacheLock s) (\<lambda>s.
     bindE (unlock IcacheLock (upd_inode ip (\<lambda>x. x\<lparr>iref := iref x + 1\<rparr>) s)) (\<lambda>s. Ok (ip, s)))"

definition ilock :: "nat \<Rightarrow> 'z fstate_scheme \<Rightarrow> 'z fstate_scheme res" where
  "ilock ip s =
     (if iref (the_inode s ip) < 1 then panic ''ilock''
      else
        bindE (acquiresleep (InodeLock ip) s) (\<lambda>s.
        if \<not> ivalid (the_inode s ip) then
          bindE (bread (idev (the_inode s ip)) (IBLOCK (inum (the_inode s ip)) (sb s)) s) (\<lambda>(bp, s).
          let s = upd_inode ip (get_dinode (bdata (the_buf s bp)) (dinode_off (inum (the_inode s ip)))) s in
          bindE (brelse bp s) (\<lambda>s.
          let s = upd_inode ip (\<lambda>x. x\<lparr>ivalid := True\<rparr>) s in
          if itype (the_inode s ip) = 0 then panic ''ilock: no type'' else Ok s))
        else Ok s))"

definition iunlock :: "nat \<Rightarrow> 'z fstate_scheme \<Rightarrow> 'z fstate_scheme res" where
  "iunlock ip s =
     bindE (holdingsleep (InodeLock ip) s) (\<lambda>(r, s).
     if \<not> r \<or> iref (the_inode s ip) < 1 then panic ''iunlock''
     else releasesleep (InodeLock ip) s)"

section \<open>File contents\<close>

definition bmap :: "nat \<Rightarrow> uint \<Rightarrow> 'z fstate_scheme \<Rightarrow> (uint \<times> 'z fstate_scheme) res" where
  "bmap ip bn s =
     (if bn < of_nat NDIRECT then
        if addrs (the_inode s ip) ! unat bn = 0 then
          bindE (balloc (idev (the_inode s ip)) s) (\<lambda>(a, s).
          Ok (a, upd_inode ip (\<lambda>x. x\<lparr>addrs := (addrs x)[unat bn := a]\<rparr>) s))
        else Ok (addrs (the_inode s ip) ! unat bn, s)
      else
        let bn = bn - of_nat NDIRECT in
        if bn < of_nat NINDIRECT then
          bindE (if addrs (the_inode s ip) ! NDIRECT = 0 then
                   bindE (balloc (idev (the_inode s ip)) s) (\<lambda>(a, s).
                   Ok (a, upd_inode ip (\<lambda>x. x\<lparr>addrs := (addrs x)[NDIRECT := a]\<rparr>) s))
                 else Ok (addrs (the_inode s ip) ! NDIRECT, s)) (\<lambda>(addr, s).
          bindE (bread (idev (the_inode s ip)) addr s) (\<lambda>(bp, s).
          let addr = load32 (bdata (the_buf s bp)) (4 * bn) in
          bindE (if addr = 0 then
                   bindE (balloc (idev (the_inode s ip)) s) (\<lambda>(a, s).
                   let s = upd_buf bp (\<lambda>x. x\<lparr>bdata := store32 (bdata x) (4 * bn) a\<rparr>) s in
                   bindE (log_write bp s) (\<lambda>s. Ok (a, s)))
                 else Ok (addr, s)) (\<lambda>(addr, s).
          bindE (brelse bp s) (\<lambda>s. Ok (addr, s)))))
        else panic ''bmap: out of range'')"

primrec trunc_direct :: "nat list \<Rightarrow> nat \<Rightarrow> 'z fstate_scheme \<Rightarrow> 'z fstate_scheme res" where
  "trunc_direct [] ip s = Ok s"
| "trunc_direct (i # is) ip s =
     (if addrs (the_inode s ip) ! i \<noteq> 0 then
        bindE (bfree (idev (the_inode s ip)) (addrs (the_inode s ip) ! i) s) (\<lambda>s.
        trunc_direct is ip (upd_inode ip (\<lambda>x. x\<lparr>addrs := (addrs x)[i := 0]\<rparr>) s))
      else trunc_direct is ip s)"

primrec trunc_indirect :: "nat list \<Rightarrow> nat \<Rightarrow> nat \<Rightarrow> 'z fstate_scheme \<Rightarrow> 'z fstate_scheme res" where
  "trunc_indirect [] ip bp s = Ok s"
| "trunc_indirect (j # js) ip bp s =
     (let a = load32 (bdata (the_buf s bp)) (4 * of_nat j) in
      bindE (whenE (a \<noteq> 0) (bfree (idev (the_inode s ip)) a) s) (trunc_indirect js ip bp))"

definition itrunc :: "nat \<Rightarrow> 'z fstate_scheme \<Rightarrow> 'z fstate_scheme res" where
  "itrunc ip s =
     bindE (trunc_direct [0..<NDIRECT] ip s) (\<lambda>s.
     bindE (if addrs (the_inode s ip) ! NDIRECT \<noteq> 0 then
              bindE (bread (idev (the_inode s ip)) (addrs (the_inode s ip) ! NDIRECT) s) (\<lambda>(bp, s).
              bindE (trunc_indirect [0..<NINDIRECT] ip bp s) (\<lambda>s.
              bindE (brelse bp s) (\<lambda>s.
              bindE (bfree (idev (the_inode s ip)) (addrs (the_inode s ip) ! NDIRECT) s) (\<lambda>s.
              Ok (upd_inode ip (\<lambda>x. x\<lparr>addrs := (addrs x)[NDIRECT := 0]\<rparr>) s)))))
            else Ok s) (\<lambda>s.
     iupdate ip (upd_inode ip (\<lambda>x. x\<lparr>isize := 0\<rparr>) s)))"

definition iput :: "nat \<Rightarrow> 'z fstate_scheme \<Rightarrow> 'z fstate_scheme res" where
  "iput ip s =
     bindE (acquiresleep (InodeLock ip) s) (\<lambda>s.
     bindE (if ivalid (the_inode s ip) \<and> nlink (the_inode s ip) = 0 then
              bindE (lock IcacheLock s) (\<lambda>s.
              let r = iref (the_inode s ip) in
              bindE (unlock IcacheLock s) (\<lambda>s.
              if r = 1 then
                bindE (itrunc ip s) (\<lambda>s.
                bindE (iupdate ip (upd_inode ip (\<lambda>x. x\<lparr>itype := 0\<rparr>) s)) (\<lambda>s.
                Ok (upd_inode ip (\<lambda>x. x\<lparr>ivalid := False\<rparr>) s)))
              else Ok s))
            else Ok s) (\<lambda>s.
     bindE (releasesleep (InodeLock ip) s) (\<lambda>s.
     bindE (lock IcacheLock s) (\<lambda>s.
     unlock IcacheLock (upd_inode ip (\<lambda>x. x\<lparr>iref := iref x - 1\<rparr>) s)))))"

definition iunlockput :: "nat \<Rightarrow> 'z fstate_scheme \<Rightarrow> 'z fstate_scheme res" where
  "iunlockput ip s = bindE (iunlock ip s) (iput ip)"

record fstat =
  st_type :: ushort
  st_dev :: uint
  st_ino :: uint
  st_nlink :: ushort
  st_size :: uint

definition stati :: "nat \<Rightarrow> 'z fstate_scheme \<Rightarrow> fstat" where
  "stati ip s = \<lparr>st_type = itype (the_inode s ip), st_dev = idev (the_inode s ip), st_ino = inum (the_inode s ip),
     st_nlink = nlink (the_inode s ip), st_size = isize (the_inode s ip)\<rparr>"

type_synonym 's dev_read = "int \<Rightarrow> (nat \<Rightarrow> uint \<Rightarrow> 's \<Rightarrow> ((int \<times> byte list) \<times> 's) res) option"
type_synonym 's dev_write = "int \<Rightarrow> (nat \<Rightarrow> byte list \<Rightarrow> 's \<Rightarrow> (int \<times> 's) res) option"

fun read_loop :: "nat \<Rightarrow> nat \<Rightarrow> uint \<Rightarrow> uint \<Rightarrow> uint \<Rightarrow> 'z fstate_scheme \<Rightarrow> (byte list \<times> 'z fstate_scheme) res" where
  "read_loop 0 ip tot off n s = Inl Loops"
| "read_loop (Suc k) ip tot off n s =
     (if tot < n then
        bindE (bmap ip (off div BSIZE) s) (\<lambda>(a, s).
        bindE (bread (idev (the_inode s ip)) a s) (\<lambda>(bp, s).
        let m = min (n - tot) (BSIZE - off mod BSIZE);
            bs = get (bdata (the_buf s bp)) (off mod BSIZE) (unat m)
        in
        bindE (brelse bp s) (\<lambda>s.
        bindE (read_loop k ip (tot + m) (off + m) n s) (\<lambda>(rest, s). Ok (bs @ rest, s)))))
      else Ok ([], s))"

definition readi :: "'z fstate_scheme dev_read \<Rightarrow> nat \<Rightarrow> uint \<Rightarrow> uint \<Rightarrow> 'z fstate_scheme
    \<Rightarrow> ((int \<times> byte list) \<times> 'z fstate_scheme) res" where
  "readi devsw ip off n s =
     (let x = the_inode s ip in
      if itype x = T_DEV then
        (if sint (major x) < 0 \<or> sint (major x) \<ge> NDEV then Ok ((-1, []), s)
         else case devsw (sint (major x)) of None \<Rightarrow> Ok ((-1, []), s) | Some f \<Rightarrow> f ip n s)
      else if off > isize x \<or> off + n < off then Ok ((-1, []), s)
      else
        let n = (if off + n > isize x then isize x - off else n) in
        bindE (read_loop (Suc (unat n)) ip 0 off n s) (\<lambda>(bs, s). Ok ((uint n, bs), s)))"

fun write_loop :: "nat \<Rightarrow> nat \<Rightarrow> byte list \<Rightarrow> uint \<Rightarrow> 'z fstate_scheme \<Rightarrow> (uint \<times> 'z fstate_scheme) res" where
  "write_loop 0 ip src off s = Inl Loops"
| "write_loop (Suc k) ip src off s =
     (if src \<noteq> [] then
        bindE (bmap ip (off div BSIZE) s) (\<lambda>(a, s).
        bindE (bread (idev (the_inode s ip)) a s) (\<lambda>(bp, s).
        let m = min (length src) (unat (BSIZE - off mod BSIZE));
            s = upd_buf bp (\<lambda>x. x\<lparr>bdata := put (bdata x) (off mod BSIZE) (take m src)\<rparr>) s
        in
        bindE (log_write bp s) (\<lambda>s.
        bindE (brelse bp s) (\<lambda>s.
        write_loop k ip (drop m src) (off + of_nat m) s))))
      else Ok (off, s))"

definition writei :: "'z fstate_scheme dev_write \<Rightarrow> nat \<Rightarrow> byte list \<Rightarrow> uint \<Rightarrow> 'z fstate_scheme
    \<Rightarrow> (int \<times> 'z fstate_scheme) res" where
  "writei devsw ip src off s =
     (let x = the_inode s ip; n = of_nat (length src) :: uint in
      if itype x = T_DEV then
        (if sint (major x) < 0 \<or> sint (major x) \<ge> NDEV then Ok (-1, s)
         else case devsw (sint (major x)) of None \<Rightarrow> Ok (-1, s) | Some f \<Rightarrow> f ip src s)
      else if off > isize x \<or> off + n < off then Ok (-1, s)
      else if off + n > of_nat MAXFILE * BSIZE then Ok (-1, s)
      else
        bindE (write_loop (Suc (length src)) ip src off s) (\<lambda>(off, s).
        bindE (whenE (n > 0 \<and> off > isize (the_inode s ip))
                 (\<lambda>s. iupdate ip (upd_inode ip (\<lambda>x. x\<lparr>isize := off\<rparr>) s)) s) (\<lambda>s.
        Ok (uint n, s))))"

section \<open>Directories\<close>

text \<open>A list of characters as what a pointer to it reads: zeros follow.\<close>

definition chars :: "byte list \<Rightarrow> nat \<Rightarrow> byte" where
  "chars xs = (\<lambda>i. if i < length xs then xs ! i else 0)"

definition namecmp :: "byte list \<Rightarrow> byte list \<Rightarrow> int" where
  "namecmp s t = strncmp DIRSIZ (chars s) (chars t)"

text \<open>\<open>struct dirent\<close>: the inode number in two bytes, then the name in \<open>DIRSIZ\<close> bytes.\<close>

definition de_inum :: "byte list \<Rightarrow> uint" where
  "de_inum de = ucast (de ! 0) OR push_bit 8 (ucast (de ! 1))"

definition de_name :: "byte list \<Rightarrow> byte list" where
  "de_name de = take DIRSIZ (drop 2 de)"

definition mk_dirent :: "byte list \<Rightarrow> uint \<Rightarrow> byte list" where
  "mk_dirent nm n = [ucast n, ucast (drop_bit 8 n)] @ map (chars (takeWhile (\<lambda>c. c \<noteq> 0) nm)) [0..<DIRSIZ]"

definition DE_SIZE :: uint where [simp]: "DE_SIZE = 16"

fun dir_loop :: "nat \<Rightarrow> nat \<Rightarrow> byte list \<Rightarrow> uint \<Rightarrow> 'z fstate_scheme
    \<Rightarrow> ((nat \<times> uint) option \<times> 'z fstate_scheme) res" where
  "dir_loop 0 dp name off s = Inl Loops"
| "dir_loop (Suc k) dp name off s =
     (if off < isize (the_inode s dp) then
        bindE (readi (\<lambda>_. None) dp off DE_SIZE s) (\<lambda>((r, de), s).
        if r \<noteq> uint DE_SIZE then panic ''dirlookup read''
        else if de_inum de = 0 then dir_loop k dp name (off + DE_SIZE) s
        else if namecmp name (de_name de) = 0 then
          bindE (iget (idev (the_inode s dp)) (de_inum de) s) (\<lambda>(i, s). Ok (Some (i, off), s))
        else dir_loop k dp name (off + DE_SIZE) s)
      else Ok (None, s))"

text \<open>The inode and the offset of its entry, where the code returns the first and stores the
  second through \<open>poff\<close>.\<close>

definition dirlookup :: "nat \<Rightarrow> byte list \<Rightarrow> 'z fstate_scheme \<Rightarrow> ((nat \<times> uint) option \<times> 'z fstate_scheme) res" where
  "dirlookup dp name s =
     (if itype (the_inode s dp) \<noteq> T_DIR then panic ''dirlookup not DIR''
      else dir_loop (Suc (unat (isize (the_inode s dp)))) dp name 0 s)"

fun free_dirent :: "nat \<Rightarrow> nat \<Rightarrow> uint \<Rightarrow> 'z fstate_scheme \<Rightarrow> (uint \<times> 'z fstate_scheme) res" where
  "free_dirent 0 dp off s = Inl Loops"
| "free_dirent (Suc k) dp off s =
     (if off < isize (the_inode s dp) then
        bindE (readi (\<lambda>_. None) dp off DE_SIZE s) (\<lambda>((r, de), s).
        if r \<noteq> uint DE_SIZE then panic ''dirlink read''
        else if de_inum de = 0 then Ok (off, s)
        else free_dirent k dp (off + DE_SIZE) s)
      else Ok (off, s))"

definition dirlink :: "nat \<Rightarrow> byte list \<Rightarrow> uint \<Rightarrow> 'z fstate_scheme \<Rightarrow> (int \<times> 'z fstate_scheme) res" where
  "dirlink dp name n s =
     bindE (dirlookup dp name s) (\<lambda>(r, s).
     case r of
       Some (ip, _) \<Rightarrow> bindE (iput ip s) (\<lambda>s. Ok (-1, s))
     | None \<Rightarrow>
         bindE (free_dirent (Suc (unat (isize (the_inode s dp)))) dp 0 s) (\<lambda>(off, s).
         bindE (writei (\<lambda>_. None) dp (mk_dirent name n) off s) (\<lambda>(r, s).
         if r \<noteq> uint DE_SIZE then panic ''dirlink'' else Ok (0, s))))"

section \<open>Paths\<close>

definition slash :: byte where [simp]: "slash = 47"

definition skipelem :: "byte list \<Rightarrow> (byte list \<times> byte list) option" where
  "skipelem path =
     (let path = dropWhile (\<lambda>c. c = slash) path in
      if path = [] then None
      else
        let s = takeWhile (\<lambda>c. c \<noteq> slash) path;
            path = dropWhile (\<lambda>c. c \<noteq> slash) path
        in Some (take DIRSIZ s, dropWhile (\<lambda>c. c = slash) path))"

fun namex_loop :: "nat \<Rightarrow> nat \<Rightarrow> byte list \<Rightarrow> bool \<Rightarrow> byte list \<Rightarrow> 'z fstate_scheme
    \<Rightarrow> ((nat option \<times> byte list) \<times> 'z fstate_scheme) res" where
  "namex_loop 0 ip path nameiparent name s = Inl Loops"
| "namex_loop (Suc k) ip path nameiparent name s =
     (case skipelem path of
        Some (name, path) \<Rightarrow>
          bindE (ilock ip s) (\<lambda>s.
          if itype (the_inode s ip) \<noteq> T_DIR then
            bindE (iunlockput ip s) (\<lambda>s. Ok ((None, name), s))
          else if nameiparent \<and> path = [] then
            bindE (iunlock ip s) (\<lambda>s. Ok ((Some ip, name), s))
          else
            bindE (dirlookup ip name s) (\<lambda>(nxt, s).
            bindE (iunlockput ip s) (\<lambda>s.
            case nxt of
              None \<Rightarrow> Ok ((None, name), s)
            | Some (nx, _) \<Rightarrow> namex_loop k nx path nameiparent name s)))
      | None \<Rightarrow>
          if nameiparent then bindE (iput ip s) (\<lambda>s. Ok ((None, name), s))
          else Ok ((Some ip, name), s))"

definition namex :: "byte list \<Rightarrow> bool \<Rightarrow> 'z fstate_scheme \<Rightarrow> ((nat option \<times> byte list) \<times> 'z fstate_scheme) res" where
  "namex path nameiparent s =
     bindE (if path \<noteq> [] \<and> hd path = slash then iget ROOTDEV ROOTINO s
            else
              bindE (curproc s) (\<lambda>(p, s).
              case cwd (the_proc s p) of
                None \<Rightarrow> Inl Undef
              | Some d \<Rightarrow> idup d s)) (\<lambda>(ip, s).
     namex_loop (Suc (length path)) ip path nameiparent [] s)"

definition namei :: "byte list \<Rightarrow> 'z fstate_scheme \<Rightarrow> (nat option \<times> 'z fstate_scheme) res" where
  "namei path s = bindE (namex path False s) (\<lambda>((r, _), s). Ok (r, s))"

definition nameiparent :: "byte list \<Rightarrow> 'z fstate_scheme \<Rightarrow> ((nat option \<times> byte list) \<times> 'z fstate_scheme) res" where
  "nameiparent path s = namex path True s"

definition demo_fs :: fstate where
  "demo_fs = lstate.extend demo_l (fstate.fields [] \<lparr>sb_size = 100, nblocks = 50, ninodes = 16, nlog = 30,
     logstart = 2, inodestart = 32, bmapstart = 35\<rparr>)"

lemma demo_fs_sel [simp]:
  "hw demo_fs = run_hw" "procs demo_fs = demo_proc # replicate 63 idle_proc"
  using demo_l_sel by (simp_all add: demo_fs_def lstate.defs fstate.defs)

end
