(* ===== verification/Fsread.thy ===== *)
theory Fsread
  imports Txn Fs
begin

text \<open>
  What the file system reads: \<open>bmap\<close>, \<open>readi\<close> and \<open>dirlookup\<close> of \<open>fs.c\<close> against the contents of a file as a
  list of bytes, which the view through the buffer cache determines. A file is read inside a
  good cache with no buffer in use and at least one spare buffer.
\<close>

section \<open>The contents of a file\<close>

definition file_addr :: "(uint \<Rightarrow> block) \<Rightarrow> inode \<Rightarrow> nat \<Rightarrow> uint" where
  "file_addr v x bn = (if bn < NDIRECT then addrs x ! bn else load32 (v (addrs x ! NDIRECT)) (4 * of_nat (bn - NDIRECT)))"

definition file_byte :: "(uint \<Rightarrow> block) \<Rightarrow> inode \<Rightarrow> nat \<Rightarrow> byte" where
  "file_byte v x i = v (file_addr v x (i div 512)) (of_nat (i mod 512))"

definition file_bytes :: "(uint \<Rightarrow> block) \<Rightarrow> inode \<Rightarrow> byte list" where
  "file_bytes v x = map (file_byte v x) [0..<unat (isize x)]"

text \<open>The file is on device 1 and every block of it is allocated and on the disk.\<close>

definition block_mapped :: "'z fstate_scheme \<Rightarrow> inode \<Rightarrow> nat \<Rightarrow> bool" where
  "block_mapped s x bn \<longleftrightarrow> bn < MAXFILE \<and> file_addr (view s) x bn \<noteq> 0 \<and> file_addr (view s) x bn < disksize s
     \<and> (NDIRECT \<le> bn \<longrightarrow> addrs x ! NDIRECT \<noteq> 0 \<and> addrs x ! NDIRECT < disksize s)"

definition file_mapped :: "'z fstate_scheme \<Rightarrow> inode \<Rightarrow> bool" where
  "file_mapped s x \<longleftrightarrow> idev x = 1 \<and> (\<forall>bn. bn * 512 < unat (isize x) \<longrightarrow> block_mapped s x bn)"

lemma bmod_fs:
  fixes s t :: "'z fstate_scheme"
  assumes "bmod s t"
  shows "inodes t = inodes s" "sb t = sb s" "log t = log s"
proof -
  have "inodes (bcopy t s) = inodes s" "sb (bcopy t s) = sb s" "log (bcopy t s) = log s" by (simp_all add: bcopy_def)
  then show "inodes t = inodes s" "sb t = sb s" "log t = log s" using assms by (simp_all add: bmod_def)
qed

lemma kept_fs:
  fixes s t :: "'z fstate_scheme"
  assumes "kept s t"
  shows "inodes t = inodes s" "view t = view s" "disksize t = disksize s" "sb t = sb s"
    and "block_mapped t x bn = block_mapped s x bn" "file_mapped t x = file_mapped s x"
  using assms bmod_fs [of s t] bmod_same(1) [of s t] by (simp_all add: kept_def block_mapped_def file_mapped_def)

lemma kept_trans: "kept s t \<Longrightarrow> kept t u \<Longrightarrow> kept s u"
  using did_kept_trans(1) [of s "[]" t u] by (simp add: did_kept)

lemma read_ok:
  assumes "cache_idle s" "n < disksize s"
  obtains b t u where "bread 1 n s = Ok (b, t)" "bdata (the_buf t b) = view s n" "brelse b t = Ok u" "cache_idle u" "kept s u" "spare s \<subseteq> spare u"
proof -
  obtain u where u: "read_block n s = Ok (view s n, u)" "cache_idle u" "kept s u" "spare s \<subseteq> spare u" using read_block_ok [OF assms] by blast
  obtain b t where b: "bread 1 n s = Ok (b, t)" using u(1) by (auto simp: read_block_def bindE_def split: sum.splits)
  then have "brelse b t = Ok u" "bdata (the_buf t b) = view s n"
    using u(1) by (auto simp: read_block_def bindE_def split: sum.splits)
  then show thesis using that b u(2-4) by blast
qed

lemma bmap_ok:
  fixes s :: "'z fstate_scheme"
  assumes s: "cache_idle s" and d: "idev (the_inode s ip) = 1" and m: "block_mapped s (the_inode s ip) bn"
  obtains t where "bmap ip (of_nat bn) s = Ok (file_addr (view s) (the_inode s ip) bn, t)" "cache_idle t" "kept s t" "spare s \<subseteq> spare t"
proof -
  let ?x = "the_inode s ip"
  have bn: "bn < 140" using m by (simp add: block_mapped_def)
  then have u: "unat (of_nat bn :: uint) = bn" by (simp add: unat_of_nat take_bit_nat_eq_self)
  have lt: "(of_nat bn :: uint) < 12 \<longleftrightarrow> bn < 12" using u by (simp add: word_less_nat_alt)
  show thesis
  proof (cases "bn < 12")
    case True
    then have "bmap ip (of_nat bn) s = Ok (file_addr (view s) ?x bn, s)" using m lt u by (simp add: bmap_def block_mapped_def file_addr_def)
    moreover have "kept s s" using s by (simp add: kept_def cache_idle_def)
    ultimately show thesis using that s by blast
  next
    case False
    define c :: uint where "c = of_nat (bn - 12)"
    have sub: "(of_nat bn :: uint) - 12 = c" using False by (simp add: c_def of_nat_diff)
    have "unat c = bn - 12" using bn by (simp add: c_def unat_of_nat take_bit_nat_eq_self)
    then have lt2: "c < 128" using bn False by (simp add: word_less_nat_alt)
    have a: "addrs ?x ! 12 \<noteq> 0" "addrs ?x ! 12 < disksize s" using m False by (simp_all add: block_mapped_def)
    obtain b t w where b: "bread 1 (addrs ?x ! 12) s = Ok (b, t)" "bdata (the_buf t b) = view s (addrs ?x ! 12)"
        "brelse b t = Ok w" "cache_idle w" "kept s w" "spare s \<subseteq> spare w" using read_ok [OF s a(2)] by blast
    have l: "load32 (view s (addrs ?x ! 12)) (4 * c) = file_addr (view s) ?x bn" using False by (simp add: file_addr_def c_def)
    have "file_addr (view s) ?x bn \<noteq> 0" using m by (simp add: block_mapped_def)
    then have "bmap ip (of_nat bn) s = Ok (file_addr (view s) ?x bn, w)"
      using lt lt2 False a b(1-3) d l unfolding bmap_def NDIRECT_def of_nat_numeral sub by simp
    then show thesis using that b(4-6) by blast
  qed
qed

text \<open>The loop of \<open>readi\<close>, which has read \<open>tot\<close> of the \<open>n\<close> bytes wanted.\<close>

lemma unat32: "unat (a :: uint) < 2 ^ 32"
  using unsigned_less [of a] by simp

lemma unat_add_no_wrap:
  fixes a b :: uint
  assumes "a \<le> a + b"
  shows "unat (a + b) = unat a + unat b"
proof (rule ccontr)
  assume ne: "unat (a + b) \<noteq> unat a + unat b"
  then have "2 ^ 32 \<le> unat a + unat b" using unat_add_lem [of a b] by simp
  moreover have "unat a + unat b - 2 ^ 32 < 2 ^ 32" using unat32 [of a] unat32 [of b] by simp
  ultimately have "(unat a + unat b) mod 2 ^ 32 = unat a + unat b - 2 ^ 32" using le_mod_geq [of "2 ^ 32" "unat a + unat b"] by simp
  moreover have "unat (a + b) = (unat a + unat b) mod 2 ^ 32" by (simp add: unat_word_ariths)
  ultimately show False using assms unat32 [of a] unat32 [of b] \<open>2 ^ 32 \<le> unat a + unat b\<close> by (simp add: word_le_nat_alt)
qed

lemma word_div512: "(a :: uint) div 512 = of_nat (unat a div 512)" "(a :: uint) mod 512 = of_nat (unat a mod 512)"
  by (simp_all add: word_arith_nat_defs)

lemma read_loop_ok:
  fixes s :: "'z fstate_scheme"
  assumes "cache_idle s" "idev (the_inode s ip) = 1" "unat tot \<le> unat n" "unat n - unat tot < k"
    "unat off + (unat n - unat tot) < 2 ^ 32" "\<And>bn. bn * 512 < unat off + (unat n - unat tot) \<Longrightarrow> block_mapped s (the_inode s ip) bn"
  shows "\<exists>t. read_loop k ip tot off n s = Ok (map (file_byte (view s) (the_inode s ip)) [unat off..<unat off + (unat n - unat tot)], t)
    \<and> cache_idle t \<and> kept s t"
  using assms
proof (induction k arbitrary: tot off s)
  case (Suc k)
  let ?x = "the_inode s ip" and ?r = "unat n - unat tot" and ?o = "unat off"
  show ?case
  proof (cases "tot < n")
    case False
    then have "?r = 0" using Suc.prems(3) by (simp add: word_less_nat_alt)
    moreover have "kept s s" using Suc.prems(1) by (simp add: kept_def cache_idle_def)
    ultimately show ?thesis using False Suc.prems(1) by simp
  next
    case True
    then have r: "0 < ?r" by (simp add: word_less_nat_alt)
    define m where "m = min (n - tot) (512 - off mod 512)"
    have mu: "unat m = min ?r (512 - ?o mod 512)"
    proof -
      have "unat (n - tot) = ?r" using Suc.prems(3) by (simp add: unat_sub word_le_nat_alt)
      moreover have "unat (512 - off mod 512) = 512 - ?o mod 512"
        by (subst unat_sub) (simp_all add: word_le_nat_alt unat_mod less_imp_le)
      ultimately show ?thesis unfolding m_def min_def word_le_nat_alt by simp
    qed
    have mapped: "block_mapped s ?x (?o div 512)" using Suc.prems(6) [of "?o div 512"] r by simp
    obtain t where t: "bmap ip (off div 512) s = Ok (file_addr (view s) ?x (?o div 512), t)" "cache_idle t" "kept s t"
      using bmap_ok [OF Suc.prems(1,2) mapped] unfolding word_div512 by blast
    note kt = kept_fs [OF t(3)]
    have "file_addr (view s) ?x (?o div 512) < disksize t" using mapped kt(3) by (simp add: block_mapped_def)
    then obtain b u w where b: "bread 1 (file_addr (view s) ?x (?o div 512)) t = Ok (b, u)"
        "bdata (the_buf u b) = view s (file_addr (view s) ?x (?o div 512))" "brelse b u = Ok w" "cache_idle w" "kept t w"
      using read_ok [OF t(2)] kt(2) by metis
    have kw: "kept s w" using kept_trans t(3) b(5) by blast
    note kw' = kept_fs [OF kw]
    let ?bs = "get (view s (file_addr (view s) ?x (?o div 512))) (off mod 512) (unat m)"
    have m: "0 < unat m" "unat m \<le> ?r" "?o mod 512 + unat m \<le> 512" using mu r by auto
    have tm: "unat (tot + m) = unat tot + unat m" using m(2) r unat32 [of n] by (subst unat_add_lem [THEN iffD1]) auto
    have om: "unat (off + m) = ?o + unat m" using m(2) Suc.prems(5) by (subst unat_add_lem [THEN iffD1]) auto
    have rest: "unat n - unat (tot + m) = ?r - unat m" using tm by simp
    have end': "unat (off + m) + (unat n - unat (tot + m)) = ?o + ?r" using m(2) om rest by simp
    have le: "unat (tot + m) \<le> unat n" "unat n - unat (tot + m) < k" using tm m(1,2) r Suc.prems(4) by auto
    have "\<exists>z. read_loop k ip (tot + m) (off + m) n w
        = Ok (map (file_byte (view w) (the_inode w ip)) [unat (off + m)..<unat (off + m) + (unat n - unat (tot + m))], z) \<and> cache_idle z \<and> kept w z"
      by (rule Suc.IH [OF b(4) _ le]) (use Suc.prems(2,5,6) in \<open>simp_all only: end' kw'\<close>)
    then obtain z where z: "read_loop k ip (tot + m) (off + m) n w = Ok (map (file_byte (view s) ?x) [?o + unat m..<?o + ?r], z)"
        "cache_idle z" "kept w z" unfolding end' kw' unfolding om by blast
    have bytes: "?bs = map (file_byte (view s) ?x) [?o..<?o + unat m]"
    proof (rule nth_equalityI)
      fix i assume "i < length ?bs"
      then have i: "i < unat m" by simp
      then have "?o mod 512 + i < 512" using m(3) by simp
      then have "(?o + i) div 512 = ?o div 512" "(?o + i) mod 512 = ?o mod 512 + i"
        by (metis add.assoc div_mult_mod_eq div_mult_self3 div_less add.right_neutral zero_neq_numeral)
           (metis \<open>?o mod 512 + i < 512\<close> mod_add_left_eq mod_less)
      then show "?bs ! i = map (file_byte (view s) ?x) [?o..<?o + unat m] ! i"
        using i by (simp add: get_def file_byte_def word_div512)
    qed simp
    have app: "[?o..<?o + ?r] = [?o..<?o + unat m] @ [?o + unat m..<?o + ?r]" 
      using upt_add_eq_append [of ?o "?o + unat m" "?r - unat m"] m(2)
      by (simp only: le_add1 add.assoc le_add_diff_inverse)
    have "read_loop (Suc k) ip tot off n s = Ok (?bs @ map (file_byte (view s) ?x) [?o + unat m..<?o + ?r], z)"
      using True t(1) b(1-3) z(1) kt kw' Suc.prems(2) om by (simp add: Let_def m_def [symmetric])
    moreover have "kept s z" using kept_trans kw z(3) by blast
    ultimately show ?thesis using z(2) bytes by (simp add: app)
  qed
qed simp

lemma readi_ok:
  fixes s :: "'z fstate_scheme"
  assumes "cache_idle s" "itype (the_inode s ip) \<noteq> T_DEV" "file_mapped s (the_inode s ip)"
  shows "if off > isize (the_inode s ip) \<or> off + n < off then readi devsw ip off n s = Ok ((-1, []), s)
    else \<exists>bs t. bs = take (unat n) (drop (unat off) (file_bytes (view s) (the_inode s ip)))
      \<and> readi devsw ip off n s = Ok ((int (length bs), bs), t) \<and> cache_idle t \<and> kept s t"
proof (cases "off > isize (the_inode s ip) \<or> off + n < off")
  case True
  then show ?thesis using assms(2) by (auto simp: readi_def)
next
  case False
  let ?x = "the_inode s ip"
  define k where "k = (if off + n > isize ?x then isize ?x - off else n)"
  have sum: "unat (off + n) = unat off + unat n" using False by (intro unat_add_no_wrap) (simp add: not_less)
  have ok: "unat off \<le> unat (isize ?x)" using False by (simp add: word_less_nat_alt)
  have k: "unat k = min (unat n) (unat (isize ?x) - unat off)"
    using ok sum by (auto simp: k_def word_less_nat_alt word_le_nat_alt unat_sub)
  have top: "unat off + unat k \<le> unat (isize ?x)" using k ok by simp
  have "\<exists>t. read_loop (Suc (unat k)) ip 0 off k s = Ok (map (file_byte (view s) ?x) [unat off..<unat off + (unat k - unat (0::uint))], t)
    \<and> cache_idle t \<and> kept s t"
    using assms(1,3) top unat32 [of "isize ?x"] by (intro read_loop_ok) (auto simp: file_mapped_def)
  then obtain t where t: "read_loop (Suc (unat k)) ip 0 off k s = Ok (map (file_byte (view s) ?x) [unat off..<unat off + unat k], t)"
      "cache_idle t" "kept s t" by auto
  have bs: "map (file_byte (view s) ?x) [unat off..<unat off + unat k] = take (unat n) (drop (unat off) (file_bytes (view s) ?x))"
    using ok k by (simp add: file_bytes_def drop_map take_map) (auto simp: min_def)
  have "readi devsw ip off n s = Ok ((uint k, map (file_byte (view s) ?x) [unat off..<unat off + unat k]), t)"
    using assms(2) False t(1) by (simp add: readi_def Let_def k_def [symmetric])
  moreover have "uint k = int (length (map (file_byte (view s) ?x) [unat off..<unat off + unat k]))" by simp
  ultimately show ?thesis using False t(2,3) bs by metis
qed

text \<open>C6: Reading a file. On a file whose blocks are allocated, directly or through the indirect block, \<open>readi\<close> refuses an
  offset beyond the end and a range that wraps around; otherwise it returns exactly the bytes of the file from the offset
  on, up to \<open>n\<close> of them and no further than the end, whichever blocks were cached. What the cache shows stays the same.\<close>

theorem readi_contents:
  fixes s :: "'z fstate_scheme"
  assumes "cache_idle s" "itype (the_inode s ip) \<noteq> T_DEV" "file_mapped s (the_inode s ip)"
  shows "if off > isize (the_inode s ip) \<or> off + n < off then readi devsw ip off n s = Ok ((-1, []), s)
    else \<exists>bs t. bs = take (unat n) (drop (unat off) (file_bytes (view s) (the_inode s ip)))
      \<and> readi devsw ip off n s = Ok ((int (length bs), bs), t) \<and> cache_idle t \<and> kept s t"
  using assms by (rule readi_ok)

section \<open>An example\<close>

text \<open>Three buffers; a file of 600 bytes in the blocks 60 and 61, block \<open>n\<close> being full of bytes \<open>n\<close>; a directory in block 70.\<close>

definition demo_ino :: inode where
  "demo_ino = \<lparr>idev = 1, inum = 5, iref = 1, ivalid = True, itype = T_FILE, major = 0, minor = 0, nlink = 1, isize = 600,
     addrs = [60, 61] @ replicate 11 0\<rparr>"

definition demo_dir :: inode where
  "demo_dir = demo_ino\<lparr>inum := 1, itype := T_DIR, isize := 32, addrs := 70 # replicate 12 0\<rparr>"

definition demo_entries :: "byte list" where
  "demo_entries = mk_dirent [46] 1 @ mk_dirent [97, 98] 7"

definition demo_disk :: "uint \<Rightarrow> block" where
  "demo_disk n = (if n = 70 then put (\<lambda>_. 0) 0 demo_entries else (\<lambda>_. ucast n))"

definition demo_files :: fstate where
  "demo_files = demo_fs\<lparr>inodes := [demo_ino, demo_dir, demo_ino\<lparr>iref := 0\<rparr>], disk := demo_disk, lru := [0, 1, 2],
     bufs := replicate 3 \<lparr>bvalid = False, bdirty = False, bdev = 0, blockno = 0, brefcnt = 0, bdata = (\<lambda>_. 0)\<rparr>,
     log := (log demo_fs)\<lparr>outstanding := 1\<rparr>\<rparr>"

lemma demo_files_sel:
  "hw demo_files = run_hw" "procs demo_files = demo_proc # replicate 63 idle_proc" "lru demo_files = [0, 1, 2]"
  "bufs demo_files = replicate 3 \<lparr>bvalid = False, bdirty = False, bdev = 0, blockno = 0, brefcnt = 0, bdata = (\<lambda>_. 0)\<rparr>"
  "disk demo_files = demo_disk" "\<not> busy demo_files i" "disksize demo_files = 100" "inodes demo_files = [demo_ino, demo_dir, demo_ino\<lparr>iref := 0\<rparr>]"
  "log demo_files = \<lparr>lstart = 2, lsize = 30, outstanding = 1, committing = False, ldev = 1, lh = \<lparr>lh_n = 0, lh_block = (\<lambda>_. 0)\<rparr>\<rparr>"
  using demo_s_sel by (simp_all add: demo_files_def demo_fs_def demo_l_def demo_b_def pstate.defs bstate.defs lstate.defs fstate.defs)

lemma demo_files_caches: "\<not> caches demo_files n i"
  by (auto simp: caches_def demo_files_sel)

lemma demo_files_idle: "cache_idle demo_files" "view demo_files = demo_disk" "spare demo_files = {..<3}" "dirties demo_files = {}"
proof -
  have "bok demo_files" using run_hw_ok run_hw_free by (simp add: bok_def demo_files_sel)
  moreover have "buf_ok demo_files i" if "i < 3" for i using that demo_files_sel(6) by (simp add: buf_ok_def demo_files_sel(4) Let_def)
  moreover have "set [0, 1, 2 :: nat] = {..<3}" by auto
  ultimately have "binv demo_files" using demo_files_caches by (simp add: binv_def demo_files_sel)
  moreover show sp: "spare demo_files = {..<3}" by (auto simp: spare_def demo_files_sel)
  then have "spare demo_files \<noteq> {}" by (simp add: lessThan_empty_iff)
  ultimately show "cache_idle demo_files" by (simp add: cache_idle_def held_def demo_files_sel)
  show "view demo_files = demo_disk" using view_miss [of demo_files] demo_files_caches by (auto simp: demo_files_sel)
  show "dirties demo_files = {}" using demo_files_caches by (simp add: dirties_def)
qed

lemma demo_ino_sel: "isize demo_ino = 600" "itype demo_ino = 2" "idev demo_ino = 1" "addrs demo_ino = [60, 61] @ replicate 11 0"
  by (simp_all add: demo_ino_def)

lemma demo_ino_addr: "bn * 512 < 600 \<Longrightarrow> file_addr v demo_ino bn = (if bn = 0 then 60 else 61)"
proof -
  assume "bn * 512 < 600"
  then have "bn = 0 \<or> bn = 1" by auto
  then show ?thesis by (auto simp: file_addr_def demo_ino_sel)
qed

lemma demo_ino_mapped: "file_mapped demo_files demo_ino"
proof -
  have "bn < 12" if "bn * 512 < 600" for bn :: nat using that by simp
  then show ?thesis using demo_ino_addr by (auto simp: file_mapped_def block_mapped_def demo_ino_sel demo_files_sel)
qed

lemma demo_ino_bytes: "file_bytes demo_disk demo_ino = replicate 512 60 @ replicate 88 61"
proof (rule nth_equalityI)
  fix i assume "i < length (file_bytes demo_disk demo_ino)"
  then have i: "i < 600" by (simp add: file_bytes_def demo_ino_sel)
  then have "i div 512 * 512 < 600" "i div 512 = 0 \<longleftrightarrow> i < 512" by auto
  then have "file_byte demo_disk demo_ino i = (if i < 512 then 60 else 61)" using demo_ino_addr [of "i div 512"] by (simp add: file_byte_def demo_disk_def)
  then show "file_bytes demo_disk demo_ino ! i = (replicate 512 60 @ replicate 88 61) ! i" using i by (simp add: file_bytes_def demo_ino_sel nth_append)
qed (simp add: file_bytes_def demo_ino_sel)

theorem readi_contents_witness:
  "\<exists>t. readi (\<lambda>_. None) 0 510 4 demo_files = Ok ((4, [60, 60, 61, 61]), t) \<and> cache_idle t"
proof -
  have "take 4 (drop 510 (replicate 512 (60 :: byte) @ replicate 88 61)) = [60, 60, 61, 61]" by (simp add: numeral_eq_Suc)
  then show ?thesis
    using readi_contents [OF demo_files_idle(1), of 0 510 4 "\<lambda>_. None"] demo_ino_mapped
    by (auto simp: demo_files_sel demo_files_idle demo_ino_sel demo_ino_bytes)
qed

end
