(* ===== verification/Fsdir.thy ===== *)
theory Fsdir
  imports Fsread
begin

text \<open>
  Directories and the inode cache: \<open>iget\<close> and \<open>dirlookup\<close> of \<open>fs.c\<close> against the list of entries of a directory.
\<close>

section \<open>The inode cache\<close>

definition cached :: "uint \<Rightarrow> uint \<Rightarrow> inode \<Rightarrow> bool" where
  "cached dev n x \<longleftrightarrow> iref x > 0 \<and> idev x = dev \<and> inum x = n"

lemma icache_scan_hit:
  "icache_scan k ips dev n emp = (Some j, e) \<Longrightarrow> \<exists>i < length ips. j = k + i \<and> cached dev n (ips ! i)"
proof (induction ips arbitrary: k emp)
  case (Cons x xs)
  show ?case
  proof (cases "cached dev n x")
    case True
    then show ?thesis using Cons.prems by (intro exI [of _ 0]) (auto simp: cached_def)
  next
    case False
    then have "icache_scan (Suc k) xs dev n (if emp = None \<and> iref x = 0 then Some k else emp) = (Some j, e)"
      using Cons.prems by (auto simp: cached_def)
    from Cons.IH [OF this] obtain i where "i < length xs" "j = Suc k + i" "cached dev n (xs ! i)" by blast
    then show ?thesis by (intro exI [of _ "Suc i"]) simp
  qed
qed simp

lemma icache_scan_miss:
  "icache_scan k ips dev n emp = (None, e) \<Longrightarrow> (\<forall>x \<in> set ips. \<not> cached dev n x)
     \<and> (case e of None \<Rightarrow> emp = None \<and> (\<forall>x \<in> set ips. iref x \<noteq> 0)
        | Some j \<Rightarrow> emp = Some j \<or> (\<exists>i < length ips. j = k + i \<and> iref (ips ! i) = 0))"
proof (induction ips arbitrary: k emp)
  case (Cons x xs)
  define emp' where "emp' = (if emp = None \<and> iref x = 0 then Some k else emp)"
  have nc: "\<not> cached dev n x" and rec: "icache_scan (Suc k) xs dev n emp' = (None, e)"
    using Cons.prems by (auto simp: cached_def emp'_def split: if_splits)
  note IH = Cons.IH [OF rec]
  show ?case
  proof (cases e)
    case None
    then show ?thesis using IH nc by (auto simp: emp'_def split: if_splits)
  next
    case (Some j)
    then consider "emp' = Some j" | i where "i < length xs" "j = Suc k + i" "iref (xs ! i) = 0" using IH by auto
    then show ?thesis
    proof cases
      case 1
      then have "emp = Some j \<or> j = k \<and> iref x = 0" by (auto simp: emp'_def split: if_splits)
      then show ?thesis using IH nc Some by auto
    next
      case (2 i)
      then have "\<exists>i < length (x # xs). j = k + i \<and> iref ((x # xs) ! i) = 0" by (intro exI [of _ "Suc i"]) simp
      then show ?thesis using IH nc Some by auto
    qed
  qed
qed (auto split: option.split)

text \<open>The entry that \<open>iget\<close> leaves in the slot it returns.\<close>

definition igot :: "uint \<Rightarrow> uint \<Rightarrow> inode \<Rightarrow> inode" where
  "igot dev n x = (if iref x > 0 then x\<lparr>iref := iref x + 1\<rparr> else x\<lparr>idev := dev, inum := n, iref := 1, ivalid := False\<rparr>)"

lemma view_inode [simp]: "view ((upd_inode i f t)\<lparr>hw := h\<rparr>) = view t" for t :: "'z fstate_scheme"
proof -
  have c: "caches ((upd_inode i f t)\<lparr>hw := h\<rparr>) = caches t" by (intro ext) (simp add: caches_def upd_inode_def)
  have "disk ((upd_inode i f t)\<lparr>hw := h\<rparr>) = disk t" "bufs ((upd_inode i f t)\<lparr>hw := h\<rparr>) = bufs t" by (simp_all add: upd_inode_def)
  with c show ?thesis unfolding view_def by presburger
qed

lemma iget_ok:
  fixes s :: "'z fstate_scheme"
  assumes hw: "hw_ok (hw s)" "lock_free IcacheLock (hw s)"
    and room: "\<exists>i < length (inodes s). cached dev n (the_inode s i) \<or> iref (the_inode s i) = 0"
  obtains i h where "iget dev n s = Ok (i, (upd_inode i (igot dev n) s)\<lparr>hw := h\<rparr>)" "hw_same (hw s) h" "i < length (inodes s)"
    "cached dev n (the_inode s i) \<or> iref (the_inode s i) = 0 \<and> (\<forall>x \<in> set (inodes s). \<not> cached dev n x)"
proof -
  let ?h = "cycled (mem s) IcacheLock (hw s)"
  have same: "hw_same (hw s) ?h" using hw_same_cycled [OF hw] .
  have run: "bindE (unlock IcacheLock (upd_inode i f (s\<lparr>hw := acquired (mem s) IcacheLock (hw s)\<rparr>))) (\<lambda>s. Ok (i, s))
      = Ok (i, (upd_inode i f s)\<lparr>hw := ?h\<rparr>)" for i f
    using unlock_ok [of "upd_inode i f (s\<lparr>hw := acquired (mem s) IcacheLock (hw s)\<rparr>)" "mem s" IcacheLock "hw s"] hw
    by (simp add: upd_inode_def)
  obtain r e where sc: "icache_scan 0 (inodes s) dev n None = (r, e)" by fastforce
  show thesis
  proof (cases r)
    case (Some i)
    then have i: "i < length (inodes s)" "cached dev n (the_inode s i)" using icache_scan_hit [of 0 "inodes s" dev n None i e] sc by auto
    have "iget dev n s = Ok (i, (upd_inode i (\<lambda>x. x\<lparr>iref := iref x + 1\<rparr>) s)\<lparr>hw := ?h\<rparr>)"
      using hw sc Some run [of i] by (simp add: iget_def hw_simps)
    moreover have "upd_inode i (\<lambda>x. x\<lparr>iref := iref x + 1\<rparr>) s = upd_inode i (igot dev n) s"
      using i(2) by (simp add: upd_inode_def igot_def cached_def)
    ultimately show thesis using that [OF _ same i(1)] i(2) by simp
  next
    case None
    have miss: "\<forall>x \<in> set (inodes s). \<not> cached dev n x" "e = None \<Longrightarrow> \<forall>x \<in> set (inodes s). iref x \<noteq> 0"
      "\<And>j. e = Some j \<Longrightarrow> j < length (inodes s) \<and> iref (the_inode s j) = 0"
      using icache_scan_miss [of 0 "inodes s" dev n None e] sc None by (auto split: option.splits)
    then obtain i where e: "e = Some i" "i < length (inodes s)" "iref (the_inode s i) = 0"
      using room by (cases e) (auto simp: all_set_conv_all_nth)
    have "iget dev n s = Ok (i, (upd_inode i (\<lambda>x. x\<lparr>idev := dev, inum := n, iref := 1, ivalid := False\<rparr>) s)\<lparr>hw := ?h\<rparr>)"
      using hw sc None e(1) run [of i] by (simp add: iget_def hw_simps)
    moreover have "upd_inode i (\<lambda>x. x\<lparr>idev := dev, inum := n, iref := 1, ivalid := False\<rparr>) s = upd_inode i (igot dev n) s"
      using e(3) by (simp add: upd_inode_def igot_def)
    ultimately show thesis using that [OF _ same e(2)] e(3) miss(1) by simp
  qed
qed

section \<open>Directories\<close>

definition cname :: "byte list \<Rightarrow> byte list" where
  "cname nm = takeWhile (\<lambda>c. c \<noteq> 0) (take DIRSIZ nm)"

definition dirent_at :: "(uint \<Rightarrow> block) \<Rightarrow> inode \<Rightarrow> nat \<Rightarrow> byte list" where
  "dirent_at v x k = take 16 (drop (16 * k) (file_bytes v x))"

definition entry_is :: "(uint \<Rightarrow> block) \<Rightarrow> inode \<Rightarrow> byte list \<Rightarrow> nat \<Rightarrow> bool" where
  "entry_is v x nm k \<longleftrightarrow> de_inum (dirent_at v x k) \<noteq> 0 \<and> cname (de_name (dirent_at v x k)) = cname nm"

definition dir_find :: "(uint \<Rightarrow> block) \<Rightarrow> inode \<Rightarrow> byte list \<Rightarrow> nat option" where
  "dir_find v x nm = find (entry_is v x nm) [0..<unat (isize x) div 16]"

lemma cstr_chars: "cstr n (chars xs) = takeWhile (\<lambda>c. c \<noteq> 0) (take n xs)"
proof (induction n arbitrary: xs)
  case (Suc n)
  have "(\<lambda>i. chars xs (Suc i)) = chars (tl xs)" by (cases xs) (auto simp: chars_def)
  then show ?case using Suc [of "tl xs"] by (cases xs) (auto simp: cstr_Suc chars_def)
qed simp

lemma namecmp_0: "namecmp a b = 0 \<longleftrightarrow> cname b = cname a"
  by (auto simp: namecmp_def strncmp_0_iff cstr_chars cname_def)

lemma mapped_size: "file_mapped s x \<Longrightarrow> unat (isize x) \<le> 71680"
proof (rule ccontr)
  assume m: "file_mapped s x" and "\<not> unat (isize x) \<le> 71680"
  then have "block_mapped s x 140" by (simp add: file_mapped_def)
  then show False by (simp add: block_mapped_def)
qed

text \<open>A directory whose entries can all be read.\<close>

definition dir_ok :: "'z fstate_scheme \<Rightarrow> inode \<Rightarrow> bool" where
  "dir_ok s x \<longleftrightarrow> itype x = T_DIR \<and> file_mapped s x \<and> 16 dvd unat (isize x)"

lemma dir_read:
  fixes s :: "'z fstate_scheme"
  assumes s: "cache_idle s" "dir_ok s (the_inode s dp)" and k: "k < unat (isize (the_inode s dp)) div 16"
  obtains t where "readi (\<lambda>_. None) dp (of_nat (16 * k)) 16 s = Ok ((16, dirent_at (view s) (the_inode s dp) k), t)" "cache_idle t" "kept s t"
proof -
  let ?x = "the_inode s dp"
  have x: "itype ?x \<noteq> T_DEV" "file_mapped s ?x" using s(2) by (simp_all add: dir_ok_def)
  have le: "16 * k + 16 \<le> unat (isize ?x)" using k by linarith
  have sz: "unat (isize ?x) \<le> 71680" using mapped_size [OF x(2)] .
  have u: "unat (of_nat (16 * k) :: uint) = 16 * k" using le sz by (simp add: unat_of_nat take_bit_nat_eq_self del: of_nat_mult)
  then have "unat (of_nat (16 * k) + 16 :: uint) = 16 * k + 16" using le sz by (simp add: unat_word_ariths del: of_nat_mult)
  then have c: "\<not> (of_nat (16 * k) > isize ?x \<or> of_nat (16 * k) + 16 < (of_nat (16 * k) :: uint))"
    using u le by (simp add: word_less_nat_alt del: of_nat_mult)
  obtain bs t where "bs = take (unat (16 :: uint)) (drop (unat (of_nat (16 * k) :: uint)) (file_bytes (view s) ?x))"
      "readi (\<lambda>_. None) dp (of_nat (16 * k)) 16 s = Ok ((int (length bs), bs), t)" "cache_idle t" "kept s t"
    using readi_ok [OF s(1) x, of "of_nat (16 * k)" 16 "\<lambda>_. None"] c unfolding if_not_P [OF c] by blast
  moreover have "bs = dirent_at (view s) ?x k" "length bs = 16" using calculation(1) u le by (simp_all add: dirent_at_def file_bytes_def del: of_nat_mult)
  ultimately show thesis using that by simp
qed

lemma dir_loop_ok:
  fixes s :: "'z fstate_scheme"
  assumes "cache_idle s" "x = the_inode s dp" "dir_ok s x" "k \<le> unat (isize x) div 16" "unat (isize x) div 16 - k < f"
  shows "\<exists>t. cache_idle t \<and> kept s t \<and> dir_loop f dp nm (of_nat (16 * k)) s =
     (case find (entry_is (view s) x nm) [k..<unat (isize x) div 16] of
        None \<Rightarrow> Ok (None, t)
      | Some j \<Rightarrow> bindE (iget 1 (de_inum (dirent_at (view s) x j)) t) (\<lambda>(i, t). Ok (Some (i, of_nat (16 * j)), t)))"
  using assms
proof (induction f arbitrary: k s)
  case (Suc f)
  let ?N = "unat (isize x) div 16" and ?e = "dirent_at (view s) x k"
  have x: "file_mapped s x" "16 dvd unat (isize x)" "idev x = 1" using Suc.prems(3) by (simp_all add: dir_ok_def file_mapped_def)
  have sz: "unat (isize x) \<le> 71680" using mapped_size [OF x(1)] .
  have kept: "kept s s" using Suc.prems(1) by (simp add: kept_def cache_idle_def)
  have "16 * k \<le> unat (isize x)" using Suc.prems(4) by linarith
  then have u: "unat (of_nat (16 * k) :: uint) = 16 * k" using sz by (simp add: unat_of_nat take_bit_nat_eq_self del: of_nat_mult)
  have lt: "of_nat (16 * k) < isize x \<longleftrightarrow> k < ?N" using u x(2) by (auto simp: word_less_nat_alt elim!: dvdE simp del: of_nat_mult)
  show ?case
  proof (cases "k < ?N")
    case False
    then have "dir_loop (Suc f) dp nm (of_nat (16 * k)) s = Ok (None, s)" using lt Suc.prems(2) by (simp del: of_nat_mult)
    then show ?thesis using False Suc.prems(1) kept by (intro exI [of _ s]) simp
  next
    case True
    obtain t where t: "readi (\<lambda>_. None) dp (of_nat (16 * k)) 16 s = Ok ((16, ?e), t)" "cache_idle t" "kept s t"
      using dir_read [OF Suc.prems(1), of dp k] Suc.prems(2,3) True by metis
    note kt = kept_fs [OF t(3)]
    have dt: "dir_ok t x" using Suc.prems(3) kt(6) by (simp add: dir_ok_def)
    have upt: "[k..<?N] = k # [Suc k..<?N]" using True by (simp add: upt_conv_Cons)
    have next_off: "(of_nat (16 * k) + 16 :: uint) = of_nat (16 * Suc k)" by simp
    have turn: "dir_loop (Suc f) dp nm (of_nat (16 * k)) s =
        (if \<not> entry_is (view s) x nm k then dir_loop f dp nm (of_nat (16 * Suc k)) t
         else bindE (iget 1 (de_inum ?e) t) (\<lambda>(i, t). Ok (Some (i, of_nat (16 * k)), t)))"
      using lt True Suc.prems(2) t(1) kt(1) x(3) unfolding next_off [symmetric] by (simp add: namecmp_0 entry_is_def del: of_nat_mult)
    show ?thesis
    proof (cases "entry_is (view s) x nm k")
      case True
      then show ?thesis using turn t(2,3) upt by (intro exI [of _ t]) (simp del: of_nat_mult)
    next
      case F: False
      obtain w where w: "cache_idle w" "kept t w" "dir_loop f dp nm (of_nat (16 * Suc k)) t =
         (case find (entry_is (view s) x nm) [Suc k..<?N] of
            None \<Rightarrow> Ok (None, w)
          | Some j \<Rightarrow> bindE (iget 1 (de_inum (dirent_at (view s) x j)) w) (\<lambda>(i, t). Ok (Some (i, of_nat (16 * j)), t)))"
        using Suc.IH [OF t(2), of "Suc k", unfolded kt(1,2), OF Suc.prems(2) dt] True Suc.prems(5) by fastforce
      then show ?thesis using turn F upt kept_trans [OF t(3) w(2)] by (intro exI [of _ w]) (simp del: of_nat_mult)
    qed
  qed
qed simp

lemma dirlookup_run:
  fixes s :: "'z fstate_scheme"
  assumes "cache_idle s" "dir_ok s (the_inode s dp)"
  obtains t where "cache_idle t" "kept s t" "dirlookup dp nm s =
     (case dir_find (view s) (the_inode s dp) nm of
        None \<Rightarrow> Ok (None, t)
      | Some j \<Rightarrow> bindE (iget 1 (de_inum (dirent_at (view s) (the_inode s dp) j)) t) (\<lambda>(i, t). Ok (Some (i, of_nat (16 * j)), t)))"
proof -
  let ?n = "unat (isize (the_inode s dp))"
  have "?n div 16 - 0 < Suc ?n" by (simp add: less_Suc_eq_le div_le_dividend)
  then obtain t where t: "cache_idle t" "kept s t" "dir_loop (Suc ?n) dp nm (of_nat (16 * 0)) s =
     (case find (entry_is (view s) (the_inode s dp) nm) [0..<?n div 16] of
        None \<Rightarrow> Ok (None, t)
      | Some j \<Rightarrow> bindE (iget 1 (de_inum (dirent_at (view s) (the_inode s dp) j)) t) (\<lambda>(i, t). Ok (Some (i, of_nat (16 * j)), t)))"
    using dir_loop_ok [OF assms(1) refl assms(2) le0, of "Suc ?n" nm] by blast
  have zero: "(of_nat (16 * 0) :: uint) = 0" by simp
  have "\<not> itype (the_inode s dp) \<noteq> T_DIR" using assms(2) by (simp add: dir_ok_def)
  then have "dirlookup dp nm s = dir_loop (Suc ?n) dp nm (of_nat (16 * 0)) s"
    unfolding dirlookup_def zero by (rule if_not_P)
  then show thesis using t(3) by (intro that [OF t(1,2)]) (simp only: dir_find_def)
qed

lemma find_Some_iff2: "find P [0..<n] = Some k \<longleftrightarrow> k < n \<and> P k \<and> (\<forall>j < k. \<not> P j)"
  by (auto simp: find_Some_iff)

text \<open>C16: Looking up a name. In a directory with readable entries, \<open>dirlookup\<close> returns nothing exactly when no entry in use has the
  name (compared up to \<open>DIRSIZ\<close> bytes or a zero byte). Otherwise it returns the offset of the first such entry and a slot of the inode
  cache for the inode the entry names, with one more reference: the slot that caches this inode already, or a
  free one, never a second slot for it. No other slot changes.\<close>

theorem dirlookup_spec:
  fixes s :: "'z fstate_scheme"
  assumes s: "cache_idle s" "lock_free IcacheLock (hw s)" and d: "dir_ok s (the_inode s dp)"
    and room: "\<exists>i < length (inodes s). iref (the_inode s i) = 0"
  shows "if \<forall>k < unat (isize (the_inode s dp)) div 16. \<not> entry_is (view s) (the_inode s dp) nm k
    then \<exists>t. dirlookup dp nm s = Ok (None, t) \<and> kept s t
    else \<exists>k i t. entry_is (view s) (the_inode s dp) nm k \<and> (\<forall>j < k. \<not> entry_is (view s) (the_inode s dp) nm j)
      \<and> dirlookup dp nm s = Ok (Some (i, of_nat (16 * k)), t) \<and> view t = view s \<and> i < length (inodes s)
      \<and> cached 1 (de_inum (dirent_at (view s) (the_inode s dp) k)) (the_inode t i) \<and> iref (the_inode t i) = iref (the_inode s i) + 1
      \<and> (cached 1 (de_inum (dirent_at (view s) (the_inode s dp) k)) (the_inode s i)
         \<or> (\<forall>x \<in> set (inodes s). \<not> cached 1 (de_inum (dirent_at (view s) (the_inode s dp) k)) x))
      \<and> (\<forall>j. j \<noteq> i \<longrightarrow> the_inode t j = the_inode s j)"
proof -
  let ?x = "the_inode s dp"
  obtain t where t: "cache_idle t" "kept s t" "dirlookup dp nm s =
     (case dir_find (view s) ?x nm of None \<Rightarrow> Ok (None, t)
      | Some j \<Rightarrow> bindE (iget 1 (de_inum (dirent_at (view s) ?x j)) t) (\<lambda>(i, t). Ok (Some (i, of_nat (16 * j)), t)))"
    using dirlookup_run [OF s(1) d] by blast
  show ?thesis
  proof (cases "dir_find (view s) ?x nm")
    case None
    then have "\<forall>k < unat (isize ?x) div 16. \<not> entry_is (view s) ?x nm k" by (auto simp: dir_find_def find_None_iff)
    then show ?thesis using t None by auto
  next
    case (Some k)
    then have k: "k < unat (isize ?x) div 16" "entry_is (view s) ?x nm k" "\<forall>j < k. \<not> entry_is (view s) ?x nm j"
      unfolding dir_find_def find_Some_iff2 by blast+
    let ?n = "de_inum (dirent_at (view s) ?x k)"
    have same: "inodes t = inodes s" "view t = view s" using kept_fs [OF t(2)] by simp_all
    have hw: "hw_ok (hw t)" "lock_free IcacheLock (hw t)"
      using t(1,2) s(2) hw_same_free by (auto simp: cache_idle_def binv_def bok_def kept_def bmod_def still_def)
    obtain i h where i: "iget 1 ?n t = Ok (i, (upd_inode i (igot 1 ?n) t)\<lparr>hw := h\<rparr>)" "i < length (inodes s)"
        "cached 1 ?n (the_inode s i) \<or> iref (the_inode s i) = 0 \<and> (\<forall>x \<in> set (inodes s). \<not> cached 1 ?n x)"
      using iget_ok [OF hw, of 1 ?n] room unfolding same by metis
    let ?t = "(upd_inode i (igot 1 ?n) t)\<lparr>hw := h\<rparr>"
    have nth: "the_inode ?t i = igot 1 ?n (the_inode s i)" "j \<noteq> i \<Longrightarrow> the_inode ?t j = the_inode s j" for j
      using i(2) same(1) by (simp_all add: upd_inode_def)
    have v: "view ?t = view s" using same(2) by simp
    have c: "cached 1 ?n (the_inode ?t i)" "iref (the_inode ?t i) = iref (the_inode s i) + 1"
      using i(3) nth(1) by (auto simp: cached_def igot_def)
    have run: "dirlookup dp nm s = Ok (Some (i, of_nat (16 * k)), ?t)" using t(3) Some i(1) by simp
    have old: "cached 1 ?n (the_inode s i) \<or> (\<forall>x \<in> set (inodes s). \<not> cached 1 ?n x)" using i(3) by blast
    have no: "\<not> (\<forall>k < unat (isize ?x) div 16. \<not> entry_is (view s) ?x nm k)" using k by blast
    show ?thesis unfolding if_not_P [OF no]
      by (intro exI [of _ k] exI [of _ i] exI [of _ ?t] conjI k(2,3) run v i(2) c old allI impI nth(2))
  qed
qed

lemma demo_dir_sel: "isize demo_dir = 32" "itype demo_dir = T_DIR" "idev demo_dir = 1" "addrs demo_dir = 70 # replicate 12 0"
  by (simp_all add: demo_dir_def demo_ino_def)

lemma demo_dir_ok: "dir_ok demo_files demo_dir"
proof -
  have "bn * 512 < 32 \<longleftrightarrow> bn = 0" for bn :: nat by auto
  then show ?thesis by (simp add: dir_ok_def file_mapped_def block_mapped_def file_addr_def demo_dir_sel demo_files_sel)
qed

lemma demo_dir_bytes: "file_bytes demo_disk demo_dir = demo_entries"
proof (rule nth_equalityI)
  have len: "length demo_entries = 32" by (simp add: demo_entries_def mk_dirent_def)
  then show "length (file_bytes demo_disk demo_dir) = length demo_entries" by (simp add: file_bytes_def demo_dir_sel)
  fix i assume "i < length (file_bytes demo_disk demo_dir)"
  then have i: "i < 32" by (simp add: file_bytes_def demo_dir_sel)
  then have "file_byte demo_disk demo_dir i = demo_entries ! i"
    using put_same [of demo_entries i "\<lambda>_. 0" 0] len by (simp add: file_byte_def file_addr_def demo_dir_sel demo_disk_def)
  then show "file_bytes demo_disk demo_dir ! i = demo_entries ! i" using i by (simp add: file_bytes_def demo_dir_sel)
qed

lemma demo_dir_entries: "entry_is demo_disk demo_dir [97, 98] k \<longleftrightarrow> k = 1" if "k < 2" for k
proof -
  have "k = 0 \<or> k = 1" using that by auto
  then show ?thesis
    by (auto simp: entry_is_def dirent_at_def demo_dir_bytes demo_entries_def mk_dirent_def chars_def upt_rec de_inum_def de_name_def cname_def)
qed

lemma demo_dir_inum: "de_inum (dirent_at demo_disk demo_dir 1) = 7"
  by (simp add: dirent_at_def demo_dir_bytes demo_entries_def mk_dirent_def chars_def upt_rec de_inum_def)

theorem dirlookup_spec_witness:
  "\<exists>i t. dirlookup 1 [97, 98] demo_files = Ok (Some (i, 16), t) \<and> cached 1 7 (the_inode t i)"
proof -
  have x: "the_inode demo_files 1 = demo_dir" by (simp add: demo_files_sel)
  have "\<exists>i < length (inodes demo_files). iref (the_inode demo_files i) = 0" by (intro exI [of _ 2]) (simp add: demo_files_sel)
  note spec = dirlookup_spec [OF demo_files_idle(1) _ _ this, of 1 "[97, 98]", unfolded x demo_files_idle(2)]
  have e: "entry_is demo_disk demo_dir [97, 98] k \<longleftrightarrow> k = 1" if "k < 2" for k using demo_dir_entries that by simp
  then have no: "\<not> (\<forall>k < unat (isize demo_dir) div 16. \<not> entry_is demo_disk demo_dir [97, 98] k)"
    by (auto simp: demo_dir_sel intro!: exI [of _ 1])
  obtain k i t where k: "entry_is demo_disk demo_dir [97, 98] k" "\<forall>j < k. \<not> entry_is demo_disk demo_dir [97, 98] j"
      and r: "dirlookup 1 [97, 98] demo_files = Ok (Some (i, of_nat (16 * k)), t)" "cached 1 (de_inum (dirent_at demo_disk demo_dir k)) (the_inode t i)"
    using spec [OF _ demo_dir_ok] run_hw_free [of IcacheLock] unfolding if_not_P [OF no] by (auto simp: demo_files_sel(1))
  have "entry_is demo_disk demo_dir [97, 98] 1" using e [of 1] by simp
  then have "\<not> 1 < k" using k(2) by blast
  then have "k = 1" using k(1) e [of k] by simp
  then show ?thesis using r demo_dir_inum by auto
qed

end
