(* ===== verification/Fswrite.thy ===== *)
theory Fswrite
  imports Fsdir
begin

text \<open>
  What the file system writes: \<open>writei\<close> of \<open>fs.c\<close> inside a transaction, against the contents of the file as a
  list of bytes. Nothing reaches the disk before \<open>commit\<close>; the blocks written are pinned in the cache.
\<close>

section \<open>Writing one block\<close>

definition logged :: "'z lstate_scheme \<Rightarrow> uint \<Rightarrow> block \<Rightarrow> 'z lstate_scheme \<Rightarrow> bool" where
  "logged s n d t \<longleftrightarrow> binv t \<and> held t = {} \<and> lmod s t \<and> lock_free LogLock (hw t) \<and> pinned t \<and> view t = (view s)(n := d)
     \<and> dirties t = insert n (dirties s) \<and> disk t = disk s \<and> wtrace t = wtrace s
     \<and> card (spare s) \<le> card (spare t) + (if n \<in> dirties s then 0 else 1)
     \<and> lh_n (lh (log t)) = lh_n (lh (log s)) + (if n \<in> dirties s then 0 else 1)"

lemma lmod_trans: "lmod s t \<Longrightarrow> lmod t u \<Longrightarrow> lmod s u"
proof -
  assume st: "lmod s t" and "lmod t u"
  then obtain h g where h: "bmod (s\<lparr>log := (log s)\<lparr>lh := h\<rparr>\<rparr>) t" and g: "bmod (t\<lparr>log := (log t)\<lparr>lh := g\<rparr>\<rparr>) u" by (auto simp: lmod_def)
  have l: "log t = (log s)\<lparr>lh := h\<rparr>" using bmod_log [OF h] by simp
  let ?l = "(log s)\<lparr>lh := g\<rparr>"
  have "bcopy (t\<lparr>log := ?l\<rparr>) (s\<lparr>log := ?l\<rparr>) = (bcopy t (s\<lparr>log := (log s)\<lparr>lh := h\<rparr>\<rparr>))\<lparr>log := ?l\<rparr>" by (simp add: bcopy_def)
  then have "bmod (s\<lparr>log := ?l\<rparr>) (t\<lparr>log := ?l\<rparr>)" using h by (simp add: bmod_def still_def)
  moreover have "bmod (t\<lparr>log := ?l\<rparr>) u" using g l by simp
  ultimately show "lmod s u" unfolding lmod_def using bmod_trans by blast
qed

lemma bmod_lmod: "bmod s t \<Longrightarrow> lmod s t"
  unfolding lmod_def by (intro exI [of _ "lh (log s)"]) simp

lemma lmod_same:
  assumes "lmod s t"
  shows "outstanding (log t) = outstanding (log s)" "lsize (log t) = lsize (log s)" "disksize t = disksize s" "mem t = mem s"
proof -
  obtain h where h: "bmod (s\<lparr>log := (log s)\<lparr>lh := h\<rparr>\<rparr>) t" using assms by (auto simp: lmod_def)
  show "outstanding (log t) = outstanding (log s)" "lsize (log t) = lsize (log s)" using bmod_log [OF h] by simp_all
  show "disksize t = disksize s" "mem t = mem s" using bmod_same(1,2) [OF h] by simp_all
qed

lemma lmod_fs:
  fixes s t :: "'z fstate_scheme"
  assumes "lmod s t"
  shows "inodes t = inodes s" "sb t = sb s"
proof -
  obtain h where h: "bmod (s\<lparr>log := (log s)\<lparr>lh := h\<rparr>\<rparr>) t" using assms by (auto simp: lmod_def)
  show "inodes t = inodes s" "sb t = sb s" using bmod_fs(1,2) [OF h] by simp_all
qed

lemma finite_spare [simp]: "finite (spare s)"
  by (simp add: spare_def)

lemma kept_txn:
  fixes s t :: "'z lstate_scheme"
  assumes "kept s t" "txn_open k s"
  shows "txn_open k t" "log t = log s"
proof -
  have b: "bmod s t" "dirties t = dirties s" using assms(1) by (simp_all add: kept_def)
  then show l: "log t = log s" using bmod_log by blast
  have "lock_free LogLock (hw t)" using b(1) assms(2) hw_same_free by (auto simp: bmod_def still_def txn_open_def)
  with l b(2) assms(2) show "txn_open k t" by (simp add: txn_open_def pinned_def)
qed

lemma txn_open_mono: "txn_open k s \<Longrightarrow> j \<le> k \<Longrightarrow> txn_open j s"
  by (simp add: txn_open_def)

lemma log_block:
  fixes s :: "'z lstate_scheme"
  assumes s: "binv s" "held s = {}" and n: "n < disksize s" "n \<in> dirties s \<or> spare s \<noteq> {}" and txn: "txn_open 1 s"
  obtains b t u w where "bread 1 n s = Ok (b, t)" "bdata (the_buf t b) = view s n"
    "log_write b (poke b d t) = Ok u" "brelse b u = Ok w" "logged s n d w"
proof -
  obtain b t where b: "bread 1 n s = Ok (b, t)" "opened s n b t" using bread_ok [OF s(1) n(1) _ n(2)] s(2) by blast
  have t: "binv t" "b \<in> held t" "caches t n b" "kept s t" "held t = {b}" "spare t = spare s - {b}" "bdata (the_buf t b) = view s n"
    "dirties t = dirties s" "view t = view s" "disk t = disk s" "wtrace t = wtrace s" "bmod s t"
    using b(2) s(2) by (auto simp: opened_def kept_def)
  note tx = kept_txn [OF t(4) txn]
  obtain u where u: "log_write b (poke b d t) = Ok u" "binv u" "pinned u" "dirties u = insert n (dirties s)" "held u = {b}"
      "spare u = spare t" "view u = (view s)(n := d)" "disk u = disk s" "wtrace u = wtrace s" "bdirty (the_buf u b)"
      "lock_free LogLock (hw u)" "bmod (t\<lparr>log := (log t)\<lparr>lh := absorb n (lh (log t))\<rparr>\<rparr>) u"
      "lh_n (lh (log u)) = lh_n (lh (log s)) + (if n \<in> dirties s then 0 else 1)"
    using log_write_ok [OF t(1-3) tx(1), of d] t(5,8-11) tx(2) by auto
  obtain w where w: "brelse b u = Ok w" "kept u w" "held w = {}" "spare u \<subseteq> spare w"
    using brelse_ok [OF u(2), of b] u(5,10) by auto
  have "lmod t u" using u(12) by (auto simp: lmod_def)
  then have "lmod s w" using lmod_trans bmod_lmod [OF t(12)] bmod_lmod [of u w] w(2) by (metis kept_def)
  moreover have "hw_same (hw u) (hw w)" "log w = log u" using w(2) bmod_log by (auto simp: kept_def bmod_def still_def)
  then have "lock_free LogLock (hw w)" "log w = log u" using hw_same_free u(11) by auto
  moreover have "card (spare s) \<le> card (spare w) + (if n \<in> dirties s then 0 else 1)"
  proof -
    have "n \<in> dirties s \<Longrightarrow> b \<notin> spare s" using b(2) by (auto simp: opened_def spare_def)
    moreover have "card (spare t) \<le> card (spare w)" using w(4) u(6) by (intro card_mono) simp_all
    ultimately show ?thesis using t(6) card_Diff1_le [of "spare s" b] card_Suc_Diff1 [of "spare s" b] by (cases "b \<in> spare s") auto
  qed
  ultimately have "logged s n d w" using w(2,3) u(3,4,7-9,13) by (simp add: logged_def kept_def pinned_def)
  then show thesis using that [OF b(1) t(7) u(1) w(1)] by blast
qed

section \<open>Writing a file\<close>

text \<open>No block of the file is used twice, as data or as the indirect block.\<close>

definition file_sep :: "(uint \<Rightarrow> block) \<Rightarrow> inode \<Rightarrow> bool" where
  "file_sep v x \<longleftrightarrow> inj_on (file_addr v x) {bn. bn * 512 < unat (isize x)} \<and> addrs x ! NDIRECT \<notin> file_addr v x ` {bn. bn * 512 < unat (isize x)}"

lemma put_nth:
  assumes "a + length bs \<le> 512" "j < 512"
  shows "put d (of_nat a) bs (of_nat j) = (if a \<le> j \<and> j < a + length bs then bs ! (j - a) else d (of_nat j))"
proof (cases "a \<le> j \<and> j < a + length bs")
  case True
  then have e: "(of_nat j :: uint) = of_nat a + of_nat (j - a)" by (metis of_nat_add le_add_diff_inverse)
  show ?thesis unfolding if_P [OF True] e by (rule put_same) (use True assms in auto)
next
  case False
  have "(of_nat j :: uint) \<noteq> of_nat a + of_nat i" if "i < length bs" for i
  proof
    assume "(of_nat j :: uint) = of_nat a + of_nat i"
    then have "unat (of_nat j :: uint) = unat (of_nat (a + i) :: uint)" by simp
    then have "j = a + i" using assms that by (simp add: unat_of_nat take_bit_nat_eq_self del: of_nat_add)
    with False that show False by simp
  qed
  then show ?thesis unfolding if_not_P [OF False] by (rule put_other)
qed

lemma put_block:
  assumes sep: "file_sep v x" and o1: "o1 < unat (isize x)" "o1 mod 512 + length bs \<le> 512"
  defines "a \<equiv> file_addr v x (o1 div 512)"
  defines "w \<equiv> v(a := put (v a) (of_nat (o1 mod 512)) bs)"
  shows "bn * 512 < unat (isize x) \<Longrightarrow> file_addr w x bn = file_addr v x bn"
    and "i < unat (isize x) \<Longrightarrow> file_byte w x i = (if o1 \<le> i \<and> i < o1 + length bs then bs ! (i - o1) else file_byte v x i)"
proof -
  have ne: "addrs x ! 12 \<noteq> a" using sep o1(1) by (auto simp: file_sep_def a_def)
  show fa: "file_addr w x bn = file_addr v x bn" for bn using ne by (simp add: file_addr_def w_def)
  show "file_byte w x i = (if o1 \<le> i \<and> i < o1 + length bs then bs ! (i - o1) else file_byte v x i)" if i: "i < unat (isize x)"
  proof (cases "i div 512 = o1 div 512")
    case True
    have "o1 = 512 * (o1 div 512) + o1 mod 512" "i = 512 * (i div 512) + i mod 512" by simp_all
    then have "o1 \<le> i \<longleftrightarrow> o1 mod 512 \<le> i mod 512" "i < o1 + length bs \<longleftrightarrow> i mod 512 < o1 mod 512 + length bs" "i - o1 = i mod 512 - o1 mod 512"
      using True by linarith+
    then show ?thesis using put_nth [OF o1(2), of "i mod 512"] True fa by (simp add: file_byte_def w_def a_def)
  next
    case False
    have "i div 512 * 512 < unat (isize x)" "o1 div 512 * 512 < unat (isize x)" using i o1(1) by auto
    then have "file_addr v x (i div 512) \<noteq> a" using sep False by (auto simp: file_sep_def a_def inj_on_def)
    moreover have "\<not> (o1 \<le> i \<and> i < o1 + length bs)"
    proof
      assume c: "o1 \<le> i \<and> i < o1 + length bs"
      have "o1 = 512 * (o1 div 512) + o1 mod 512" "i = 512 * (i div 512) + i mod 512" "o1 div 512 \<le> i div 512" "i mod 512 < 512"
        using c by (simp_all add: div_le_mono)
      then have "i div 512 = o1 div 512" using c o1(2) by linarith
      with False show False by simp
    qed
    ultimately show ?thesis using fa [of "i div 512"] by (auto simp: file_byte_def w_def)
  qed
qed

text \<open>The number of blocks that \<open>n\<close> bytes at offset \<open>o1\<close> touch, and a state in which \<open>k\<close> more blocks can be logged.\<close>

definition touched :: "nat \<Rightarrow> nat \<Rightarrow> nat" where
  "touched o1 n = (if n = 0 then 0 else (o1 + n - 1) div 512 - o1 div 512 + 1)"

definition ready :: "nat \<Rightarrow> 'z lstate_scheme \<Rightarrow> bool" where
  "ready k s \<longleftrightarrow> binv s \<and> held s = {} \<and> txn_open (int k) s \<and> k < card (spare s)"

definition wrote :: "'z fstate_scheme \<Rightarrow> inode \<Rightarrow> nat \<Rightarrow> byte list \<Rightarrow> 'z fstate_scheme \<Rightarrow> bool" where
  "wrote s x o1 bs t \<longleftrightarrow> ready 0 t \<and> lmod s t \<and> disk t = disk s \<and> wtrace t = wtrace s
     \<and> (\<forall>bn. bn * 512 < unat (isize x) \<longrightarrow> file_addr (view t) x bn = file_addr (view s) x bn)
     \<and> (\<forall>i < unat (isize x). file_byte (view t) x i = (if o1 \<le> i \<and> i < o1 + length bs then bs ! (i - o1) else file_byte (view s) x i))
     \<and> (\<forall>m. m \<notin> file_addr (view s) x ` {bn. bn * 512 < unat (isize x)} \<longrightarrow> view t m = view s m)"

lemma touched_step:
  assumes "0 < n" "m = min n (512 - o1 mod 512)"
  shows "touched o1 n = Suc (touched (o1 + m) (n - m))"
proof (cases "n \<le> 512 - o1 mod 512")
  case True
  have "o1 = 512 * (o1 div 512) + o1 mod 512" "o1 mod 512 < 512" by simp_all
  then have "o1 + n - 1 = 512 * (o1 div 512) + (o1 mod 512 + n - 1)" "o1 mod 512 + n - 1 < 512" using True assms(1) by linarith+
  then have "(o1 + n - 1) div 512 = o1 div 512" by simp
  then show ?thesis using assms True by (simp add: touched_def)
next
  case False
  then have m: "m = 512 - o1 mod 512" "m < n" using assms(2) by auto
  have "o1 mod 512 + m = 512" using m(1) by simp
  then have e: "o1 + m = 512 * Suc (o1 div 512)" using mult_div_mod_eq [of 512 o1] by (metis add.assoc add.commute mult_Suc_right)
  have "o1 + m \<le> o1 + n - 1" using m(2) by simp
  then have "Suc (o1 div 512) \<le> (o1 + n - 1) div 512" unfolding e by (simp add: less_eq_div_iff_mult_less_eq)
  moreover have "(o1 + m) div 512 = Suc (o1 div 512)" unfolding e by simp
  moreover have "o1 + m + (n - m) - 1 = o1 + n - 1" using m(2) by simp
  ultimately show ?thesis using m(2) unfolding touched_def by (simp add: Suc_diff_le [symmetric])
qed

lemma ready_logged: "ready (Suc k) s \<Longrightarrow> logged s n d t \<Longrightarrow> ready k t"
  using lmod_same [of s t] by (auto simp: ready_def logged_def txn_open_def split: if_splits)

lemma ready_kept: "ready k s \<Longrightarrow> kept s t \<Longrightarrow> cache_idle t \<Longrightarrow> spare s \<subseteq> spare t \<Longrightarrow> ready k t"
  using kept_txn(1) [of s t "int k"] card_mono [of "spare t" "spare s"] by (auto simp: ready_def kept_def cache_idle_def)

lemma ready_idle: "ready k s \<Longrightarrow> cache_idle s"
  by (auto simp: ready_def cache_idle_def)

lemma wrote_mapped:
  fixes s t :: "'z fstate_scheme"
  assumes "wrote s x o1 bs t"
  shows "file_mapped t x = file_mapped s x" "file_sep (view t) x = file_sep (view s) x"
proof -
  have e: "disksize t = disksize s" "\<And>bn. bn * 512 < unat (isize x) \<Longrightarrow> file_addr (view t) x bn = file_addr (view s) x bn"
    using assms lmod_same(3) [of s t] by (auto simp: wrote_def)
  then show "file_mapped t x = file_mapped s x" by (auto simp: file_mapped_def block_mapped_def)
  have "file_addr (view t) x ` {bn. bn * 512 < unat (isize x)} = file_addr (view s) x ` {bn. bn * 512 < unat (isize x)}"
    "inj_on (file_addr (view t) x) {bn. bn * 512 < unat (isize x)} = inj_on (file_addr (view s) x) {bn. bn * 512 < unat (isize x)}"
    using e(2) by (auto intro!: image_cong inj_on_cong)
  then show "file_sep (view t) x = file_sep (view s) x" by (simp add: file_sep_def)
qed

text \<open>One turn of the loop: the part \<open>bs\<close> of the data that goes into the block at offset \<open>o1\<close>.\<close>

lemma write_step:
  fixes s :: "'z fstate_scheme"
  assumes s: "ready (Suc k) s" "x = the_inode s ip" "file_mapped s x" "file_sep (view s) x"
    and o1: "o1 < unat (isize x)" "o1 mod 512 + length bs \<le> 512"
  obtains t b u v w where "bmap ip (of_nat (o1 div 512)) s = Ok (file_addr (view s) x (o1 div 512), t)" "the_inode t ip = x"
    "bread 1 (file_addr (view s) x (o1 div 512)) t = Ok (b, u)"
    "log_write b (upd_buf b (\<lambda>y. y\<lparr>bdata := put (bdata y) (of_nat (o1 mod 512)) bs\<rparr>) u) = Ok v" "brelse b v = Ok w"
    "ready k w" "wrote s x o1 bs w"
proof -
  let ?a = "file_addr (view s) x (o1 div 512)"
  have m: "block_mapped s x (o1 div 512)" "idev x = 1" using s(3) o1(1) by (auto simp: file_mapped_def)
  obtain t where t: "bmap ip (of_nat (o1 div 512)) s = Ok (?a, t)" "cache_idle t" "kept s t" "spare s \<subseteq> spare t"
    using bmap_ok [OF ready_idle [OF s(1)], of ip "o1 div 512"] m s(2) by metis
  note kt = kept_fs [OF t(3)]
  have rt: "ready (Suc k) t" using ready_kept [OF s(1) t(3,2,4)] .
  have a: "?a < disksize t" using m(1) kt(3) by (simp add: block_mapped_def)
  let ?d = "put (view s ?a) (of_nat (o1 mod 512)) bs"
  have "binv t" "held t = {}" "?a \<in> dirties t \<or> spare t \<noteq> {}" "txn_open 1 t"
    using rt txn_open_mono [of "int (Suc k)" t 1] by (auto simp: ready_def)
  then obtain b u v w where b: "bread 1 ?a t = Ok (b, u)" "bdata (the_buf u b) = view t ?a" "log_write b (poke b ?d u) = Ok v" "brelse b v = Ok w" "logged t ?a ?d w"
    using log_block [of t ?a ?d] a by metis
  have poke: "upd_buf b (\<lambda>y. y\<lparr>bdata := put (bdata y) (of_nat (o1 mod 512)) bs\<rparr>) u = poke b ?d u"
    using b(2) kt(2) by (simp add: poke_def upd_buf_def)
  have rw: "ready k w" using ready_logged [OF rt b(5)] .
  have v: "view w = (view s)(?a := ?d)" "lmod t w" "disk w = disk s" "wtrace w = wtrace s"
    using b(5) kt(2) t(3) by (simp_all add: logged_def kept_def)
  have "lmod s w" using lmod_trans [OF bmod_lmod v(2)] t(3) by (simp add: kept_def)
  moreover have "ready 0 w" using rw txn_open_mono [of "int k" w 0] by (auto simp: ready_def)
  moreover have "?a \<in> file_addr (view s) x ` {bn. bn * 512 < unat (isize x)}" using o1(1) by (intro imageI) auto
  then have "m \<notin> file_addr (view s) x ` {bn. bn * 512 < unat (isize x)} \<Longrightarrow> view w m = view s m" for m using v(1) by auto
  ultimately have "wrote s x o1 bs w"
    using v(3,4) put_block [OF s(4) o1] unfolding wrote_def v(1) by (intro conjI allI impI) simp_all
  then show thesis using that t(1) b(1,3,4) poke rw kt(1) s(2) by auto
qed

lemma wrote_trans:
  fixes s t u :: "'z fstate_scheme"
  assumes "wrote s x o1 bs t" "wrote t x (o1 + length bs) cs u"
  shows "wrote s x o1 (bs @ cs) u"
proof -
  have im: "file_addr (view t) x ` {bn. bn * 512 < unat (isize x)} = file_addr (view s) x ` {bn. bn * 512 < unat (isize x)}"
    using assms(1) by (auto simp: wrote_def intro!: image_cong)
  have "file_byte (view u) x i = (if o1 \<le> i \<and> i < o1 + length (bs @ cs) then (bs @ cs) ! (i - o1) else file_byte (view s) x i)"
    if i: "i < unat (isize x)" for i
  proof -
    have "file_byte (view u) x i = (if o1 + length bs \<le> i \<and> i < o1 + length bs + length cs then cs ! (i - (o1 + length bs)) else file_byte (view t) x i)"
      "file_byte (view t) x i = (if o1 \<le> i \<and> i < o1 + length bs then bs ! (i - o1) else file_byte (view s) x i)"
      using assms i unfolding wrote_def by blast+
    then show ?thesis by (auto simp: nth_append not_less)
  qed
  moreover have "lmod s u" using assms lmod_trans by (auto simp: wrote_def)
  ultimately show ?thesis using assms unfolding wrote_def im by auto
qed

lemma write_loop_ok:
  fixes s :: "'z fstate_scheme"
  assumes "ready (touched (unat off) (length src)) s" "x = the_inode s ip" "file_mapped s x" "file_sep (view s) x"
    "unat off + length src \<le> unat (isize x)" "length src < k"
  shows "\<exists>t. write_loop k ip src off s = Ok (off + of_nat (length src), t) \<and> wrote s x (unat off) src t"
  using assms
proof (induction k arbitrary: off src s)
  case (Suc k)
  show ?case
  proof (cases "src = []")
    case True
    then show ?thesis using Suc.prems(1) by (auto simp: wrote_def touched_def lmod_def intro!: exI [of _ "lh (log s)"])
  next
    case False
    define m where "m = min (length src) (512 - unat off mod 512)"
    have "unat (512 - off mod 512) = 512 - unat off mod 512"
      by (subst unat_sub) (simp_all add: word_le_nat_alt unat_mod less_imp_le)
    then have mw: "min (length src) (unat (BSIZE - off mod BSIZE)) = m" by (simp add: m_def)
    have "unat off mod 512 < 512" by simp
    then have m: "0 < m" "m \<le> length src" "unat off mod 512 + length (take m src) \<le> 512" using False by (auto simp: m_def)
    have off: "unat off < unat (isize x)" using Suc.prems(5) False by (cases src) auto
    have tch: "touched (unat off) (length src) = Suc (touched (unat off + m) (length (drop m src)))"
      using touched_step [of "length src" m "unat off", OF _ m_def] False unfolding length_drop length_greater_0_conv .
    obtain t b u v w where b: "bmap ip (of_nat (unat off div 512)) s = Ok (file_addr (view s) x (unat off div 512), t)" "the_inode t ip = x"
        "bread 1 (file_addr (view s) x (unat off div 512)) t = Ok (b, u)"
        "log_write b (upd_buf b (\<lambda>y. y\<lparr>bdata := put (bdata y) (of_nat (unat off mod 512)) (take m src)\<rparr>) u) = Ok v" "brelse b v = Ok w"
        and w: "ready (touched (unat off + m) (length (drop m src))) w" "wrote s x (unat off) (take m src) w"
      by (rule write_step [OF Suc.prems(1) [unfolded tch] Suc.prems(2-4) off m(3)])
    have om: "unat (off + of_nat m) = unat off + m"
    proof -
      have "unat off + m < 2 ^ 32" using m(2) Suc.prems(5) unat32 [of "isize x"] by simp
      then show ?thesis by (simp add: unat_word_ariths unat_of_nat)
    qed
    have "lmod s w" using w(2) by (simp add: wrote_def)
    then have iw: "x = the_inode w ip" using lmod_fs(1) [of s w] Suc.prems(2) by simp
    have rest: "unat (off + of_nat m) + length (drop m src) \<le> unat (isize x)" "length (drop m src) < k"
      using om m(1,2) Suc.prems(5,6) by auto
    obtain z where z: "write_loop k ip (drop m src) (off + of_nat m) w = Ok (off + of_nat m + of_nat (length (drop m src)), z)"
        "wrote w x (unat off + m) (drop m src) z"
      using Suc.IH [of "off + of_nat m" "drop m src" w, OF _ iw _ _ rest] w(1) wrote_mapped [OF w(2)] Suc.prems(3,4) unfolding om by blast
    have e: "off + of_nat m + of_nat (length (drop m src)) = off + of_nat (length src)"
      using m(2) by (simp add: add.assoc flip: of_nat_add)
    have "idev x = 1" using Suc.prems(3) by (simp add: file_mapped_def)
    then have "write_loop (Suc k) ip src off s = Ok (off + of_nat (length src), z)"
      using False b z(1) e mw by (simp add: word_div512 Let_def)
    moreover have "wrote s x (unat off) src z" using wrote_trans [OF w(2), of "drop m src" z] z(2) m(2) by simp
    ultimately show ?thesis by blast
  qed
qed simp

lemma wrote_bytes:
  assumes "wrote s x o1 bs t" "o1 + length bs \<le> unat (isize x)"
  shows "file_bytes (view t) x = take o1 (file_bytes (view s) x) @ bs @ drop (o1 + length bs) (file_bytes (view s) x)"
proof (rule nth_equalityI)
  fix i assume "i < length (file_bytes (view t) x)"
  then have i: "i < unat (isize x)" by (simp add: file_bytes_def)
  then have "file_byte (view t) x i = (if o1 \<le> i \<and> i < o1 + length bs then bs ! (i - o1) else file_byte (view s) x i)"
    using assms(1) by (simp add: wrote_def)
  then show "file_bytes (view t) x ! i = (take o1 (file_bytes (view s) x) @ bs @ drop (o1 + length bs) (file_bytes (view s) x)) ! i"
    using i assms(2) by (auto simp: file_bytes_def nth_append)
qed (use assms(2) in \<open>simp add: file_bytes_def\<close>)

text \<open>C5: Writing a file. \<open>writei\<close> refuses an offset beyond the end, a range that wraps around and one that goes beyond the
  largest file, and changes nothing then. A write inside a file whose blocks are allocated, in a transaction with
  room in the log and in the cache for the blocks it touches, replaces exactly the bytes of its range; the other bytes of the
  file, the blocks of other files and the inodes stay the same, and nothing goes to the disk before the commit.
  \<open>readi\<close> of the same range then returns what was written.\<close>

theorem writei_contents:
  fixes s :: "'z fstate_scheme"
  assumes x: "x = the_inode s ip" "itype x \<noteq> T_DEV"
  shows "(off > isize x \<or> off + of_nat (length src) < off \<or> off + of_nat (length src) > of_nat MAXFILE * BSIZE \<longrightarrow> writei dw ip src off s = Ok (-1, s))
    \<and> (ready (touched (unat off) (length src)) s \<and> file_mapped s x \<and> file_sep (view s) x \<and> unat off + length src \<le> unat (isize x) \<longrightarrow>
       (\<exists>t. writei dw ip src off s = Ok (int (length src), t)
          \<and> file_bytes (view t) x = take (unat off) (file_bytes (view s) x) @ src @ drop (unat off + length src) (file_bytes (view s) x)
          \<and> (\<forall>m. m \<notin> file_addr (view s) x ` {bn. bn * 512 < unat (isize x)} \<longrightarrow> view t m = view s m)
          \<and> inodes t = inodes s \<and> disk t = disk s \<and> wtrace t = wtrace s
          \<and> (\<exists>u. readi dr ip off (of_nat (length src)) t = Ok ((int (length src), src), u))))"
proof (intro conjI impI)
  assume "off > isize x \<or> off + of_nat (length src) < off \<or> off + of_nat (length src) > of_nat MAXFILE * BSIZE"
  then show "writei dw ip src off s = Ok (-1, s)" using x by (auto simp: writei_def Let_def)
next
  assume a: "ready (touched (unat off) (length src)) s \<and> file_mapped s x \<and> file_sep (view s) x \<and> unat off + length src \<le> unat (isize x)"
  have sz: "unat (isize x) \<le> 71680" using mapped_size a by blast
  define n :: uint where "n = of_nat (length src)"
  have n: "unat n = length src" using a sz by (simp add: n_def unat_of_nat take_bit_nat_eq_self)
  then have sum: "unat (off + n) = unat off + length src" using a sz by (simp add: unat_word_ariths)
  have ok: "\<not> off > isize x" "\<not> off + n < off" "\<not> off + n > 71680" "\<not> off + n > isize x"
    using a sum sz by (simp_all add: word_less_nat_alt)
  obtain t where t: "write_loop (Suc (length src)) ip src off s = Ok (off + n, t)" "wrote s x (unat off) src t"
    using write_loop_ok [of off src s x ip "Suc (length src)"] a x(1) unfolding n_def by blast
  have lm: "lmod s t" "ready 0 t" using t(2) by (simp_all add: wrote_def)
  have xt: "the_inode t ip = x" using lmod_fs(1) [OF lm(1)] x(1) by simp
  have "uint n = int (length src)" using n by (metis uint_nat)
  then have run: "writei dw ip src off s = Ok (int (length src), t)"
    using x ok t(1) xt unfolding writei_def Let_def n_def [symmetric] by (simp del: write_loop.simps)
  have bytes: "file_bytes (view t) x = take (unat off) (file_bytes (view s) x) @ src @ drop (unat off + length src) (file_bytes (view s) x)"
    using wrote_bytes [OF t(2)] a by simp
  have "unat off \<le> length (file_bytes (view s) x)" using a by (simp add: file_bytes_def)
  then have "take (unat n) (drop (unat off) (file_bytes (view t) x)) = src" using n by (simp add: bytes)
  then have "\<exists>u. readi dr ip off n t = Ok ((int (length src), src), u)"
    using readi_ok [OF ready_idle [OF lm(2)], of ip off n dr] xt x(2) a wrote_mapped(1) [OF t(2)] ok by auto
  then show "\<exists>t. writei dw ip src off s = Ok (int (length src), t)
          \<and> file_bytes (view t) x = take (unat off) (file_bytes (view s) x) @ src @ drop (unat off + length src) (file_bytes (view s) x)
          \<and> (\<forall>m. m \<notin> file_addr (view s) x ` {bn. bn * 512 < unat (isize x)} \<longrightarrow> view t m = view s m)
          \<and> inodes t = inodes s \<and> disk t = disk s \<and> wtrace t = wtrace s
          \<and> (\<exists>u. readi dr ip off (of_nat (length src)) t = Ok ((int (length src), src), u))"
    using run bytes lmod_fs(1) [OF lm(1)] t(2) unfolding n_def wrote_def by blast
qed

theorem writei_contents_witness:
  "\<exists>t. writei (\<lambda>_. None) 0 [1, 2, 3, 4] 510 demo_files = Ok (4, t)
     \<and> file_bytes (view t) demo_ino = replicate 510 60 @ [1, 2, 3, 4] @ replicate 86 61
     \<and> (\<exists>u. readi (\<lambda>_. None) 0 510 4 t = Ok ((4, [1, 2, 3, 4]), u))"
proof -
  have "pinned demo_files" by (simp add: pinned_def demo_files_sel demo_files_idle)
  then have "ready 2 demo_files" using demo_files_idle(1,3) run_hw_free by (simp add: ready_def cache_idle_def txn_open_def demo_files_sel)
  moreover have "touched (unat (510 :: uint)) (length [1, 2, 3, 4 :: byte]) = 2" by (simp add: touched_def)
  moreover have "file_sep v demo_ino" for v using demo_ino_addr [of _ v] by (auto simp: file_sep_def inj_on_def demo_ino_sel)
  moreover have "take 510 (replicate 512 (60 :: byte) @ replicate 88 61) = replicate 510 60"
    "drop 514 (replicate 512 (60 :: byte) @ replicate 88 61) = replicate 86 61" by simp_all
  ultimately show ?thesis
    using writei_contents [of demo_ino demo_files 0 510 "[1, 2, 3, 4]" "\<lambda>_. None" "\<lambda>_. None"] demo_ino_mapped
    by (auto simp: demo_files_sel demo_files_idle demo_ino_sel demo_ino_bytes)
qed

end
