(* ===== verification/Cow.thy ===== *)
theory Cow
  imports Vm
begin

text \<open>
  The memory invariant of copy-on-write and what the operations of \<open>vm.c\<close> do under it.

  \<open>D\<close> is the set of page directories in use and \<open>fl\<close> the free pages. \<open>mapcount m D v\<close>
  is the number of user pages, over all directories, whose entry names the page \<open>v\<close>. The
  invariant \<open>vinv s fl D\<close> says that directories and page tables are separate pages with
  one reference each, that every user entry names an allocatable page that is no page
  table, that the reference count of a mapped page is the number of its mappings, and that
  a page with a writable mapping has only that one.

  \<open>kmod s t\<close> says that an operation has changed nothing but memory and the allocator's
  fields. Each operation has a lemma that gives its result, the page tables afterwards as a
  function of those before, and the free pages afterwards.
\<close>

section \<open>Counting mappings\<close>

definition user_page :: "uint \<Rightarrow> bool" where
  "user_page va \<longleftrightarrow> page_aligned va \<and> va < KERNBASE"

definition hits :: "uint \<Rightarrow> uint \<Rightarrow> bool" where
  "hits e v \<longleftrightarrow> present e \<and> frame_of e = v"

definition maps :: "memory \<Rightarrow> uint \<Rightarrow> uint \<Rightarrow> uint set" where
  "maps m d v = {va. user_page va \<and> hits (pte_at m d va) v}"

definition mapcount :: "memory \<Rightarrow> uint set \<Rightarrow> uint \<Rightarrow> int" where
  "mapcount m D v = (\<Sum>d\<in>D. int (card (maps m d v)))"

lemma pte_at_page: "pte_at m d (PGROUNDDOWN va) = pte_at m d va"
  by (simp add: pte_at_def slot_def cong: option.case_cong)

lemma slot_page: "slot m d (PGROUNDDOWN va) = slot m d va"
  by (simp add: slot_def cong: option.case_cong)

lemma PGROUNDDOWN_user [simp]: "user_page va \<Longrightarrow> PGROUNDDOWN va = va"
  by (simp add: user_page_def flip: PGROUNDDOWN_aligned)

lemma user_page_down: "va < KERNBASE \<Longrightarrow> user_page (PGROUNDDOWN va)"
  using unat_PGROUNDDOWN [of va] by (simp add: user_page_def word_less_nat_alt)

lemma finite_maps [simp]: "finite (maps m d v)"
  by simp

lemma mapcount_nonneg [simp]: "0 \<le> mapcount m D v"
  by (simp add: mapcount_def sum_nonneg)

lemma mapcount_cong:
  assumes "\<And>d va. d \<in> D \<Longrightarrow> user_page va \<Longrightarrow> pte_at m' d va = pte_at m d va"
  shows "mapcount m' D v = mapcount m D v"
  unfolding mapcount_def maps_def by (intro sum.cong arg_cong [of _ _ "\<lambda>S. int (card S)"]) (use assms in auto)

lemma mapcount_pos_iff:
  "finite D \<Longrightarrow> 0 < mapcount m D v \<longleftrightarrow> (\<exists>d\<in>D. \<exists>va. user_page va \<and> hits (pte_at m d va) v)"
proof -
  assume fin: "finite D"
  have "mapcount m D v = 0 \<longleftrightarrow> (\<forall>d\<in>D. card (maps m d v) = 0)"
    unfolding mapcount_def using fin by (subst sum_nonneg_eq_0_iff) auto
  also have "\<dots> \<longleftrightarrow> (\<forall>d\<in>D. maps m d v = {})" by simp
  finally have "0 < mapcount m D v \<longleftrightarrow> \<not> (\<forall>d\<in>D. maps m d v = {})"
    using mapcount_nonneg [of m D v] by (metis less_irrefl order_le_less)
  then show ?thesis unfolding maps_def by blast
qed

lemma mapcount_0:
  assumes "finite D"
  shows "mapcount m D v = 0 \<longleftrightarrow> (\<forall>d\<in>D. \<forall>va. user_page va \<longrightarrow> \<not> hits (pte_at m d va) v)"
  using mapcount_pos_iff [OF assms, of m v] mapcount_nonneg [of m D v]
  by (metis less_irrefl order_le_less)

text \<open>One entry written.\<close>

lemma mapcount_upd:
  assumes "finite D" "d \<in> D" "user_page va"
    and upd: "\<And>d' va'. d' \<in> D \<Longrightarrow> user_page va' \<Longrightarrow>
      pte_at m' d' va' = (if d' = d \<and> va' = va then e else pte_at m d' va')"
  shows "mapcount m' D v = mapcount m D v - of_bool (hits (pte_at m d va) v) + of_bool (hits e v)"
proof -
  let ?c = "\<lambda>m d. int (card (maps m d v))"
  have other: "?c m' d' = ?c m d'" if "d' \<in> D - {d}" for d'
  proof -
    have "maps m' d' v = maps m d' v" using that upd by (auto simp: maps_def)
    then show ?thesis by simp
  qed
  have rest: "maps m' d v - {va} = maps m d v - {va}" using assms(2) upd by (auto simp: maps_def)
  have cd: "?c n d = int (card (maps n d v - {va})) + of_bool (hits (pte_at n d va) v)" for n
  proof (cases "hits (pte_at n d va) v")
    case True
    then have "va \<in> maps n d v" using assms(3) by (simp add: maps_def)
    then show ?thesis using True card.remove [OF finite_maps, of va n d v] by simp
  next
    case False
    then have "maps n d v - {va} = maps n d v" by (auto simp: maps_def)
    then show ?thesis using False by simp
  qed
  have "mapcount n D v = ?c n d + (\<Sum>d'\<in>D - {d}. ?c n d')" for n
    unfolding mapcount_def using assms(1,2) by (rule sum.remove)
  then show ?thesis
    using cd [of m] cd [of m'] rest other upd [OF assms(2,3)] by simp
qed

text \<open>A directory without user mappings does not count.\<close>

lemma mapcount_insert_empty:
  assumes "finite D" "p \<notin> D" "\<And>va. user_page va \<Longrightarrow> \<not> present (pte_at m p va)"
  shows "mapcount m (insert p D) v = mapcount m D v"
proof -
  have "maps m p v = {}" using assms(3) by (auto simp: maps_def hits_def)
  then show ?thesis using assms(1,2) by (simp add: mapcount_def)
qed

section \<open>The invariant\<close>

definition vinv :: "'z kstate_scheme \<Rightarrow> uint list \<Rightarrow> uint set \<Rightarrow> bool" where
  "vinv s fl D \<longleftrightarrow> kinv s fl \<and> klock_ok s \<and> finite D \<and> pts_ok (mem s) D
     \<and> (\<forall>p\<in>pt_pages (mem s) D. kpage s p \<and> refs s p = 1)
     \<and> (\<forall>d\<in>D. \<forall>va. user_page va \<and> present (pte_at (mem s) d va) \<longrightarrow>
          (let v = frame_of (pte_at (mem s) d va) in
             kpage s v \<and> v \<notin> pt_pages (mem s) D \<and> refs s v = mapcount (mem s) D v
             \<and> (writable (pte_at (mem s) d va) \<longrightarrow> mapcount (mem s) D v = 1)))"

lemma vinvD:
  assumes "vinv s fl D"
  shows "kinv s fl" "klock_ok s" "finite D" "pts_ok (mem s) D"
    and "p \<in> pt_pages (mem s) D \<Longrightarrow> kpage s p" "p \<in> pt_pages (mem s) D \<Longrightarrow> refs s p = 1"
    and "d \<in> D \<Longrightarrow> user_page va \<Longrightarrow> present (pte_at (mem s) d va) \<Longrightarrow> kpage s (frame_of (pte_at (mem s) d va))"
    and "d \<in> D \<Longrightarrow> user_page va \<Longrightarrow> present (pte_at (mem s) d va) \<Longrightarrow>
      frame_of (pte_at (mem s) d va) \<notin> pt_pages (mem s) D"
    and "d \<in> D \<Longrightarrow> user_page va \<Longrightarrow> present (pte_at (mem s) d va) \<Longrightarrow>
      refs s (frame_of (pte_at (mem s) d va)) = mapcount (mem s) D (frame_of (pte_at (mem s) d va))"
    and "d \<in> D \<Longrightarrow> user_page va \<Longrightarrow> present (pte_at (mem s) d va) \<Longrightarrow> writable (pte_at (mem s) d va) \<Longrightarrow>
      mapcount (mem s) D (frame_of (pte_at (mem s) d va)) = 1"
  using assms unfolding vinv_def Let_def by blast+

lemma vinv_dir: "vinv s fl D \<Longrightarrow> d \<in> D \<Longrightarrow> d \<in> pt_pages (mem s) D"
  by (simp add: pt_pages_def)

text \<open>The invariant in terms of counts alone.\<close>

lemma vinvI:
  assumes "kinv s fl" "klock_ok s" "finite D" "pts_ok (mem s) D"
    and "\<And>p. p \<in> pt_pages (mem s) D \<Longrightarrow> kpage s p \<and> refs s p = 1"
    and "\<And>v. 0 < mapcount (mem s) D v \<Longrightarrow> kpage s v \<and> v \<notin> pt_pages (mem s) D \<and> refs s v = mapcount (mem s) D v"
    and "\<And>d va. d \<in> D \<Longrightarrow> user_page va \<Longrightarrow> present (pte_at (mem s) d va) \<Longrightarrow> writable (pte_at (mem s) d va) \<Longrightarrow>
      mapcount (mem s) D (frame_of (pte_at (mem s) d va)) = 1"
  shows "vinv s fl D"
proof -
  have "0 < mapcount (mem s) D (frame_of (pte_at (mem s) d va))"
    if "d \<in> D" "user_page va" "present (pte_at (mem s) d va)" for d va
    using that mapcount_pos_iff [OF assms(3)] by (auto simp: hits_def)
  then show ?thesis using assms unfolding vinv_def Let_def by blast
qed

lemma vinv_mapped:
  assumes "vinv s fl D" "0 < mapcount (mem s) D v"
  shows "kpage s v" "v \<notin> pt_pages (mem s) D" "refs s v = mapcount (mem s) D v" "v \<notin> set fl"
proof -
  obtain d va where "d \<in> D" "user_page va" "present (pte_at (mem s) d va)" "v = frame_of (pte_at (mem s) d va)"
    using assms mapcount_pos_iff [OF vinvD(3) [OF assms(1)]] by (auto simp: hits_def)
  then show v: "kpage s v" "v \<notin> pt_pages (mem s) D" "refs s v = mapcount (mem s) D v"
    using vinvD(7,8,9) [OF assms(1)] by auto
  show "v \<notin> set fl" using v(3) assms vinvD(1) [OF assms(1)] by (auto simp: kinv_def)
qed

lemma vinv_free:
  assumes "vinv s fl D" "p \<in> set fl"
  shows "kpage s p" "p \<notin> pt_pages (mem s) D" "mapcount (mem s) D p = 0" "refs s p = 0"
proof -
  show k: "kpage s p" "refs s p = 0" using assms vinvD(1) [OF assms(1)] by (auto simp: kinv_def)
  show "p \<notin> pt_pages (mem s) D" using k vinvD(6) [OF assms(1)] by fastforce
  show "mapcount (mem s) D p = 0"
    using vinv_mapped(4) [OF assms(1), of p] assms(2) mapcount_nonneg [of "mem s" D p]
    by (metis order_le_less)
qed

section \<open>Walking\<close>

lemma walk_slot: "walkpgdir d va False s = Ok (case slot (mem s) d va of None \<Rightarrow> 0 | Some a \<Rightarrow> a, s)"
  by (simp add: walkpgdir_def slot_def tab_def present_def frame_of_def Let_def)

lemma present_slot: "present (pte_at m d va) \<Longrightarrow> \<exists>a. slot m d va = Some a \<and> load32 m a = pte_at m d va"
  by (cases "slot m d va") (auto simp: pte_at_def present_def)

lemma slot_page_facts:
  assumes "vinv s fl D" "d \<in> D" "slot (mem s) d va = Some a"
  shows "word_aligned a" "PGROUNDDOWN a \<in> pt_pages (mem s) D" "kpage s (PGROUNDDOWN a)" "a \<noteq> 0" "refs s (PGROUNDDOWN a) = 1"
proof -
  obtain t where t: "tab (mem s) d (PDX va) = Some t" "a = entry t (PTX va)" "page_aligned t"
    using assms(3) by (rule slot_SomeE)
  have "t \<in> pt_pages (mem s) D" using tab_in_pages [OF assms(2) index_less(1) t(1)] .
  then show pg: "word_aligned a" "PGROUNDDOWN a \<in> pt_pages (mem s) D" "kpage s (PGROUNDDOWN a)" "refs s (PGROUNDDOWN a) = 1"
    using t vinvD(5,6) [OF assms(1)] by simp_all
  show "a \<noteq> 0"
  proof
    assume "a = 0"
    then have "PGROUNDDOWN a = 0" by (simp add: PGROUNDDOWN_mod)
    then show False using kpage_neq_0 [OF pg(3)] by simp
  qed
qed

section \<open>One entry written\<close>

text \<open>An operation that writes the entry for \<open>va\<close> in the directory \<open>d\<close>, after other changes of memory outside the
  page tables, and accounts for the change in the reference counts.\<close>

lemma entry_written:
  assumes inv: "vinv s fl D" and d: "d \<in> D" "user_page va" "slot (mem s) d va = Some a"
    and m: "mem t = store32 m a e" "\<And>x. PGROUNDDOWN x \<in> pt_pages (mem s) D \<Longrightarrow> m x = mem s x"
  shows "pts_ok (mem t) D" "pt_pages (mem t) D = pt_pages (mem s) D"
    "\<And>d' va'. d' \<in> D \<Longrightarrow> pte_at (mem t) d' va' = (if d' = d \<and> PGROUNDDOWN va' = va then e else pte_at (mem s) d' va')"
    "\<And>v. mapcount (mem t) D v = mapcount (mem s) D v - of_bool (hits (pte_at (mem s) d va) v) + of_bool (hits e v)"
proof -
  have fr: "pts_ok m D" "pt_pages m D = pt_pages (mem s) D" "\<And>d va. d \<in> D \<Longrightarrow> slot m d va = slot (mem s) d va"
    "\<And>d va. d \<in> D \<Longrightarrow> pte_at m d va = pte_at (mem s) d va"
    using pt_frame [OF vinvD(4) [OF inv], of m] m(2) by simp_all
  have sl: "slot m d va = Some a" using fr(3) d(1,3) by simp
  note st = pt_store [OF fr(1) d(1) sl, where e = e]
  show "pts_ok (mem t) D" "pt_pages (mem t) D = pt_pages (mem s) D" using st(1,2) fr(2) m(1) by simp_all
  show p: "pte_at (mem t) d' va' = (if d' = d \<and> PGROUNDDOWN va' = va then e else pte_at (mem s) d' va')" if "d' \<in> D" for d' va'
    using st(4) [OF that, of va'] fr(4) [OF that, of va'] m(1) PGROUNDDOWN_user [OF d(2)] by simp
  show "mapcount (mem t) D v = mapcount (mem s) D v - of_bool (hits (pte_at (mem s) d va) v) + of_bool (hits e v)" for v
    using p by (intro mapcount_upd [OF vinvD(3) [OF inv] d(1,2)]) auto
qed

lemma vinv_entry:
  assumes inv: "vinv s fl D" and d: "d \<in> D" "user_page va" "slot (mem s) d va = Some a"
    and m: "mem t = store32 m a e" "\<And>x. PGROUNDDOWN x \<in> pt_pages (mem s) D \<Longrightarrow> m x = mem s x"
    and k: "kinv t fl'" "klock_ok t" "kend t = kend s"
    and rc: "\<And>v. kpage s v \<Longrightarrow> refs t v = refs s v - of_bool (hits (pte_at (mem s) d va) v) + of_bool (hits e v)"
    and e: "present e \<Longrightarrow> kpage s (frame_of e) \<and> frame_of e \<notin> pt_pages (mem s) D \<and> refs s (frame_of e) = mapcount (mem s) D (frame_of e)"
    and w: "\<And>d' va'. d' \<in> D \<Longrightarrow> user_page va' \<Longrightarrow> present (pte_at (mem t) d' va') \<Longrightarrow> writable (pte_at (mem t) d' va') \<Longrightarrow>
      mapcount (mem t) D (frame_of (pte_at (mem t) d' va')) = 1"
  shows "vinv t fl' D"
proof (rule vinvI [OF k(1,2) vinvD(3) [OF inv]])
  note ew = entry_written [OF inv d m]
  have kp: "kpage t = kpage s" using k(3) by (rule kpage_kend)
  show "pts_ok (mem t) D" by (rule ew(1))
  show "kpage t p \<and> refs t p = 1" if "p \<in> pt_pages (mem t) D" for p
  proof -
    have p: "p \<in> pt_pages (mem s) D" "kpage s p" "refs s p = 1" using that ew(2) vinvD(5,6) [OF inv] by auto
    have "\<not> hits (pte_at (mem s) d va) p" using vinvD(8) [OF inv d(1,2)] p(1) by (auto simp: hits_def)
    moreover have "\<not> hits e p" using e p(1) by (auto simp: hits_def)
    ultimately show ?thesis using p kp rc [OF p(2)] by simp
  qed
  show "kpage t v \<and> v \<notin> pt_pages (mem t) D \<and> refs t v = mapcount (mem t) D v" if pos: "0 < mapcount (mem t) D v" for v
  proof -
    have "kpage s v \<and> v \<notin> pt_pages (mem s) D \<and> refs s v = mapcount (mem s) D v"
    proof (cases "0 < mapcount (mem s) D v")
      case True
      then show ?thesis using vinv_mapped [OF inv True] by blast
    next
      case False
      then have "hits e v" using pos ew(4) [of v] by (auto simp: of_bool_def split: if_splits)
      then show ?thesis using e by (auto simp: hits_def)
    qed
    then show ?thesis using rc [of v] ew(2) ew(4) [of v] kp by simp
  qed
qed (rule w)

section \<open>The contents of user memory\<close>

definition at_user :: "memory \<Rightarrow> uint \<Rightarrow> uint \<Rightarrow> byte" where
  "at_user m d va = m (frame_of (pte_at m d va) + (va AND 0xFFF))"

lemma offset_less: "unat (va AND 0xFFF :: uint) < 4096"
  using unat_mod_4096 [of va] by (simp add: and_4095)

lemma frame_offset:
  assumes "page_aligned p"
  shows "PGROUNDDOWN (p + (va AND 0xFFF)) = p"
  using PGROUNDDOWN_add [OF assms offset_less [of va]] by simp

text \<open>\<open>same_view s t D\<close>: every address space of \<open>D\<close> has the same user memory, with the same contents.\<close>

definition same_view :: "'z kstate_scheme \<Rightarrow> 'y kstate_scheme \<Rightarrow> uint set \<Rightarrow> bool" where
  "same_view s t D \<longleftrightarrow> (\<forall>d\<in>D. \<forall>va. va < KERNBASE \<longrightarrow> present (pte_at (mem t) d va) = present (pte_at (mem s) d va)
     \<and> (present (pte_at (mem s) d va) \<longrightarrow> at_user (mem t) d va = at_user (mem s) d va))"

lemma mapped_frame:
  assumes "vinv s fl D" "d \<in> D" "va < KERNBASE" "present (pte_at (mem s) d va)"
  shows "kpage s (frame_of (pte_at (mem s) d va))" "frame_of (pte_at (mem s) d va) \<notin> pt_pages (mem s) D"
    "refs s (frame_of (pte_at (mem s) d va)) = mapcount (mem s) D (frame_of (pte_at (mem s) d va))"
    "0 < mapcount (mem s) D (frame_of (pte_at (mem s) d va))" "frame_of (pte_at (mem s) d va) \<notin> set fl"
proof -
  have p: "hits (pte_at (mem s) d (PGROUNDDOWN va)) (frame_of (pte_at (mem s) d va))" using assms(4) by (simp add: hits_def pte_at_page)
  note u = user_page_down [OF assms(3)]
  show pos: "0 < mapcount (mem s) D (frame_of (pte_at (mem s) d va))"
    using mapcount_pos_iff [OF vinvD(3) [OF assms(1)]] assms(2) u p by blast
  show "kpage s (frame_of (pte_at (mem s) d va))" "frame_of (pte_at (mem s) d va) \<notin> pt_pages (mem s) D"
    "refs s (frame_of (pte_at (mem s) d va)) = mapcount (mem s) D (frame_of (pte_at (mem s) d va))" "frame_of (pte_at (mem s) d va) \<notin> set fl"
    using vinv_mapped [OF assms(1) pos] by simp_all
qed

text \<open>If an entry is replaced by one with the same contents behind it, and nothing else that is mapped changes,
  then no view changes.\<close>

lemma same_viewI:
  assumes inv: "vinv s fl D" and d: "d \<in> D" "va < KERNBASE" "present (pte_at (mem s) d va)" "present e"
    and pte: "\<And>d' va'. d' \<in> D \<Longrightarrow> pte_at (mem t) d' va' = (if d' = d \<and> PGROUNDDOWN va' = PGROUNDDOWN va then e else pte_at (mem s) d' va')"
    and page: "\<And>x. PGROUNDDOWN x = frame_of e \<Longrightarrow> mem t x = mem s (frame_of (pte_at (mem s) d va) + (x - frame_of e))"
    and other: "\<And>x. 0 < mapcount (mem s) D (PGROUNDDOWN x) \<Longrightarrow> mem t x = mem s x"
  shows "same_view s t D"
proof -
  have "present (pte_at (mem t) d' va') = present (pte_at (mem s) d' va')
      \<and> (present (pte_at (mem s) d' va') \<longrightarrow> at_user (mem t) d' va' = at_user (mem s) d' va')"
    if d': "d' \<in> D" "va' < KERNBASE" for d' va'
  proof (cases "d' = d \<and> PGROUNDDOWN va' = PGROUNDDOWN va")
    case True
    then have eq: "pte_at (mem s) d' va' = pte_at (mem s) d va" using pte_at_page by metis
    have "mem t (frame_of e + (va' AND 0xFFF)) = mem s (frame_of (pte_at (mem s) d va) + (va' AND 0xFFF))"
      using page [of "frame_of e + (va' AND 0xFFF)"] frame_offset [of "frame_of e" va'] by simp
    then show ?thesis using True d eq pte [OF d'(1), of va'] by (simp add: at_user_def)
  next
    case False
    then have eq: "pte_at (mem t) d' va' = pte_at (mem s) d' va'" using pte [OF d'(1), of va'] by auto
    have "mem t (frame_of (pte_at (mem s) d' va') + (va' AND 0xFFF)) = mem s (frame_of (pte_at (mem s) d' va') + (va' AND 0xFFF))"
      if "present (pte_at (mem s) d' va')"
      using mapped_frame(4) [OF inv d' that] by (intro other) (simp add: frame_offset)
    then show ?thesis using eq by (simp add: at_user_def)
  qed
  then show ?thesis by (simp add: same_view_def)
qed

section \<open>The fault handler\<close>

lemma memmove_page:
  assumes "page_aligned p" "page_aligned q"
  shows "memmove m p q PGSIZE = page_copy m p q"
proof -
  have "unat r + 4096 \<le> 2 ^ 32" if "page_aligned r" for r
  proof -
    have "unat r < 2 ^ LENGTH(32)" by (rule unsigned_less)
    then show ?thesis using that aligned_bound [of "unat r" 4096 "2 ^ 20" 4095] by (simp add: page_aligned_unat)
  qed
  then show ?thesis using memmove_blit [of q PGSIZE p m] assms by (simp add: page_copy_def)
qed

text \<open>\<open>resolved s t D d va\<close>: the fault at \<open>va\<close> is resolved, and nobody notices.\<close>

definition resolved :: "'z vstate_scheme \<Rightarrow> 'z vstate_scheme \<Rightarrow> uint set \<Rightarrow> uint \<Rightarrow> uint \<Rightarrow> bool" where
  "resolved s t D d va \<longleftrightarrow> same_view s t D \<and> present (pte_at (mem t) d va) \<and> writable (pte_at (mem t) d va) \<and> cr3 t = V2P d
     \<and> (\<forall>d'\<in>D. \<forall>va'. d' \<noteq> d \<or> PGROUNDDOWN va' \<noteq> PGROUNDDOWN va \<longrightarrow> pte_at (mem t) d' va' = pte_at (mem s) d' va')"

lemma or_W: "present (e OR 2) = present e" "writable (e OR 2)" "frame_of (e OR 2) = frame_of e"
proof -
  show "present (e OR 2) = present e" "writable (e OR 2)"
    by (simp_all add: present_def writable_def bit.conj_disj_distrib2)
  show "frame_of (e OR 2) = frame_of e"
    by (simp add: frame_of_def PTE_ADDR_def bit.conj_disj_distrib2)
qed

lemma store_out: "word_aligned a \<Longrightarrow> PGROUNDDOWN a \<in> S \<Longrightarrow> PGROUNDDOWN x \<notin> S \<Longrightarrow> store32 m a e x = m x"
  by (rule store32_page) auto

lemma CoW_last:
  assumes inv: "vinv s fl D" and d: "d \<in> D" "va < KERNBASE" "present (pte_at (mem s) d va)"
    and one: "refs s (frame_of (pte_at (mem s) d va)) = 1"
  shows "\<exists>t. CoW_handler d va s = Ok (False, t) \<and> vinv t fl D \<and> resolved s t D d va
     \<and> pte_at (mem t) d va = pte_at (mem s) d va OR PTE_W"
proof -
  let ?e = "pte_at (mem s) d va" and ?v = "frame_of (pte_at (mem s) d va)" and ?p = "PGROUNDDOWN va"
  obtain a where a: "slot (mem s) d va = Some a" "load32 (mem s) a = ?e" using present_slot [OF d(3)] by blast
  note af = slot_page_facts [OF inv d(1) a(1)] and vf = mapped_frame [OF inv d]
  let ?m = "store32 (mem s) a (?e OR PTE_W)"
  let ?t = "s\<lparr>hw := kcycled s, mem := ?m, cr3 := V2P d\<rparr>"
  have idx: "\<not> NREFC \<le> refc_idx (V2P ?v)" using vf(1) kpage_idx [of ?v] by (auto simp: kpage_def)
  have "V2P ?v = PTE_ADDR ?e" by (simp add: frame_of_def)
  then have run: "CoW_handler d va s = Ok (False, ?t)"
    using a af(4) d(3) one idx vinvD(2) [OF inv]
    by (simp add: CoW_handler_def walk_slot present_def get_refc_eq lcr3_def Let_def)
  have u: "user_page ?p" "slot (mem s) d ?p = Some a" "pte_at (mem s) d ?p = ?e" using user_page_down [OF d(2)] a by (simp_all add: slot_page pte_at_page)
  note ew = entry_written [OF inv d(1) u(1,2), where t = ?t and m = "mem s" and e = "?e OR PTE_W"]
  have pte: "pte_at (mem ?t) d' va' = (if d' = d \<and> PGROUNDDOWN va' = ?p then ?e OR PTE_W else pte_at (mem s) d' va')" if "d' \<in> D" for d' va'
    using ew(3) [OF _ _ that] by simp
  have hit: "hits (?e OR PTE_W) v = hits ?e v" for v by (simp add: hits_def or_W)
  have mc: "mapcount (mem ?t) D v = mapcount (mem s) D v" for v using ew(4) u(3) hit by simp
  have mem: "?m x = mem s x" if "PGROUNDDOWN x \<noteq> PGROUNDDOWN a" for x using store32_page [OF af(1) that] .
  have k1: "kinv ?t fl"
  proof (rule kinv_cong [OF vinvD(1) [OF inv]])
    fix v x assume "v \<in> set fl" "PGROUNDDOWN x = v"
    then have "PGROUNDDOWN x \<noteq> PGROUNDDOWN a" using vinv_free(2) [OF inv, of v] af(2) by auto
    then show "mem ?t x = mem s x" using mem by simp
  qed simp_all
  have k2: "klock_ok ?t" using klock_ok_upd [OF vinvD(2) [OF inv], of ?t] by simp
  have "vinv ?t fl D"
  proof (rule vinv_entry [OF inv d(1) u(1,2) _ _ k1 k2, where m = "mem s" and e = "?e OR PTE_W"])
    show "mapcount (mem ?t) D (frame_of (pte_at (mem ?t) d' va')) = 1"
      if "d' \<in> D" "user_page va'" "present (pte_at (mem ?t) d' va')" "writable (pte_at (mem ?t) d' va')" for d' va'
      using that vinvD(10) [OF inv that(1,2)] pte [OF that(1), of va'] one vf(3) mc by (auto simp: or_W split: if_splits)
  qed (use u(3) hit vf in \<open>auto simp: or_W\<close>)
  moreover have "same_view s ?t D"
  proof (rule same_viewI [OF inv d, where e = "?e OR PTE_W"])
    show "mem ?t x = mem s (?v + (x - frame_of (?e OR PTE_W)))" if "PGROUNDDOWN x = frame_of (?e OR PTE_W)" for x
    proof -
      have "PGROUNDDOWN x \<noteq> PGROUNDDOWN a" using that vf(2) af(2) by (auto simp: or_W)
      then show ?thesis using mem by (simp add: or_W)
    qed
    show "mem ?t x = mem s x" if "0 < mapcount (mem s) D (PGROUNDDOWN x)" for x
      using store_out [OF af(1,2) vinv_mapped(2) [OF inv that]] by simp
  qed (use pte d(3) or_W in auto)
  ultimately show ?thesis using run pte [OF d(1), of va] pte d(3) by (auto simp: resolved_def or_W)
qed

text \<open>The entry that the handler builds for a fresh page.\<close>

lemma fresh_entry:
  assumes "page_aligned p"
  shows "present (V2P p OR PTE_P OR PTE_W OR PTE_U)" "writable (V2P p OR PTE_P OR PTE_W OR PTE_U)"
    "user_ok (V2P p OR PTE_P OR PTE_W OR PTE_U)" "frame_of (V2P p OR PTE_P OR PTE_W OR PTE_U) = p"
proof -
  have "PTE_P OR PTE_W OR PTE_U = 7" by simp
  then have e: "V2P p OR PTE_P OR PTE_W OR PTE_U = V2P p OR 7" by (simp only: or.assoc)
  note b = built_flags [of "V2P p" 7]
  show "present (V2P p OR PTE_P OR PTE_W OR PTE_U)" "writable (V2P p OR PTE_P OR PTE_W OR PTE_U)"
    "user_ok (V2P p OR PTE_P OR PTE_W OR PTE_U)" "frame_of (V2P p OR PTE_P OR PTE_W OR PTE_U) = p"
    unfolding e using b assms by (simp_all add: present_def writable_def user_ok_def)
qed

text \<open>Moving one mapping of the shared page \<open>v\<close> to a copy of it in the fresh page \<open>p\<close>.\<close>

lemma split_accounts:
  assumes inv: "vinv s (p # fl) D" and d: "d \<in> D" "va < KERNBASE" "present (pte_at (mem s) d va)" and a: "slot (mem s) d va = Some a"
    and more: "1 < refs s (frame_of (pte_at (mem s) d va))"
  defines "v \<equiv> frame_of (pte_at (mem s) d va)" and "n \<equiv> V2P p OR PTE_P OR PTE_W OR PTE_U"
  assumes mt: "mem t = store32 (page_copy (mem s) p v) a n" "kend t = kend s" and k: "kinv t fl" "klock_ok t"
    and rt: "\<And>q. kpage s q \<Longrightarrow> refs t q = (if q = v then refs s v - 1 else if q = p then 1 else refs s q)"
  shows "vinv t fl D" "same_view s t D"
    "d' \<in> D \<Longrightarrow> pte_at (mem t) d' va' = (if d' = d \<and> PGROUNDDOWN va' = PGROUNDDOWN va then n else pte_at (mem s) d' va')"
proof -
  let ?e = "pte_at (mem s) d va" and ?p = "PGROUNDDOWN va"
  note af = slot_page_facts [OF inv d(1) a] and vf = mapped_frame [OF inv d, folded v_def] and pf = vinv_free [OF inv, of p, simplified]
  have al: "page_aligned p" using pf(1) by simp
  note fe = fresh_entry [OF al, folded n_def]
  have neq: "v \<noteq> p" using vf(5) by auto
  have mpt: "page_copy (mem s) p v x = mem s x" if "PGROUNDDOWN x \<in> pt_pages (mem s) D" for x
    using that pf(2) al by (auto simp: page_copy_apply)
  have u: "user_page ?p" "slot (mem s) d ?p = Some a" "pte_at (mem s) d ?p = ?e" using user_page_down [OF d(2)] a by (simp_all add: slot_page pte_at_page)
  note ew = entry_written [OF inv d(1) u(1,2) mt(1) mpt]
  show pte: "pte_at (mem t) d' va' = (if d' = d \<and> PGROUNDDOWN va' = ?p then n else pte_at (mem s) d' va')" if "d' \<in> D" for d' va'
    using ew(3) [OF _ that] by simp
  have hits: "hits ?e q \<longleftrightarrow> q = v" "hits n q \<longleftrightarrow> q = p" for q using d(3) fe by (auto simp: hits_def v_def)
  have mc: "mapcount (mem t) D q = mapcount (mem s) D q - of_bool (q = v) + of_bool (q = p)" for q
    using ew(4) [of q] u(3) hits by simp
  show "vinv t fl D"
  proof (rule vinv_entry [OF inv d(1) u(1,2) mt(1) mpt k mt(2)])
    show "refs t q = refs s q - of_bool (hits (pte_at (mem s) d ?p) q) + of_bool (hits n q)" if "kpage s q" for q
      using rt [OF that] neq pf(4) u(3) hits by auto
    show "kpage s (frame_of n) \<and> frame_of n \<notin> pt_pages (mem s) D \<and> refs s (frame_of n) = mapcount (mem s) D (frame_of n)"
      using pf fe(4) by simp
    show "mapcount (mem t) D (frame_of (pte_at (mem t) d' va')) = 1"
      if w: "d' \<in> D" "user_page va'" "present (pte_at (mem t) d' va')" "writable (pte_at (mem t) d' va')" for d' va'
    proof (cases "d' = d \<and> PGROUNDDOWN va' = ?p")
      case True
      then show ?thesis using pte [OF w(1), of va'] fe(4) mc [of p] pf(3) neq by auto
    next
      case False
      then have eq: "pte_at (mem t) d' va' = pte_at (mem s) d' va'" using pte [OF w(1), of va'] by auto
      then have one: "mapcount (mem s) D (frame_of (pte_at (mem s) d' va')) = 1" using vinvD(10) [OF inv w(1,2)] w(3,4) by simp
      then have "frame_of (pte_at (mem s) d' va') \<noteq> v" "frame_of (pte_at (mem s) d' va') \<noteq> p" using more vf(3) pf(3) by (auto simp: v_def)
      then show ?thesis using one mc eq by simp
    qed
  qed
  show "same_view s t D"
  proof (rule same_viewI [OF inv d fe(1) pte])
    show "mem t x = mem s (frame_of ?e + (x - frame_of n))" if "PGROUNDDOWN x = frame_of n" for x
      using that fe(4) al pf(2) store_out [OF af(1,2), of x "page_copy (mem s) p v"] by (simp add: mt page_copy_apply v_def)
    show "mem t x = mem s x" if "0 < mapcount (mem s) D (PGROUNDDOWN x)" for x
    proof -
      have "PGROUNDDOWN x \<noteq> p" using that pf(3) by auto
      then show ?thesis using store_out [OF af(1,2) vinv_mapped(2) [OF inv that]] al by (simp add: mt page_copy_apply)
    qed
  qed
qed

lemma CoW_split:
  assumes inv: "vinv s (p # fl) D" and d: "d \<in> D" "va < KERNBASE" "present (pte_at (mem s) d va)"
    and more: "1 < refs s (frame_of (pte_at (mem s) d va))"
  shows "\<exists>t. CoW_handler d va s = Ok (False, t) \<and> vinv t fl D \<and> resolved s t D d va \<and> frame_of (pte_at (mem t) d va) = p \<and> user_ok (pte_at (mem t) d va)
     \<and> refs t (frame_of (pte_at (mem s) d va)) = refs s (frame_of (pte_at (mem s) d va)) - 1"
proof -
  let ?e = "pte_at (mem s) d va" and ?v = "frame_of (pte_at (mem s) d va)" and ?p = "PGROUNDDOWN va"
  let ?n = "V2P p OR PTE_P OR PTE_W OR PTE_U"
  obtain a where a: "slot (mem s) d va = Some a" "load32 (mem s) a = ?e" using present_slot [OF d(3)] by blast
  note af = slot_page_facts [OF inv d(1) a(1)] and vf = mapped_frame [OF inv d] and pf = vinv_free [OF inv, of p, simplified]
  have al: "page_aligned p" using pf(1) by simp
  note fe = fresh_entry [OF al]
  have neq: "?v \<noteq> p" "PGROUNDDOWN a \<noteq> p" "?v \<noteq> PGROUNDDOWN a" using vf(2,5) pf(2) af(2) by auto
  define s1 where "s1 = s\<lparr>hw := kcycled s\<rparr>"
  have k1: "kinv s1 (p # fl)" "klock_ok s1"
    using kinv_cong [OF vinvD(1) [OF inv], of s1] klock_ok_upd [OF vinvD(2) [OF inv], of s1] by (simp_all add: s1_def)
  note ka = kalloc_cons [OF k1]
  let ?m = "page_copy (mem s) p ?v"
  define s2 where "s2 = (taken p s1)\<lparr>mem := store32 ?m a ?n\<rparr>"
  have k2: "klock_ok s2" using ka(3) by (simp add: s2_def klock_ok_def)
  define t where "t = s2\<lparr>hw := kcycled s2, refc_cnt := (refc_cnt s2)(refc_idx (V2P ?v) := refs s2 ?v - 1), cr3 := V2P d\<rparr>"
  have idx: "\<not> NREFC \<le> refc_idx (V2P ?v)" using vf(1) kpage_idx [of ?v] by (auto simp: kpage_def)
  have pa: "V2P ?v = PTE_ADDR ?e" by (simp add: frame_of_def)
  have p0: "p \<noteq> 0" using kpage_neq_0 [OF pf(1)] .
  have run: "CoW_handler d va s = Ok (False, t)"
    using a af(4) d(3) more idx vinvD(2) [OF inv] ka(1) k2 p0 memmove_page [OF al frame_aligned, of "mem s" ?e] pa
    by (simp add: CoW_handler_def walk_slot present_def get_refc_eq lcr3_def Let_def decr_refc_eq t_def s2_def s1_def frame_of_def)
  have mt: "mem t = store32 ?m a ?n" "kend t = kend s" "cr3 t = V2P d" "freelist t = freelist (taken p s1)" by (simp_all add: t_def s2_def s1_def)
  have mem: "mem t x = mem s x" if "PGROUNDDOWN x \<notin> pt_pages (mem s) D" "PGROUNDDOWN x \<noteq> p" for x
    using store_out [OF af(1,2) that(1)] that(2) al by (simp add: mt page_copy_apply)
  have rs2: "refs s2 q = (if q = p then 1 else refs s q)" if "kpage s q" for q
    using refs_taken [of p q s1] that al by (simp add: s2_def s1_def)
  have rt: "refs t q = (if q = ?v then refs s ?v - 1 else if q = p then 1 else refs s q)" if "kpage s q" for q
    using rs2 [OF that] rs2 [OF vf(1)] that vf(1) neq(1) by (simp add: t_def refc_idx_inj)
  have k1': "kinv t fl"
  proof (rule kinv_cong [OF ka(2)])
    fix q assume q: "q \<in> set fl"
    then have qf: "kpage s q" "q \<notin> pt_pages (mem s) D" "q \<noteq> p" "q \<noteq> ?v" using vinv_free [OF inv, of q] vf(5) vinvD(1) [OF inv] by (auto simp: kinv_def)
    show "mem t x = mem (taken p s1) x" if "PGROUNDDOWN x = q" for x using mem [of x] qf that by (simp add: s1_def)
    show "refs t q = refs (taken p s1) q" using rt [OF qf(1)] rs2 [OF qf(1)] qf by (simp add: s2_def)
  qed (simp_all add: mt s1_def)
  have k2': "klock_ok t" using klock_ok_upd [OF k2, of t] by (simp add: t_def)
  note acc = split_accounts [OF inv d a(1) more mt(1,2) k1' k2' rt]
  show ?thesis using run acc d(1) fe rt [OF vf(1)] mt(3) by (intro exI [of _ t]) (auto simp: resolved_def)
qed

section \<open>Page tables on demand\<close>

text \<open>\<open>framed s t D\<close>: no entry of a directory and no byte of a mapped page has changed.\<close>

definition framed :: "'z kstate_scheme \<Rightarrow> 'z kstate_scheme \<Rightarrow> uint set \<Rightarrow> bool" where
  "framed s t D \<longleftrightarrow> (\<forall>d\<in>D. \<forall>va. pte_at (mem t) d va = pte_at (mem s) d va)
     \<and> (\<forall>x. 0 < mapcount (mem s) D (PGROUNDDOWN x) \<longrightarrow> mem t x = mem s x) \<and> kend t = kend s"

lemma walk_grow:
  assumes inv: "vinv s (p # fl) D" and d: "d \<in> D" and none: "slot (mem s) d va = None"
  shows "\<exists>t. walkpgdir d va True s = Ok (entry p (PTX va), t) \<and> vinv t fl D \<and> slot (mem t) d va = Some (entry p (PTX va)) \<and> framed s t D"
proof -
  let ?e = "V2P p OR PTE_P OR PTE_W OR PTE_U"
  have pf: "kpage s p" "p \<notin> pt_pages (mem s) D" "mapcount (mem s) D p = 0" using vinv_free [OF inv, of p] by auto
  have al: "page_aligned p" using pf(1) by simp
  note fe = fresh_entry [OF al] and ka = kalloc_cons [OF vinvD(1,2) [OF inv]]
  have tab: "tab (mem s) d (PDX va) = None" using none by (auto simp: slot_def split: option.splits)
  note pt = pt_add_table [OF vinvD(4) [OF inv] d tab al pf(2) fe(1,4)]
  let ?m = "store32 (page_fill (mem s) p 0) (entry d (PDX va)) ?e"
  let ?t = "(taken p s)\<lparr>mem := ?m\<rparr>"
  have run: "walkpgdir d va True s = Ok (entry p (PTX va), ?t)"
    using tab ka(1) kpage_neq_0 [OF pf(1)]
    by (auto simp: walkpgdir_def tab_def present_def Let_def memset_fill page_fill_def split: if_splits)
  have dal: "page_aligned d" using pts_ok_aligned [OF vinvD(4) [OF inv] d] .
  have din: "d \<in> pt_pages (mem s) D" using d by (simp add: pt_pages_def)
  have mem: "?m x = mem s x" if "PGROUNDDOWN x \<noteq> p" "PGROUNDDOWN x \<notin> pt_pages (mem s) D" for x
    using store_out [of "entry d (PDX va)" "pt_pages (mem s) D" x] dal din that al by (simp add: page_fill_apply)
  have mc: "mapcount ?m D v = mapcount (mem s) D v" for v using pt(4) by (intro mapcount_cong) simp
  have refs: "refs ?t q = (if q = p then 1 else refs s q)" if "kpage s q" for q using refs_taken [of p q s] al that by simp
  have "kinv ?t fl"
  proof (rule kinv_cong [OF ka(2)])
    fix q x assume q: "q \<in> set fl" "PGROUNDDOWN x = q"
    then have "q \<noteq> p" "q \<notin> pt_pages (mem s) D" using vinv_free(2) [OF inv, of q] vinvD(1) [OF inv] by (auto simp: kinv_def)
    then show "mem ?t x = mem (taken p s) x" using mem q(2) by simp
  qed simp_all
  then have "vinv ?t fl D"
  proof (rule vinvI)
    show "klock_ok ?t" using ka(3) by (simp add: klock_ok_def)
    show "finite D" using vinvD(3) [OF inv] .
    show "pts_ok (mem ?t) D" using pt(1) by simp
    show "kpage ?t q \<and> refs ?t q = 1" if "q \<in> pt_pages (mem ?t) D" for q
      using that pt(2) pf(1) refs vinvD(5,6) [OF inv, of q] by (auto simp: kpage_def)
    show "kpage ?t v \<and> v \<notin> pt_pages (mem ?t) D \<and> refs ?t v = mapcount (mem ?t) D v" if "0 < mapcount (mem ?t) D v" for v
      using that mc [of v] pt(2) pf(3) refs [of v] vinv_mapped(1-3) [OF inv, of v] by (auto simp: kpage_def)
    show "mapcount (mem ?t) D (frame_of (pte_at (mem ?t) d' va')) = 1"
      if "d' \<in> D" "user_page va'" "present (pte_at (mem ?t) d' va')" "writable (pte_at (mem ?t) d' va')" for d' va'
      using that pt(4) [OF that(1)] mc vinvD(10) [OF inv that(1,2)] by simp
  qed
  moreover have "framed s ?t D"
  proof -
    have "mem ?t x = mem s x" if "0 < mapcount (mem s) D (PGROUNDDOWN x)" for x
    proof -
      have "PGROUNDDOWN x \<noteq> p" using that pf(3) by auto
      then show ?thesis using mem vinv_mapped(2) [OF inv that] by simp
    qed
    then show ?thesis using pt(4) by (simp add: framed_def)
  qed
  ultimately show ?thesis using run pt(3) by auto
qed

lemma walk_alloc:
  assumes inv: "vinv s fl D" and d: "d \<in> D"
  obtains a t fl' where "walkpgdir d va True s = Ok (a, t)" "vinv t fl' D" "framed s t D" "a \<noteq> 0 \<longleftrightarrow> slot (mem t) d va = Some a"
    "a = 0 \<longrightarrow> fl = []" "fl' = fl \<or> fl' = tl fl"
proof (cases "slot (mem s) d va")
  case (Some a)
  then have "walkpgdir d va True s = Ok (a, s)"
    by (auto simp: walkpgdir_def slot_def tab_def present_def frame_of_def Let_def split: if_splits)
  then show ?thesis using that [of a s fl] inv Some slot_page_facts(4) [OF inv d Some] by (simp add: framed_def)
next
  case None
  show ?thesis
  proof (cases fl)
    case Nil
    let ?t = "s\<lparr>hw := kcycled s, freecnt := freecnt s - 1\<rparr>"
    have "kinv ?t fl" "klock_ok ?t" using kinv_cong [OF vinvD(1) [OF inv], of ?t] klock_ok_upd [OF vinvD(2) [OF inv], of ?t] by simp_all
    then have "vinv ?t fl D" using inv by (auto simp: vinv_def kpage_def)
    moreover have "walkpgdir d va True s = Ok (0, ?t)"
      using None kalloc_nil [of s] vinvD(1,2) [OF inv] Nil
      by (auto simp: walkpgdir_def slot_def tab_def present_def Let_def split: if_splits)
    ultimately show ?thesis using that [of 0 ?t fl] Nil None by (simp add: framed_def)
  next
    case (Cons p fl')
    then obtain t where t: "walkpgdir d va True s = Ok (entry p (PTX va), t)" "vinv t fl' D" "slot (mem t) d va = Some (entry p (PTX va))" "framed s t D"
      using walk_grow [of s p fl' D d va] inv d None by auto
    then show ?thesis using that [of "entry p (PTX va)" t fl'] slot_page_facts(4) [OF t(2) d t(3)] Cons by simp
  qed
qed

section \<open>Sharing\<close>

lemma mapcount_two:
  assumes "finite D" "d \<in> D" "d' \<in> D" "user_page va" "user_page va'" "hits (pte_at m d va) v" "hits (pte_at m d' va') v" "d \<noteq> d' \<or> va \<noteq> va'"
  shows "2 \<le> mapcount m D v"
proof (cases "d = d'")
  case True
  then have "card {va, va'} \<le> card (maps m d v)" using assms by (intro card_mono) (auto simp: maps_def)
  moreover have "int (card (maps m d v)) \<le> mapcount m D v"
    unfolding mapcount_def using assms(1,2) by (intro member_le_sum) auto
  ultimately show ?thesis using True assms(8) by simp
next
  case False
  have "0 < card (maps m d v)" "0 < card (maps m d' v)" using assms by (auto simp: maps_def card_gt_0_iff)
  moreover have "(\<Sum>d\<in>{d, d'}. int (card (maps m d v))) \<le> mapcount m D v"
    unfolding mapcount_def using assms(1-3) by (intro sum_mono2) auto
  ultimately show ?thesis using False by simp
qed

text \<open>The write bit cleared.\<close>

definition noW :: "uint \<Rightarrow> uint" where
  "noW e = e AND NOT PTE_W"

lemma noW_flags [simp]: "present (noW e) = present e" "\<not> writable (noW e)" "user_ok (noW e) = user_ok e" "frame_of (noW e) = frame_of e"
proof -
  have "NOT 2 AND 1 = (1 :: uint)" "NOT 2 AND 4 = (4 :: uint)" "NOT 2 AND 2 = (0 :: uint)" by simp_all
  then show "present (noW e) = present e" "\<not> writable (noW e)" "user_ok (noW e) = user_ok e"
    by (simp_all add: noW_def present_def writable_def user_ok_def and.assoc)
  have "NOT 2 AND NOT 0xFFF = (NOT 0xFFF :: uint)" by simp
  then show "frame_of (noW e) = frame_of e" by (simp add: noW_def frame_of_def PTE_ADDR_def and.assoc)
qed

lemma noW_rebuild: "present e \<Longrightarrow> PTE_ADDR (noW e) OR PTE_FLAGS (noW e) OR PTE_P = noW e"
proof -
  assume "present e"
  then have "noW e AND 1 \<noteq> 0" using noW_flags(1) [of e] by (simp add: present_def)
  then have "odd (noW e)" by (simp add: and_one_eq odd_iff_mod_2_eq_one)
  then have "noW e OR 1 = noW e" by (simp add: or_one_eq)
  then show ?thesis by (simp add: PTE_split flip: or.assoc)
qed

lemma vinv_noW:
  assumes inv: "vinv s fl D" and d: "d \<in> D" "user_page va" "present (pte_at (mem s) d va)" and a: "slot (mem s) d va = Some a"
  defines "t \<equiv> s\<lparr>mem := store32 (mem s) a (noW (pte_at (mem s) d va))\<rparr>"
  shows "vinv t fl D" and "d' \<in> D \<Longrightarrow> pte_at (mem t) d' va' = (if d' = d \<and> PGROUNDDOWN va' = va then noW (pte_at (mem s) d va) else pte_at (mem s) d' va')"
    and "0 < mapcount (mem s) D (PGROUNDDOWN x) \<Longrightarrow> mem t x = mem s x" and "mapcount (mem t) D v = mapcount (mem s) D v"
proof -
  let ?e = "pte_at (mem s) d va"
  have lt: "va < KERNBASE" using d(2) by (simp add: user_page_def)
  note af = slot_page_facts [OF inv d(1) a] and vf = mapped_frame [OF inv d(1) lt d(3)]
  have mt: "mem t = store32 (mem s) a (noW ?e)" by (simp add: t_def)
  note ew = entry_written [OF inv d(1,2) a mt refl]
  have pte: "pte_at (mem t) d' va' = (if d' = d \<and> PGROUNDDOWN va' = va then noW ?e else pte_at (mem s) d' va')" if "d' \<in> D" for d' va'
    using ew(3) [OF that] .
  then show "d' \<in> D \<Longrightarrow> pte_at (mem t) d' va' = (if d' = d \<and> PGROUNDDOWN va' = va then noW ?e else pte_at (mem s) d' va')" .
  have hit: "hits (noW ?e) v = hits ?e v" for v by (simp add: hits_def)
  then show mc: "mapcount (mem t) D v = mapcount (mem s) D v" for v using ew(4) [of v] by simp
  show "mem t x = mem s x" if "0 < mapcount (mem s) D (PGROUNDDOWN x)"
    using store_out [OF af(1,2) vinv_mapped(2) [OF inv that]] mt by simp
  have k: "kinv t fl"
  proof (rule kinv_cong [OF vinvD(1) [OF inv]])
    fix v x assume "v \<in> set fl" "PGROUNDDOWN x = v"
    then show "mem t x = mem s x" using store_out [OF af(1,2)] vinv_free(2) [OF inv, of v] mt by simp
  qed (simp_all add: t_def)
  have k2: "klock_ok t" using vinvD(2) [OF inv] by (simp add: t_def klock_ok_def)
  show "vinv t fl D"
  proof (rule vinv_entry [OF inv d(1,2) a mt refl k k2])
    show "mapcount (mem t) D (frame_of (pte_at (mem t) d' va')) = 1"
      if "d' \<in> D" "user_page va'" "present (pte_at (mem t) d' va')" "writable (pte_at (mem t) d' va')" for d' va'
      using that vinvD(10) [OF inv that(1,2)] pte [OF that(1), of va'] mc by (auto split: if_splits)
  qed (use hit vf in \<open>auto simp: t_def\<close>)
qed

text \<open>A second mapping of a page that nobody can write, with the reference counted.\<close>

lemma vinv_share:
  assumes inv: "vinv s fl D" and d: "d \<in> D" "user_page va" "present (pte_at (mem s) d va)" "\<not> writable (pte_at (mem s) d va)"
    and c: "c \<in> D" "slot (mem s) c va = Some a" "\<not> present (pte_at (mem s) c va)"
  defines "e \<equiv> pte_at (mem s) d va" and "s' \<equiv> s\<lparr>mem := store32 (mem s) a (pte_at (mem s) d va)\<rparr>"
  shows "\<exists>t. incr_refc (PTE_ADDR e) s' = Ok t \<and> vinv t fl D \<and> kend t = kend s
    \<and> (\<forall>d'\<in>D. \<forall>va'. pte_at (mem t) d' va' = (if d' = c \<and> PGROUNDDOWN va' = va then e else pte_at (mem s) d' va'))
    \<and> (\<forall>x. 0 < mapcount (mem s) D (PGROUNDDOWN x) \<longrightarrow> mem t x = mem s x)"
proof -
  let ?v = "frame_of e"
  have lt: "va < KERNBASE" using d(2) by (simp add: user_page_def)
  note af = slot_page_facts [OF inv c(1,2)] and vf = mapped_frame [OF inv d(1) lt d(3), folded e_def]
  have k2: "klock_ok s'" using vinvD(2) [OF inv] by (simp add: s'_def klock_ok_def)
  have k1: "kinv s' fl"
  proof (rule kinv_cong [OF vinvD(1) [OF inv]])
    fix v x assume "v \<in> set fl" "PGROUNDDOWN x = v"
    then show "mem s' x = mem s x" using store_out [OF af(1,2)] vinv_free(2) [OF inv, of v] by (simp add: s'_def)
  qed (simp_all add: s'_def)
  have kv: "kpage s' ?v" using vf(1) by (simp add: s'_def kpage_def)
  note inc = incr_refc_page [OF k1 k2 kv vf(5)]
  define t where "t = s'\<lparr>hw := kcycled s', refc_cnt := (refc_cnt s')(refc_idx (V2P ?v) := refs s' ?v + 1)\<rparr>"
  have mt: "mem t = store32 (mem s) a e" "kend t = kend s" by (simp_all add: t_def s'_def e_def)
  note ew = entry_written [OF inv c(1) d(2) c(2) mt(1) refl]
  have hit: "\<not> hits (pte_at (mem s) c va) q" "hits e q \<longleftrightarrow> q = ?v" for q using c(3) d(3) by (auto simp: hits_def e_def)
  have mc: "mapcount (mem t) D q = mapcount (mem s) D q + of_bool (q = ?v)" for q using ew(4) [of q] hit by simp
  have "vinv t fl D"
  proof (rule vinv_entry [OF inv c(1) d(2) c(2) mt(1) refl])
    show "kinv t fl" "klock_ok t" using inc(2,3) by (simp_all add: t_def)
    show "kend t = kend s" by (rule mt(2))
    show "refs t q = refs s q - of_bool (hits (pte_at (mem s) c va) q) + of_bool (hits e q)" if "kpage s q" for q
      using that vf(1) hit by (simp add: t_def s'_def refc_idx_inj)
    show "kpage s ?v \<and> ?v \<notin> pt_pages (mem s) D \<and> refs s ?v = mapcount (mem s) D ?v" using vf by simp
    show "mapcount (mem t) D (frame_of (pte_at (mem t) d' va')) = 1"
      if w: "d' \<in> D" "user_page va'" "present (pte_at (mem t) d' va')" "writable (pte_at (mem t) d' va')" for d' va'
    proof -
      have "\<not> (d' = c \<and> PGROUNDDOWN va' = va)" using w(4) ew(3) [OF w(1), of va'] d(4) by (auto simp: e_def)
      then have eq: "pte_at (mem t) d' va' = pte_at (mem s) d' va'" using ew(3) [OF w(1), of va'] by auto
      then have one: "mapcount (mem s) D (frame_of (pte_at (mem s) d' va')) = 1" using vinvD(10) [OF inv w(1,2)] w(3,4) by simp
      have "frame_of (pte_at (mem s) d' va') \<noteq> ?v"
      proof
        assume v: "frame_of (pte_at (mem s) d' va') = ?v"
        have "d' \<noteq> d \<or> va' \<noteq> va" using w(4) eq d(4) by auto
        then have "2 \<le> mapcount (mem s) D ?v"
          using mapcount_two [OF vinvD(3) [OF inv] w(1) d(1) w(2) d(2), of "mem s" ?v] w(3) eq v d(3) by (auto simp: hits_def e_def)
        then show False using one v by simp
      qed
      then show ?thesis using one mc eq by simp
    qed
  qed
  moreover have "incr_refc (PTE_ADDR e) s' = Ok t" using inc(1) by (simp add: t_def frame_of_def)
  moreover have "mem t x = mem s x" if "0 < mapcount (mem s) D (PGROUNDDOWN x)" for x
    using store_out [OF af(1,2) vinv_mapped(2) [OF inv that]] mt by simp
  ultimately show ?thesis using ew(3) mt(2) by blast
qed

lemma mappages_one:
  assumes "page_aligned va"
  shows "mappages d va PGSIZE pa prm s = bindE (walkpgdir d va True s) (\<lambda>(pte, s).
     if pte = 0 then Ok (-1, s) else if present (load32 (mem s) pte) then panic ''remap''
     else Ok (0, s\<lparr>mem := store32 (mem s) pte (pa OR prm OR PTE_P)\<rparr>))"
proof -
  have "PGROUNDDOWN (va + PGSIZE - 1) = va" using PGROUNDDOWN_add [OF assms, of 4095] by (simp add: algebra_simps)
  moreover have "PGROUNDDOWN va = va" using assms PGROUNDDOWN_aligned by simp
  moreover have "map_loop (Suc n) d va va pa prm s = bindE (walkpgdir d va True s) (\<lambda>(pte, s).
     if pte = 0 then Ok (-1, s) else if present (load32 (mem s) pte) then panic ''remap''
     else Ok (0, s\<lparr>mem := store32 (mem s) pte (pa OR prm OR PTE_P)\<rparr>))" for n
    by (simp add: present_def Let_def cong: if_cong)
  ultimately show ?thesis by (simp only: mappages_def max_pages_def Let_def)
qed

text \<open>\<open>copied s t D d c A\<close>: the directory \<open>c\<close> has got the pages \<open>A\<close> of \<open>d\<close>, which neither can write any more.\<close>

definition copied :: "'z kstate_scheme \<Rightarrow> 'z kstate_scheme \<Rightarrow> uint set \<Rightarrow> uint \<Rightarrow> uint \<Rightarrow> uint set \<Rightarrow> bool" where
  "copied s t D d c A \<longleftrightarrow>
     (\<forall>va. user_page va \<longrightarrow> pte_at (mem t) d va = (if va \<in> A then noW (pte_at (mem s) d va) else pte_at (mem s) d va)
        \<and> pte_at (mem t) c va = (if va \<in> A then noW (pte_at (mem s) d va) else pte_at (mem s) c va))
     \<and> (\<forall>d'\<in>D - {d, c}. \<forall>va. user_page va \<longrightarrow> pte_at (mem t) d' va = pte_at (mem s) d' va)
     \<and> (\<forall>x. 0 < mapcount (mem s) D (PGROUNDDOWN x) \<longrightarrow> mem t x = mem s x)"

text \<open>Entries that keep their pages, and mapped pages that keep their bytes, keep the views.\<close>

lemma same_view_frames:
  assumes inv: "vinv s fl D" and sub: "E \<subseteq> D"
    and pte: "\<And>d va. d \<in> E \<Longrightarrow> user_page va \<Longrightarrow> present (pte_at (mem t) d va) = present (pte_at (mem s) d va)
      \<and> frame_of (pte_at (mem t) d va) = frame_of (pte_at (mem s) d va)"
    and mem: "\<And>x. 0 < mapcount (mem s) D (PGROUNDDOWN x) \<Longrightarrow> mem t x = mem s x"
  shows "same_view s t E"
  unfolding same_view_def
proof (intro ballI allI impI)
  fix d va assume d: "d \<in> E" and va: "va < KERNBASE"
  have p: "present (pte_at (mem t) d va) = present (pte_at (mem s) d va)" "frame_of (pte_at (mem t) d va) = frame_of (pte_at (mem s) d va)"
    using pte [OF d user_page_down [OF va]] by (simp_all add: pte_at_page)
  have "mem t (frame_of (pte_at (mem s) d va) + (va AND 0xFFF)) = mem s (frame_of (pte_at (mem s) d va) + (va AND 0xFFF))"
    if "present (pte_at (mem s) d va)"
    using mapped_frame(4) [OF inv _ va that] d sub by (intro mem) (auto simp: frame_offset)
  then show "present (pte_at (mem t) d va) = present (pte_at (mem s) d va) \<and> (present (pte_at (mem s) d va) \<longrightarrow> at_user (mem t) d va = at_user (mem s) d va)"
    using p by (simp add: at_user_def)
qed

lemma mapped_mono:
  assumes fin: "finite D" and pte: "\<And>d va. d \<in> D \<Longrightarrow> user_page va \<Longrightarrow> present (pte_at m d va) \<Longrightarrow>
      present (pte_at m' d va) \<and> frame_of (pte_at m' d va) = frame_of (pte_at m d va)" and "0 < mapcount m D v"
  shows "0 < mapcount m' D v"
proof -
  obtain d va where "d \<in> D" "user_page va" "hits (pte_at m d va) v" using assms(3) mapcount_pos_iff [OF fin] by blast
  then have "hits (pte_at m' d va) v" using pte [of d va] by (auto simp: hits_def)
  then show ?thesis using mapcount_pos_iff [OF fin] \<open>d \<in> D\<close> \<open>user_page va\<close> by blast
qed

lemma copy_step:
  assumes inv: "vinv s fl D" and d: "d \<in> D" "c \<in> D" "d \<noteq> c" and i: "user_page i" "i < sz" "present (pte_at (mem s) d i)" "\<not> present (pte_at (mem s) c i)"
  shows "\<exists>t fl'. vinv t fl' D \<and> (copy_loop (Suc n) d c i sz s = Ok (False, t) \<and> fl = [] \<and> same_view s t (D - {c})
     \<or> copy_loop (Suc n) d c i sz s = copy_loop n d c (i + PGSIZE) sz t \<and> copied s t D d c {i} \<and> length fl \<le> Suc (length fl'))"
proof -
  let ?e = "pte_at (mem s) d i"
  obtain a where a: "slot (mem s) d i = Some a" "load32 (mem s) a = ?e" using present_slot [OF i(3)] by blast
  have a0: "a \<noteq> 0" using slot_page_facts(4) [OF inv d(1) a(1)] .
  define s1 where "s1 = s\<lparr>mem := store32 (mem s) a (noW ?e)\<rparr>"
  note w = vinv_noW [OF inv d(1) i(1,3) a(1), folded s1_def]
  have e1: "pte_at (mem s1) d i = noW ?e" "\<not> present (pte_at (mem s1) c i)" using w(2) d i(1,4) by auto
  obtain b s2 fl2 where b: "walkpgdir c i True s1 = Ok (b, s2)" "vinv s2 fl2 D" "framed s1 s2 D" "b \<noteq> 0 \<longleftrightarrow> slot (mem s2) c i = Some b"
      "b = 0 \<longrightarrow> fl = []" "fl2 = fl \<or> fl2 = tl fl"
    using walk_alloc [OF w(1) d(2), of i] by blast
  have len: "length fl \<le> Suc (length fl2)" using b(6) by auto
  have al: "page_aligned i" using i(1) by (simp add: user_page_def)
  have ld: "load32 (mem s1) a = noW ?e" by (simp add: s1_def)
  have unf: "copy_loop (Suc n) d c i sz s = bindE (mappages c i PGSIZE (PTE_ADDR (noW ?e)) (PTE_FLAGS (noW ?e)) s1) (\<lambda>(r, s).
      if r < 0 then Ok (False, s) else bindE (incr_refc (PTE_ADDR (noW ?e)) s) (copy_loop n d c (i + PGSIZE) sz))"
    using i(2,3) a a0 ld by (simp add: walk_slot present_def noW_def s1_def Let_def cong: if_cong)
  have mem2: "mem s2 x = mem s x" if "0 < mapcount (mem s) D (PGROUNDDOWN x)" for x
    using that w(3,4) b(3) by (simp add: framed_def)
  have pte2: "pte_at (mem s2) d' va' = (if d' = d \<and> PGROUNDDOWN va' = i then noW ?e else pte_at (mem s) d' va')" if "d' \<in> D" for d' va'
    using b(3) w(2) [OF that] that by (simp add: framed_def)
  show ?thesis
  proof (cases "b = 0")
    case True
    then have "copy_loop (Suc n) d c i sz s = Ok (False, s2)" unfolding unf mappages_one [OF al] using b(1) by simp
    moreover have "same_view s s2 (D - {c})"
      by (rule same_view_frames [OF inv _ _ mem2]) (use pte2 i(1) in auto)
    ultimately show ?thesis using b(2,5) True by blast
  next
    case False
    then have sl: "slot (mem s2) c i = Some b" using b(4) by blast
    have p2: "present (pte_at (mem s2) d i)" "\<not> writable (pte_at (mem s2) d i)" "\<not> present (pte_at (mem s2) c i)" "pte_at (mem s2) d i = noW ?e"
      using pte2 [OF d(1), of i] pte2 [OF d(2), of i] i d(3) by auto
    obtain t where t: "incr_refc (PTE_ADDR (noW ?e)) (s2\<lparr>mem := store32 (mem s2) b (noW ?e)\<rparr>) = Ok t" "vinv t fl2 D"
        "\<And>d' va'. d' \<in> D \<Longrightarrow> pte_at (mem t) d' va' = (if d' = c \<and> PGROUNDDOWN va' = i then noW ?e else pte_at (mem s2) d' va')"
        "\<And>x. 0 < mapcount (mem s2) D (PGROUNDDOWN x) \<Longrightarrow> mem t x = mem s2 x"
      using vinv_share [OF b(2) d(1) i(1) p2(1,2) d(2) sl p2(3)] p2(4) by auto
    have "load32 (mem s2) b = pte_at (mem s2) c i" using sl by (simp add: pte_at_def)
    then have "copy_loop (Suc n) d c i sz s = copy_loop n d c (i + PGSIZE) sz t"
      unfolding unf mappages_one [OF al] using b(1) False p2(3) t(1) noW_rebuild [OF i(3)] by (simp add: or.assoc)
    moreover have "copied s t D d c {i}"
    proof -
      have "mem t x = mem s x" if x: "0 < mapcount (mem s) D (PGROUNDDOWN x)" for x
      proof -
        have "0 < mapcount (mem s2) D (PGROUNDDOWN x)"
          by (rule mapped_mono [OF vinvD(3) [OF inv] _ x]) (use pte2 i in auto)
        then show ?thesis using t(4) mem2 [OF x] by simp
      qed
      then show ?thesis using t(3) pte2 d i(1) by (auto simp: copied_def)
    qed
    ultimately show ?thesis using t(2) len by blast
  qed
qed

lemma copied_pte:
  assumes "copied s t D d c A" "d' \<in> D" "d' \<noteq> c" "user_page va"
  shows "present (pte_at (mem t) d' va) = present (pte_at (mem s) d' va) \<and> frame_of (pte_at (mem t) d' va) = frame_of (pte_at (mem s) d' va)"
  using assms by (cases "d' = d") (auto simp: copied_def)

lemma copied_view: "vinv s fl D \<Longrightarrow> copied s t D d c A \<Longrightarrow> same_view s t (D - {c})"
  by (rule same_view_frames [of s fl D]) (auto simp: copied_pte, simp add: copied_def)

lemma same_view_trans: "same_view s t D \<Longrightarrow> same_view t u D \<Longrightarrow> same_view s u D"
  by (simp add: same_view_def)

lemma copied_trans:
  assumes fin: "finite D" and st: "copied s t D d c A" "copied t u D d c B" and dis: "A \<inter> B = {}" "\<And>va. va \<in> A \<Longrightarrow> \<not> present (pte_at (mem s) c va)"
  shows "copied s u D d c (A \<union> B)"
proof -
  have "present (pte_at (mem t) d' va) \<and> frame_of (pte_at (mem t) d' va) = frame_of (pte_at (mem s) d' va)"
    if "d' \<in> D" "user_page va" "present (pte_at (mem s) d' va)" for d' va
    using that copied_pte [OF st(1) that(1) _ that(2)] st(1) dis(2) by (cases "d' = c") (auto simp: copied_def)
  then have "mem u x = mem s x" if "0 < mapcount (mem s) D (PGROUNDDOWN x)" for x
    using that mapped_mono [OF fin, of "mem s" "mem t" "PGROUNDDOWN x"] st by (auto simp: copied_def)
  then show ?thesis using st dis(1) by (auto simp: copied_def)
qed

lemma user_page_next:
  assumes "user_page i" "sz \<le> KERNBASE" "i < sz"
  shows "page_aligned (i + PGSIZE)" "unat (i + PGSIZE) = unat i + 4096"
    "{va. user_page va \<and> i \<le> va \<and> va < sz} = {i} \<union> {va. user_page va \<and> i + PGSIZE \<le> va \<and> va < sz}"
proof -
  have i: "unat i mod 4096 = 0" "unat i < 0x80000000" using assms(1) by (simp_all add: user_page_def page_aligned_unat word_less_nat_alt)
  then show u: "unat (i + PGSIZE) = unat i + 4096" by (simp add: unat_word_ariths)
  then show "page_aligned (i + PGSIZE)" using i(1) by (simp add: page_aligned_unat)
  have "i \<le> va \<longleftrightarrow> va = i \<or> i + PGSIZE \<le> va" if "user_page va" for va
  proof -
    have "unat va mod 4096 = 0" using that by (simp add: user_page_def page_aligned_unat)
    then obtain q r where "unat va = 4096 * q" "unat i = 4096 * r" using i(1) by (auto elim!: dvdE simp flip: dvd_eq_mod_eq_0)
    then have "unat i \<le> unat va \<longleftrightarrow> unat va = unat i \<or> unat i + 4096 \<le> unat va" by auto
    then show ?thesis using u by (simp add: word_le_nat_alt word_unat_eq_iff)
  qed
  then show "{va. user_page va \<and> i \<le> va \<and> va < sz} = {i} \<union> {va. user_page va \<and> i + PGSIZE \<le> va \<and> va < sz}"
    using assms by auto
qed

lemma copy_loop_end:
  assumes "\<not> i < sz" "vinv s fl D"
  shows "\<exists>ok t fl'. copy_loop (Suc n) d c i sz s = Ok (ok, t) \<and> vinv t fl' D
     \<and> (if ok then copied s t D d c {va. user_page va \<and> i \<le> va \<and> va < sz} else unat i + 4096 * length fl < unat sz \<and> same_view s t (D - {c}))"
proof -
  have none: "{va. user_page va \<and> i \<le> va \<and> va < sz} = {}" using assms(1) by auto
  have "copied s s D d c {}" by (simp add: copied_def)
  then show ?thesis unfolding none using assms by (intro exI [of _ True] exI [of _ s] exI [of _ fl]) simp
qed

lemma copy_loop_ok:
  assumes "vinv s fl D" "d \<in> D" "c \<in> D" "d \<noteq> c" "page_aligned i" "sz \<le> KERNBASE" "unat sz \<le> unat i + 4096 * n"
    and "\<And>va. user_page va \<Longrightarrow> i \<le> va \<Longrightarrow> va < sz \<Longrightarrow> present (pte_at (mem s) d va) \<and> \<not> present (pte_at (mem s) c va)"
  shows "\<exists>ok t fl'. copy_loop (Suc n) d c i sz s = Ok (ok, t) \<and> vinv t fl' D
     \<and> (if ok then copied s t D d c {va. user_page va \<and> i \<le> va \<and> va < sz} else unat i + 4096 * length fl < unat sz \<and> same_view s t (D - {c}))"
  using assms
proof (induction n arbitrary: s fl i)
  case 0
  then have "\<not> i < sz" by (simp add: word_less_nat_alt)
  then show ?case using copy_loop_end 0(1) by blast
next
  case (Suc n)
  show ?case
  proof (cases "i < sz")
    case False
    then show ?thesis using copy_loop_end Suc.prems(1) by blast
  next
    case True
    then have up: "user_page i" using Suc.prems(5,6) by (auto simp: user_page_def word_less_nat_alt word_le_nat_alt)
    note nx = user_page_next [OF up Suc.prems(6) True]
    have pi: "present (pte_at (mem s) d i)" "\<not> present (pte_at (mem s) c i)" using Suc.prems(8) [OF up] True by simp_all
    obtain t fl' where t: "vinv t fl' D" and c: "copy_loop (Suc (Suc n)) d c i sz s = Ok (False, t) \<and> fl = [] \<and> same_view s t (D - {c})
       \<or> copy_loop (Suc (Suc n)) d c i sz s = copy_loop (Suc n) d c (i + PGSIZE) sz t \<and> copied s t D d c {i} \<and> length fl \<le> Suc (length fl')"
      using copy_step [OF Suc.prems(1-4) up True pi, of "Suc n"] by blast
    from c show ?thesis
    proof (elim disjE conjE)
      assume "copy_loop (Suc (Suc n)) d c i sz s = Ok (False, t)" "fl = []" "same_view s t (D - {c})"
      then show ?thesis using t True by (intro exI [of _ False] exI [of _ t] exI [of _ fl']) (simp add: word_less_nat_alt)
    next
      assume go: "copy_loop (Suc (Suc n)) d c i sz s = copy_loop (Suc n) d c (i + PGSIZE) sz t" and cp: "copied s t D d c {i}"
        and len: "length fl \<le> Suc (length fl')"
      have rest: "present (pte_at (mem t) d va) \<and> \<not> present (pte_at (mem t) c va)" if "user_page va" "i + PGSIZE \<le> va" "va < sz" for va
      proof -
        have "i \<le> va" "va \<noteq> i" using nx(2) that(2) by (auto simp: word_le_nat_alt)
        then show ?thesis using Suc.prems(8) [OF that(1) _ that(3)] cp that(1) by (simp add: copied_def)
      qed
      have bound: "unat sz \<le> unat (i + PGSIZE) + 4096 * n" using Suc.prems(7) nx(2) True by (auto simp: word_less_nat_alt)
      obtain ok u fl2 where u: "copy_loop (Suc n) d c (i + PGSIZE) sz t = Ok (ok, u)" "vinv u fl2 D"
          "if ok then copied t u D d c {va. user_page va \<and> i + PGSIZE \<le> va \<and> va < sz}
            else unat (i + PGSIZE) + 4096 * length fl' < unat sz \<and> same_view t u (D - {c})"
        using Suc.IH [OF t Suc.prems(2-4) nx(1) Suc.prems(6) bound rest] by blast
      have "copied s u D d c {va. user_page va \<and> i \<le> va \<and> va < sz}" if ok
        unfolding nx(3) using u(3) that nx(2) pi(2)
        by (intro copied_trans [OF vinvD(3) [OF Suc.prems(1)] cp]) (auto simp: word_le_nat_alt)
      moreover have "unat i + 4096 * length fl < unat sz \<and> same_view s u (D - {c})" if "\<not> ok"
        using same_view_trans [OF copied_view [OF Suc.prems(1) cp], of u] u(3) that len nx(2) by simp
      ultimately show ?thesis using go u(1,2) by (intro exI [of _ ok] exI [of _ u] exI [of _ fl2]) simp
    qed
  qed
qed

section \<open>Releasing\<close>

text \<open>Giving up one mapping: the reference goes, with the last one the page.\<close>

lemma unmap_step:
  assumes inv: "vinv s fl D" and d: "d \<in> D" "user_page va" "present (pte_at (mem s) d va)" and a: "slot (mem s) d va = Some a"
  defines "v \<equiv> frame_of (pte_at (mem s) d va)"
  shows "\<exists>u. kfree v s = Ok u \<and> (let t = u\<lparr>mem := store32 (mem u) a 0\<rparr> in
      vinv t (if refs s v = 1 then v # fl else fl) D \<and> kend t = kend s
      \<and> (\<forall>d'\<in>D. \<forall>va'. pte_at (mem t) d' va' = (if d' = d \<and> PGROUNDDOWN va' = va then 0 else pte_at (mem s) d' va'))
      \<and> (\<forall>q. mapcount (mem t) D q = mapcount (mem s) D q - of_bool (q = v))
      \<and> (\<forall>x. 0 < mapcount (mem t) D (PGROUNDDOWN x) \<longrightarrow> mem t x = mem s x))"
proof -
  have lt: "va < KERNBASE" using d(2) by (simp add: user_page_def)
  note af = slot_page_facts [OF inv d(1) a] and vf = mapped_frame [OF inv d(1) lt d(3), folded v_def]
  let ?one = "refs s v = 1"
  let ?fl = "if ?one then v # fl else fl"
  define u where "u = (if ?one then (freed v s)\<lparr>hw := kcycled s\<rparr> else dropped v s)"
  have k: "kfree v s = Ok u" "kinv u ?fl" "klock_ok u"
    using kfree_last [OF vinvD(1,2) [OF inv] vf(1,5)] kfree_shared [OF vinvD(1,2) [OF inv] vf(1)] vf(3,4) by (auto simp: u_def)
  have mu: "mem u x = mem s x" if "PGROUNDDOWN x \<noteq> v" for x using mem_freed [of v x s] vf(1) that by (simp add: u_def dropped_def)
  have ru: "refs u q = (if q = v then refs s v - 1 else refs s q)" if "kpage s q" for q
    using that vf(1) refs_freed [of v q s] by (auto simp: u_def dropped_def refc_idx_inj)
  have ku: "kend u = kend s" by (simp add: u_def dropped_def)
  define t where "t = u\<lparr>mem := store32 (mem u) a 0\<rparr>"
  have mt: "mem t = store32 (mem u) a 0" "kend t = kend s" using ku by (simp_all add: t_def)
  have mpt: "mem u x = mem s x" if "PGROUNDDOWN x \<in> pt_pages (mem s) D" for x using mu [of x] that vf(2) by metis
  note ew = entry_written [OF inv d(1,2) a mt(1) mpt]
  have p0: "\<not> present 0" by (simp add: present_def)
  have hit: "\<not> hits 0 q" "hits (pte_at (mem s) d va) q \<longleftrightarrow> q = v" for q using d(3) p0 by (auto simp: hits_def v_def)
  have mc: "mapcount (mem t) D q = mapcount (mem s) D q - of_bool (q = v)" for q using ew(4) [of q] hit by simp
  have pte: "pte_at (mem t) d' va' = (if d' = d \<and> PGROUNDDOWN va' = va then 0 else pte_at (mem s) d' va')" if "d' \<in> D" for d' va'
    using ew(3) [OF _ that] by simp
  have kt: "kinv t ?fl"
  proof (rule kinv_cong [OF k(2)])
    fix q x assume q: "q \<in> set ?fl" "PGROUNDDOWN x = q"
    then have "q \<notin> pt_pages (mem s) D" using vinv_free(2) [OF inv, of q] vf(2) by (auto split: if_splits)
    then show "mem t x = mem u x" using store_out [OF af(1,2)] q(2) mt(1) by simp
  qed (simp_all add: t_def)
  have "vinv t ?fl D"
  proof (rule vinv_entry [OF inv d(1,2) a mt(1) mpt kt _ mt(2)])
    show "klock_ok t" using k(3) by (simp add: t_def klock_ok_def)
    show "refs t q = refs s q - of_bool (hits (pte_at (mem s) d va) q) + of_bool (hits 0 q)" if "kpage s q" for q
      using ru [OF that] hit by (simp add: t_def)
    show "mapcount (mem t) D (frame_of (pte_at (mem t) d' va')) = 1"
      if w: "d' \<in> D" "user_page va'" "present (pte_at (mem t) d' va')" "writable (pte_at (mem t) d' va')" for d' va'
    proof -
      have ne: "\<not> (d' = d \<and> va' = va)" using w p0 pte [OF w(1), of va'] by auto
      then have eq: "pte_at (mem t) d' va' = pte_at (mem s) d' va'" using w(2) pte [OF w(1), of va'] by auto
      then have one: "mapcount (mem s) D (frame_of (pte_at (mem s) d' va')) = 1" using vinvD(10) [OF inv w(1,2)] w(3,4) by simp
      have "frame_of (pte_at (mem s) d' va') \<noteq> v"
        using mapcount_two [OF vinvD(3) [OF inv] w(1) d(1) w(2) d(2), of "mem s" v] ne w(3) eq one d(3) by (auto simp: hits_def v_def)
      then show ?thesis using one mc eq by simp
    qed
  qed (use p0 in auto)
  moreover have "mem t x = mem s x" if "0 < mapcount (mem t) D (PGROUNDDOWN x)" for x
  proof -
    have ps: "0 < mapcount (mem s) D (PGROUNDDOWN x)" using that mc [of "PGROUNDDOWN x"] by (auto simp: of_bool_def split: if_splits)
    then have out: "mem t x = mem u x" using store_out [OF af(1,2) vinv_mapped(2) [OF inv ps]] mt(1) by simp
    show ?thesis
    proof (cases "PGROUNDDOWN x = v")
      case True
      then have "\<not> ?one" using that mc [of v] vf(3) by auto
      then show ?thesis using out by (simp add: u_def dropped_def)
    next
      case False
      then show ?thesis using mu out by simp
    qed
  qed
  ultimately show ?thesis using k(1) pte mt(2) mc by (intro exI [of _ u]) (simp add: t_def)
qed

text \<open>What \<open>deallocuvm\<close> leaves: the given pages are unmapped, every other entry and every byte
  that is still mapped is as before, and a page that lost its last mapping is on the free list.\<close>

definition unmapped :: "'z kstate_scheme \<Rightarrow> uint list \<Rightarrow> 'z kstate_scheme \<Rightarrow> uint list \<Rightarrow> uint set \<Rightarrow> uint \<Rightarrow> uint set \<Rightarrow> bool" where
  "unmapped s fl t fl' D d A \<longleftrightarrow> kend t = kend s \<and> set fl \<subseteq> set fl'
     \<and> (\<forall>d'\<in>D. \<forall>va. user_page va \<longrightarrow>
          (if d' = d \<and> va \<in> A then \<not> present (pte_at (mem t) d' va) else pte_at (mem t) d' va = pte_at (mem s) d' va))
     \<and> (\<forall>v. 0 < mapcount (mem s) D v \<and> mapcount (mem t) D v = 0 \<longrightarrow> v \<in> set fl')
     \<and> (\<forall>x. 0 < mapcount (mem t) D (PGROUNDDOWN x) \<longrightarrow> mem t x = mem s x)"

lemma unmapped_refl: "\<forall>va\<in>A. \<not> present (pte_at (mem s) d va) \<Longrightarrow> unmapped s fl s fl D d A"
  by (auto simp: unmapped_def)

lemma unmapped_mapcount:
  assumes "unmapped s fl t fl' D d A" "finite D" "0 < mapcount (mem t) D v"
  shows "0 < mapcount (mem s) D v"
  using assms unfolding unmapped_def mapcount_pos_iff [OF assms(2)] hits_def by (metis (full_types))

lemma unmapped_trans:
  assumes st: "unmapped s fl t fl1 D d A" and tu: "unmapped t fl1 u fl2 D d B" and f: "finite D"
  shows "unmapped s fl u fl2 D d (A \<union> B)"
proof -
  have "v \<in> set fl2" if v: "0 < mapcount (mem s) D v" "mapcount (mem u) D v = 0" for v
  proof (cases "0 < mapcount (mem t) D v")
    case True
    then show ?thesis using tu v by (simp add: unmapped_def)
  next
    case False
    then have "mapcount (mem t) D v = 0" using mapcount_nonneg [of "mem t" D v] by simp
    then show ?thesis using st tu v by (auto simp: unmapped_def)
  qed
  moreover have "mem u x = mem s x" if "0 < mapcount (mem u) D (PGROUNDDOWN x)" for x
    using st tu that unmapped_mapcount [OF tu f that] by (simp add: unmapped_def)
  moreover have "if d' = d \<and> va \<in> A \<union> B then \<not> present (pte_at (mem u) d' va) else pte_at (mem u) d' va = pte_at (mem s) d' va"
    if "d' \<in> D" "user_page va" for d' va
    using st tu that unfolding unmapped_def by (metis (full_types) UnE UnI1 UnI2)
  ultimately show ?thesis using st tu by (auto simp: unmapped_def)
qed

lemma unmapped_view:
  assumes un: "unmapped s fl t fl' D d A" and f: "finite D" and d: "d' \<in> D" "va < KERNBASE" "d' \<noteq> d \<or> PGROUNDDOWN va \<notin> A"
  shows "pte_at (mem t) d' va = pte_at (mem s) d' va"
    and "present (pte_at (mem s) d' va) \<Longrightarrow> at_user (mem t) d' va = at_user (mem s) d' va"
proof -
  note up = user_page_down [OF d(2)]
  show e: "pte_at (mem t) d' va = pte_at (mem s) d' va"
    using un d(1,3) up by (auto simp: unmapped_def pte_at_page dest!: bspec [of _ _ d'] spec [of _ "PGROUNDDOWN va"])
  assume p: "present (pte_at (mem s) d' va)"
  have "0 < mapcount (mem t) D (frame_of (pte_at (mem t) d' va))"
    unfolding mapcount_pos_iff [OF f] hits_def using d(1) up p e by (auto simp: pte_at_page intro!: bexI [of _ d'] exI [of _ "PGROUNDDOWN va"])
  then show "at_user (mem t) d' va = at_user (mem s) d' va"
    using un by (simp add: at_user_def e unmapped_def frame_offset frame_aligned)
qed

text \<open>A directory entry that is not present covers a run of pages that are not mapped.\<close>

lemma PDX_skip:
  assumes "a < KERNBASE"
  defines "b \<equiv> PGADDR (PDX a + 1) 0 0 - PGSIZE + PGSIZE"
  shows "page_aligned b" "unat a + 4096 \<le> unat b \<or> \<not> page_aligned a" "a \<le> va \<Longrightarrow> va < b \<Longrightarrow> PDX va = PDX a"
proof -
  have a: "unat a < 2147483648" using assms(1) by (simp add: word_less_nat_alt)
  then have "unat (PDX a + 1) = unat a div 4194304 + 1" by (simp add: unat_word_ariths unat_PDX)
  moreover have "unat (push_bit 22 x) = unat x * 4194304" if "unat x < 1024" for x :: uint
    using that by (simp add: push_bit_eq_mult unat_word_ariths)
  ultimately have "unat (push_bit 22 (PDX a + 1)) = (unat a div 4194304 + 1) * 4194304" using a by simp
  then have b: "unat b = (unat a div 4194304 + 1) * 4194304" by (simp add: b_def PGADDR_def)
  have m: "(unat a div 4194304 + 1) * 4194304 = 4096 * ((unat a div 4194304 + 1) * 1024)" by simp
  show "page_aligned b" unfolding page_aligned_unat b m by (simp del: mult_Suc_right)
  show "unat a + 4096 \<le> unat b \<or> \<not> page_aligned a"
  proof (cases "page_aligned a")
    case True
    then obtain k where k: "unat a = 4096 * k" by (auto simp: page_aligned_unat)
    have "4096 * k div 4194304 = k div 1024" using div_mult_mult1 [of 4096 k 1024] by simp
    moreover have "k < (k div 1024 + 1) * 1024" using dividend_less_div_times [of 1024 k] by simp
    ultimately show ?thesis unfolding b k by simp
  qed simp
  assume v: "a \<le> va" "va < b"
  have "unat va div 4194304 < unat a div 4194304 + 1"
    using v(2) unfolding word_less_nat_alt b by (simp add: div_less_iff_less_mult)
  moreover have "unat a div 4194304 \<le> unat va div 4194304" using v(1) by (intro div_le_mono) (simp add: word_le_nat_alt)
  ultimately show "PDX va = PDX a" by (simp add: word_unat_eq_iff unat_PDX)
qed

lemma dealloc_loop_ok:
  fixes s :: "'z kstate_scheme"
  assumes "vinv s fl D" "d \<in> D" "KERNBASE < kend s" "page_aligned a" "sz \<le> KERNBASE" "unat sz \<le> unat a + 4096 * n"
  shows "\<exists>t fl'. dealloc_loop (Suc n) d a sz s = Ok t \<and> vinv t fl' D
     \<and> unmapped s fl t fl' D d {va. user_page va \<and> a \<le> va \<and> va < sz}"
  using assms
proof (induction n arbitrary: a s fl)
  case 0
  then have "\<not> a < sz" by (simp add: word_less_nat_alt)
  moreover have "unmapped s fl s fl D d {va. user_page va \<and> a \<le> va \<and> va < sz}"
    using \<open>\<not> a < sz\<close> by (intro unmapped_refl) auto
  ultimately show ?case using "0.prems"(1) by auto
next
  case (Suc n)
  show ?case
  proof (cases "a < sz")
    case False
    then have "unmapped s fl s fl D d {va. user_page va \<and> a \<le> va \<and> va < sz}" by (intro unmapped_refl) auto
    then show ?thesis using Suc.prems(1) False by auto
  next
    case True
    then have a: "user_page a" "a < KERNBASE" using Suc.prems(4,5) by (auto simp: user_page_def)
    note nx = user_page_next [OF a(1) Suc.prems(5) True]
    show ?thesis
    proof (cases "slot (mem s) d a")
      case None
      define b where "b = PGADDR (PDX a + 1) 0 0 - PGSIZE + PGSIZE"
      note sk = PDX_skip [OF a(2), folded b_def]
      have ab: "unat a + 4096 \<le> unat b" using sk(2) Suc.prems(4) by simp
      have np: "\<not> present (pte_at (mem s) d va)" if "a \<le> va" "va < b" for va
        using None sk(3) [OF that] by (auto simp: pte_at_def slot_def present_def split: option.splits)
      obtain t fl' where t: "dealloc_loop (Suc n) d b sz s = Ok t" "vinv t fl' D"
          "unmapped s fl t fl' D d {va. user_page va \<and> b \<le> va \<and> va < sz}"
        using Suc.IH [OF Suc.prems(1,2,3) sk(1) Suc.prems(5)] ab Suc.prems(6) by auto
      have "unmapped s fl s fl D d {va. user_page va \<and> a \<le> va \<and> va < b \<and> va < sz}"
        using np by (intro unmapped_refl) auto
      note un = unmapped_trans [OF this t(3) vinvD(3) [OF Suc.prems(1)]]
      have "{va. user_page va \<and> a \<le> va \<and> va < b \<and> va < sz} \<union> {va. user_page va \<and> b \<le> va \<and> va < sz}
          = {va. user_page va \<and> a \<le> va \<and> va < sz}"
        using ab by (auto simp: word_le_nat_alt word_less_nat_alt)
      moreover have "dealloc_loop (Suc (Suc n)) d a sz s = dealloc_loop (Suc n) d b sz s"
        using True None by (simp only: dealloc_loop.simps(2) walk_slot b_def) simp
      ultimately show ?thesis using t un by auto
    next
      case (Some e)
      note af = slot_page_facts [OF Suc.prems(1,2) Some]
      have le: "load32 (mem s) e = pte_at (mem s) d a" by (simp add: pte_at_def Some)
      have IH: "\<exists>t fl'. dealloc_loop (Suc n) d (a + PGSIZE) sz u = Ok t \<and> vinv t fl' D
          \<and> unmapped u fl0 t fl' D d {va. user_page va \<and> a + PGSIZE \<le> va \<and> va < sz}"
        if "vinv u fl0 D" "kend u = kend s" for u :: "'z kstate_scheme" and fl0
        using Suc.IH [OF that(1) Suc.prems(2) _ nx(1) Suc.prems(5)] that(2) Suc.prems(3,6) nx(2) by simp
      show ?thesis
      proof (cases "present (pte_at (mem s) d a)")
        case False
        have un: "unmapped s fl s fl D d {a}" using False by (intro unmapped_refl) simp
        have "dealloc_loop (Suc (Suc n)) d a sz s = dealloc_loop (Suc n) d (a + PGSIZE) sz s"
          using True Some af(4) False by (simp only: dealloc_loop.simps(2) [of "Suc n"] walk_slot) (simp add: le present_def)
        then show ?thesis using IH [OF Suc.prems(1)] unmapped_trans [OF un _ vinvD(3) [OF Suc.prems(1)]] unfolding nx(3) by (metis (no_types))
      next
        case present: True
        define v where "v = frame_of (pte_at (mem s) d a)"
        obtain u where u: "kfree v s = Ok u" and r: "let t = u\<lparr>mem := store32 (mem u) e 0\<rparr> in
            vinv t (if refs s v = 1 then v # fl else fl) D \<and> kend t = kend s
            \<and> (\<forall>d'\<in>D. \<forall>va'. pte_at (mem t) d' va' = (if d' = d \<and> PGROUNDDOWN va' = a then 0 else pte_at (mem s) d' va'))
            \<and> (\<forall>q. mapcount (mem t) D q = mapcount (mem s) D q - of_bool (q = v))
            \<and> (\<forall>x. 0 < mapcount (mem t) D (PGROUNDDOWN x) \<longrightarrow> mem t x = mem s x)"
          using unmap_step [OF Suc.prems(1,2) a(1) present Some, folded v_def] by blast
        define t where "t = u\<lparr>mem := store32 (mem u) e 0\<rparr>"
        note r = r [folded t_def, unfolded Let_def]
        note vf = mapped_frame [OF Suc.prems(1,2) a(2) present, folded v_def]
        have un: "unmapped s fl t (if refs s v = 1 then v # fl else fl) D d {a}"
          using r vf(3) by (auto simp: unmapped_def user_page_def present_def of_bool_def split: if_splits)
        have "PTE_ADDR (pte_at (mem s) d a) \<noteq> 0"
          using vf(1) Suc.prems(3) by (auto simp: v_def frame_of_def kpage_def P2V_def)
        then have "dealloc_loop (Suc (Suc n)) d a sz s = dealloc_loop (Suc n) d (a + PGSIZE) sz t"
          using True Some af(4) present u
          by (simp only: dealloc_loop.simps(2) [of "Suc n"] walk_slot) (simp add: le present_def v_def frame_of_def t_def)
        then show ?thesis using IH [OF r [THEN conjunct1] r [THEN conjunct2, THEN conjunct1]]
            unmapped_trans [OF un _ vinvD(3) [OF Suc.prems(1)]] unfolding nx(3) by (metis (no_types))
      qed
    qed
  qed
qed

end
