(* ===== verification/Ring.thy ===== *)
theory Ring
  imports Prelude
begin

text \<open>
  Ring buffers indexed by free-running 32-bit counters, as pipes and the console's input
  buffer use them: slot \<open>i mod sz\<close> holds the byte with number \<open>i\<close>. \<open>rlist sz buf r w\<close> is
  the contents from counter \<open>r\<close> up to \<open>w\<close>. The counters wrap; that is harmless exactly
  because the size divides \<open>2 ^ 32\<close>, which is the assumption of the locale.
\<close>

definition rlist :: "uint \<Rightarrow> (nat \<Rightarrow> byte) \<Rightarrow> uint \<Rightarrow> uint \<Rightarrow> byte list" where
  "rlist sz buf r w = map (\<lambda>i. buf (unat ((r + of_nat i) mod sz))) [0..<unat (w - r)]"

lemma unat_diff_0 [simp]: "unat (a - b) = 0 \<longleftrightarrow> a = b" for a b :: uint
  by (metis right_minus_eq unat_0_iff)

lemma rlist_length [simp]: "length (rlist sz buf r w) = unat (w - r)"
  by (simp add: rlist_def)

lemma rlist_same [simp]: "rlist sz buf r r = []"
  by (simp add: rlist_def)

lemma rlist_nil [simp]: "rlist sz buf r w = [] \<longleftrightarrow> r = w"
  by (metis length_0_conv rlist_length rlist_same right_minus_eq unat_0_iff)

lemma unat_Suc_diff: "w - r \<noteq> -1 \<Longrightarrow> unat (w + 1 - r) = Suc (unat (w - r))" for w r :: uint
proof -
  assume "w - r \<noteq> -1"
  then have "1 + (w - r) \<noteq> 0" by (metis add.inverse_unique)
  moreover have "w + 1 - r = 1 + (w - r)" by simp
  ultimately show ?thesis by (metis unatSuc)
qed

lemma unat_pred_diff: "w \<noteq> r \<Longrightarrow> Suc (unat (w - 1 - r)) = unat (w - r)" for w r :: uint
proof -
  assume "w \<noteq> r"
  then have "1 + (w - 1 - r) \<noteq> 0" by simp
  then show ?thesis using unatSuc [of "w - 1 - r"] by simp
qed

lemma rlist_last: "w \<noteq> r \<Longrightarrow> rlist sz buf r w = rlist sz buf r (w - 1) @ [buf (unat ((w - 1) mod sz))]"
proof -
  assume "w \<noteq> r"
  then have u: "unat (w - r) = Suc (unat (w - 1 - r))" by (simp add: unat_pred_diff)
  have "r + of_nat (unat (w - 1 - r)) = w - 1" by simp
  with u show ?thesis by (simp add: rlist_def)
qed

lemma rlist_first: "w \<noteq> r \<Longrightarrow> rlist sz buf r w = buf (unat (r mod sz)) # rlist sz buf (r + 1) w"
proof -
  assume "w \<noteq> r"
  then have u: "unat (w - r) = Suc (unat (w - (r + 1)))"
    using unat_pred_diff [of w r] by (simp add: diff_diff_eq add.commute)
  show ?thesis unfolding rlist_def u
    by (simp add: upt_conv_Cons map_Suc_upt [symmetric] del: upt_Suc) (simp add: add.assoc)
qed

text \<open>The contents up to \<open>e\<close> split at a counter in between.\<close>

lemma rlist_split:
  assumes "unat (w - r) \<le> unat (e - r)"
  shows "rlist sz buf r e = rlist sz buf r w @ rlist sz buf w e"
proof -
  have "e - w = (e - r) - (w - r)" by simp
  then have u: "unat (e - r) = unat (w - r) + unat (e - w)"
    using assms unat_sub [of "w - r" "e - r"] by (simp add: word_le_nat_alt)
  show ?thesis
  proof (rule nth_equalityI)
    show "length (rlist sz buf r e) = length (rlist sz buf r w @ rlist sz buf w e)" by (simp add: u)
  next
    fix i assume i: "i < length (rlist sz buf r e)"
    show "rlist sz buf r e ! i = (rlist sz buf r w @ rlist sz buf w e) ! i"
    proof (cases "i < unat (w - r)")
      case True
      then show ?thesis using i by (simp add: nth_append) (simp add: rlist_def)
    next
      case False
      then have "of_nat (i - unat (w - r)) = of_nat i - (w - r)"
        by (simp add: of_nat_diff)
      then have "w + of_nat (i - unat (w - r)) = r + of_nat i" by simp
      moreover have "i - unat (w - r) < unat (e - w)" using False i u by simp
      ultimately show ?thesis using False i by (simp add: nth_append) (simp add: rlist_def u add.commute)
    qed
  qed
qed

locale ring =
  fixes sz :: uint
  assumes dvd: "unat sz dvd 2 ^ 32"
begin

lemma slot: "unat ((r + of_nat i) mod sz) = (unat r + i) mod unat sz"
proof -
  have "unat (r + of_nat i) = (unat r + i) mod 2 ^ 32"
    by (simp add: unat_word_ariths unat_of_nat mod_simps)
  then show ?thesis using mod_mod_cancel [OF dvd] by (simp only: unat_mod_distrib)
qed

text \<open>Two numbers less than the size apart have different slots.\<close>

lemma slot_inj: "i < j \<Longrightarrow> j - i < unat sz \<Longrightarrow> (a + i) mod unat sz \<noteq> (a + j) mod unat sz" for a :: nat
proof
  assume "i < j" "j - i < unat sz" "(a + i) mod unat sz = (a + j) mod unat sz"
  then have "unat sz dvd (a + j) - (a + i)" by (metis mod_eq_dvd_iff_nat nat_add_left_cancel_le nat_less_le)
  then have "unat sz dvd j - i" by simp
  with \<open>i < j\<close> \<open>j - i < unat sz\<close> show False by (auto dest: dvd_imp_le)
qed

text \<open>A byte put into a ring that is not full comes last, and disturbs nothing.\<close>

lemma put:
  assumes "unat (w - r) < unat sz"
  shows "rlist sz (buf(unat (w mod sz) := b)) r (w + 1) = rlist sz buf r w @ [b]"
proof -
  have ne: "w - r \<noteq> -1"
  proof
    assume "w - r = -1"
    with assms have "(-1 :: uint) < sz" by (simp only: word_less_nat_alt)
    then show False using word_n1_ge [of sz] by (metis leD)
  qed
  have w: "w = r + of_nat (unat (w - r))" by simp
  have ws: "unat (w mod sz) = (unat r + unat (w - r)) mod unat sz" using slot [of r "unat (w - r)"] w by simp
  show ?thesis
    unfolding rlist_def unat_Suc_diff [OF ne]
    using assms slot_inj [of _ "unat (w - r)" "unat r"]
    by (auto simp: slot ws)
qed

end

section \<open>Bounded queues\<close>

text \<open>Putting a list until the queue is full, and taking up to \<open>n\<close> elements: what is left of
  the list, what was taken, and the queue after.\<close>

fun enq_all :: "('q \<Rightarrow> bool) \<Rightarrow> ('a \<Rightarrow> 'q \<Rightarrow> 'q) \<Rightarrow> 'a list \<Rightarrow> 'q \<Rightarrow> 'a list \<times> 'q" where
  "enq_all full enq [] q = ([], q)"
| "enq_all full enq (x # xs) q = (if full q then (x # xs, q) else enq_all full enq xs (enq x q))"

fun deq_all :: "('q \<Rightarrow> bool) \<Rightarrow> ('q \<Rightarrow> 'a) \<Rightarrow> ('q \<Rightarrow> 'q) \<Rightarrow> nat \<Rightarrow> 'q \<Rightarrow> 'a list \<times> 'q" where
  "deq_all emp front deq 0 q = ([], q)"
| "deq_all emp front deq (Suc n) q =
     (if emp q then ([], q) else let (xs, q') = deq_all emp front deq n (deq q) in (front q # xs, q'))"

text \<open>The contract of a first-in first-out queue that holds at most \<open>cap\<close> elements;
  \<open>cont\<close> is the list it stands for.\<close>

locale bounded_queue =
  fixes full :: "'q \<Rightarrow> bool"
    and enq :: "'a \<Rightarrow> 'q \<Rightarrow> 'q"
    and emp :: "'q \<Rightarrow> bool"
    and front :: "'q \<Rightarrow> 'a"
    and deq :: "'q \<Rightarrow> 'q"
    and inv :: "'q \<Rightarrow> bool"
    and cont :: "'q \<Rightarrow> 'a list"
    and cap :: nat
  assumes bound: "inv q \<Longrightarrow> length (cont q) \<le> cap"
    and full_iff: "inv q \<Longrightarrow> full q \<longleftrightarrow> length (cont q) = cap"
    and emp_iff: "inv q \<Longrightarrow> emp q \<longleftrightarrow> cont q = []"
    and enq_inv: "inv q \<Longrightarrow> \<not> full q \<Longrightarrow> inv (enq x q)"
    and enq_cont: "inv q \<Longrightarrow> \<not> full q \<Longrightarrow> cont (enq x q) = cont q @ [x]"
    and deq_inv: "inv q \<Longrightarrow> \<not> emp q \<Longrightarrow> inv (deq q)"
    and deq_cont: "inv q \<Longrightarrow> \<not> emp q \<Longrightarrow> cont q = front q # cont (deq q)"
begin

lemma enq_all_spec:
  "inv q \<Longrightarrow> enq_all full enq xs q = (ys, q') \<Longrightarrow>
   inv q' \<and> ys = drop (cap - length (cont q)) xs \<and> cont q' = cont q @ take (cap - length (cont q)) xs"
proof (induction xs arbitrary: q)
  case (Cons x xs)
  show ?case
  proof (cases "full q")
    case True
    with Cons.prems show ?thesis by (simp add: full_iff)
  next
    case False
    then have "inv (enq x q)" "cont (enq x q) = cont q @ [x]" using Cons.prems enq_inv enq_cont by auto
    moreover have "cap - length (cont q) = Suc (cap - length (cont (enq x q)))"
      using False Cons.prems(1) bound full_iff \<open>cont (enq x q) = cont q @ [x]\<close> by fastforce
    ultimately show ?thesis using Cons.IH [of "enq x q"] Cons.prems(2) False by simp
  qed
qed auto

lemma deq_all_spec:
  "inv q \<Longrightarrow> deq_all emp front deq n q = (xs, q') \<Longrightarrow>
   inv q' \<and> xs = take n (cont q) \<and> cont q' = drop n (cont q)"
proof (induction n arbitrary: q xs)
  case (Suc n)
  show ?case
  proof (cases "emp q")
    case True
    with Suc.prems show ?thesis by (simp add: emp_iff)
  next
    case False
    with Suc.prems obtain ys where
      "deq_all emp front deq n (deq q) = (ys, q')" "xs = front q # ys" by (auto split: prod.splits)
    with Suc.IH [of "deq q"] deq_inv [OF Suc.prems(1) False] deq_cont [OF Suc.prems(1) False]
    show ?thesis by simp
  qed
qed simp

end

end
