(* ===== verification/File.thy ===== *)
theory File
  imports Fs Ring
begin

text \<open>
  Pipes (\<open>pipe.c\<close>) and open files (\<open>file.c\<close>). A pipe is named by the address of the page
  that holds it; an open file is its index in \<open>ftable.file\<close>.

  A writer that finds the pipe full, or a reader that finds it empty, sleeps: the loops
  return how far they came (\<open>WSleep\<close>, \<open>RSleep\<close>) with the state at the call of \<open>sleep\<close>,
  and the thread continues with what is left when it is woken. Callers that cannot continue
  in the middle see the outcome \<open>Sleeps\<close>.
\<close>

section \<open>State\<close>

record pipe =
  pdata :: "nat \<Rightarrow> byte"
  nread :: uint
  nwrite :: uint
  readopen :: bool
  writeopen :: bool

datatype ftype = FD_NONE | FD_PIPE | FD_INODE

record filerec =
  ftype :: ftype
  fref :: int
  freadable :: bool
  fwritable :: bool
  fpipe :: uint
  fip :: nat
  foff :: uint

record filestate = fstate +
  files :: "filerec list"
  pipes :: "uint \<Rightarrow> pipe"

definition PIPESIZE :: uint where [simp]: "PIPESIZE = 512"
definition NFILE :: nat where [simp]: "NFILE = 100"

abbreviation the_file :: "'z filestate_scheme \<Rightarrow> nat \<Rightarrow> filerec" where
  "the_file s f \<equiv> files s ! f"

definition upd_file :: "nat \<Rightarrow> (filerec \<Rightarrow> filerec) \<Rightarrow> 'z filestate_scheme \<Rightarrow> 'z filestate_scheme" where
  "upd_file f g s = s\<lparr>files := (files s)[f := g (files s ! f)]\<rparr>"

definition upd_pipe :: "uint \<Rightarrow> (pipe \<Rightarrow> pipe) \<Rightarrow> 'z filestate_scheme \<Rightarrow> 'z filestate_scheme" where
  "upd_pipe p g s = s\<lparr>pipes := (pipes s)(p := g (pipes s p))\<rparr>"

section \<open>Pipes\<close>

text \<open>One byte in, one byte out.\<close>

definition pipe_put :: "byte \<Rightarrow> pipe \<Rightarrow> pipe" where
  "pipe_put b p = p\<lparr>pdata := (pdata p)(unat (nwrite p mod PIPESIZE) := b), nwrite := nwrite p + 1\<rparr>"

definition pipe_full :: "pipe \<Rightarrow> bool" where
  "pipe_full p \<longleftrightarrow> nwrite p = nread p + PIPESIZE"

definition pipe_first :: "pipe \<Rightarrow> byte" where
  "pipe_first p = pdata p (unat (nread p mod PIPESIZE))"

definition pipe_drop :: "pipe \<Rightarrow> pipe" where
  "pipe_drop p = p\<lparr>nread := nread p + 1\<rparr>"

datatype wres = WRet int | WSleep "byte list"

fun pipewrite_loop :: "uint \<Rightarrow> byte list \<Rightarrow> 'z filestate_scheme \<Rightarrow> (wres option \<times> 'z filestate_scheme) res" where
  "pipewrite_loop p [] s = Ok (None, s)"
| "pipewrite_loop p (b # bs) s =
     (if pipe_full (pipes s p) then
        bindE (if \<not> readopen (pipes s p) then Ok (True, s)
               else bindE (curproc s) (\<lambda>(i, s). Ok (killed (the_proc s i), s))) (\<lambda>(quit, s).
        if quit then bindE (unlock (PipeLock p) s) (\<lambda>s. Ok (Some (WRet (-1)), s))
        else bindE (wakeup (ChRead p) s) (\<lambda>s. Ok (Some (WSleep (b # bs)), s)))
      else pipewrite_loop p bs (upd_pipe p (pipe_put b) s))"

definition pipewrite :: "uint \<Rightarrow> byte list \<Rightarrow> 'z filestate_scheme \<Rightarrow> (wres \<times> 'z filestate_scheme) res" where
  "pipewrite p addr s =
     bindE (lock (PipeLock p) s) (\<lambda>s.
     bindE (pipewrite_loop p addr s) (\<lambda>(r, s).
     case r of
       Some w \<Rightarrow> Ok (w, s)
     | None \<Rightarrow>
         bindE (wakeup (ChRead p) s) (\<lambda>s.
         bindE (unlock (PipeLock p) s) (\<lambda>s. Ok (WRet (int (length addr)), s)))))"

datatype rres = RRet int "byte list" | RSleep

fun piperead_loop :: "uint \<Rightarrow> nat \<Rightarrow> 'z filestate_scheme \<Rightarrow> byte list \<times> 'z filestate_scheme" where
  "piperead_loop p 0 s = ([], s)"
| "piperead_loop p (Suc k) s =
     (if nread (pipes s p) = nwrite (pipes s p) then ([], s)
      else
        let b = pipe_first (pipes s p);
            (bs, s) = piperead_loop p k (upd_pipe p pipe_drop s)
        in (b # bs, s))"

definition piperead :: "uint \<Rightarrow> int \<Rightarrow> 'z filestate_scheme \<Rightarrow> (rres \<times> 'z filestate_scheme) res" where
  "piperead p n s =
     bindE (lock (PipeLock p) s) (\<lambda>s.
     if nread (pipes s p) = nwrite (pipes s p) \<and> writeopen (pipes s p) then
       bindE (curproc s) (\<lambda>(i, s).
       if killed (the_proc s i) then bindE (unlock (PipeLock p) s) (\<lambda>s. Ok (RRet (-1) [], s))
       else Ok (RSleep, s))
     else
       let (bs, s) = piperead_loop p (nat n) s in
       bindE (wakeup (ChWrite p) s) (\<lambda>s.
       bindE (unlock (PipeLock p) s) (\<lambda>s. Ok (RRet (int (length bs)) bs, s))))"

definition pipeclose :: "uint \<Rightarrow> bool \<Rightarrow> 'z filestate_scheme \<Rightarrow> 'z filestate_scheme res" where
  "pipeclose p wr s =
     bindE (lock (PipeLock p) s) (\<lambda>s.
     bindE (if wr then wakeup (ChRead p) (upd_pipe p (\<lambda>x. x\<lparr>writeopen := False\<rparr>) s)
            else wakeup (ChWrite p) (upd_pipe p (\<lambda>x. x\<lparr>readopen := False\<rparr>) s)) (\<lambda>s.
     if \<not> readopen (pipes s p) \<and> \<not> writeopen (pipes s p)
     then bindE (unlock (PipeLock p) s) (kfree p)
     else unlock (PipeLock p) s))"

section \<open>Files\<close>

definition fileinit :: "'z filestate_scheme \<Rightarrow> 'z filestate_scheme" where
  "fileinit s = s\<lparr>hw := initlock FtableLock ''ftable'' (hw s)\<rparr>"

fun find_file :: "nat \<Rightarrow> filerec list \<Rightarrow> nat option" where
  "find_file i [] = None"
| "find_file i (f # fs) = (if fref f = 0 then Some i else find_file (Suc i) fs)"

definition filealloc :: "'z filestate_scheme \<Rightarrow> (nat option \<times> 'z filestate_scheme) res" where
  "filealloc s =
     bindE (lock FtableLock s) (\<lambda>s.
     case find_file 0 (files s) of
       Some f \<Rightarrow> bindE (unlock FtableLock (upd_file f (\<lambda>x. x\<lparr>fref := 1\<rparr>) s)) (\<lambda>s. Ok (Some f, s))
     | None \<Rightarrow> bindE (unlock FtableLock s) (\<lambda>s. Ok (None, s)))"

definition filedup :: "nat \<Rightarrow> 'z filestate_scheme \<Rightarrow> (nat \<times> 'z filestate_scheme) res" where
  "filedup f s =
     bindE (lock FtableLock s) (\<lambda>s.
     if fref (the_file s f) < 1 then panic ''filedup''
     else bindE (unlock FtableLock (upd_file f (\<lambda>x. x\<lparr>fref := fref x + 1\<rparr>) s)) (\<lambda>s. Ok (f, s)))"

definition fileclose :: "nat \<Rightarrow> 'z filestate_scheme \<Rightarrow> 'z filestate_scheme res" where
  "fileclose f s =
     bindE (lock FtableLock s) (\<lambda>s.
     if fref (the_file s f) < 1 then panic ''fileclose''
     else
       let s = upd_file f (\<lambda>x. x\<lparr>fref := fref x - 1\<rparr>) s in
       if fref (the_file s f) > 0 then unlock FtableLock s
       else
         let ff = the_file s f;
             s = upd_file f (\<lambda>x. x\<lparr>fref := 0, ftype := FD_NONE\<rparr>) s
         in
         bindE (unlock FtableLock s) (\<lambda>s.
         case ftype ff of
           FD_PIPE \<Rightarrow> pipeclose (fpipe ff) (fwritable ff) s
         | FD_INODE \<Rightarrow> bindE (begin_op s) (\<lambda>s. bindE (iput (fip ff) s) end_op)
         | FD_NONE \<Rightarrow> Ok s))"

definition filestat :: "nat \<Rightarrow> 'z filestate_scheme \<Rightarrow> (fstat option \<times> 'z filestate_scheme) res" where
  "filestat f s =
     (if ftype (the_file s f) = FD_INODE then
        bindE (ilock (fip (the_file s f)) s) (\<lambda>s.
        let st = stati (fip (the_file s f)) s in
        bindE (iunlock (fip (the_file s f)) s) (\<lambda>s. Ok (Some st, s)))
      else Ok (None, s))"

definition fileread :: "'z filestate_scheme dev_read \<Rightarrow> nat \<Rightarrow> int \<Rightarrow> 'z filestate_scheme
    \<Rightarrow> ((int \<times> byte list) \<times> 'z filestate_scheme) res" where
  "fileread devsw f n s =
     (if \<not> freadable (the_file s f) then Ok ((-1, []), s)
      else case ftype (the_file s f) of
        FD_PIPE \<Rightarrow>
          bindE (piperead (fpipe (the_file s f)) n s) (\<lambda>(r, s).
          case r of RRet k bs \<Rightarrow> Ok ((k, bs), s) | RSleep \<Rightarrow> Inl Sleeps)
      | FD_INODE \<Rightarrow>
          bindE (ilock (fip (the_file s f)) s) (\<lambda>s.
          bindE (readi devsw (fip (the_file s f)) (foff (the_file s f)) (of_int n) s) (\<lambda>((r, bs), s).
          let s = (if r > 0 then upd_file f (\<lambda>x. x\<lparr>foff := foff x + of_int r\<rparr>) s else s) in
          bindE (iunlock (fip (the_file s f)) s) (\<lambda>s. Ok ((r, bs), s))))
      | FD_NONE \<Rightarrow> panic ''fileread'')"

text \<open>At most this many bytes per transaction.\<close>

definition fw_max :: nat where [simp]: "fw_max = ((10 - 1 - 1 - 2) div 2) * 512"

fun fwrite_loop :: "nat \<Rightarrow> 'z filestate_scheme dev_write \<Rightarrow> nat \<Rightarrow> byte list \<Rightarrow> 'z filestate_scheme
    \<Rightarrow> (bool \<times> 'z filestate_scheme) res" where
  "fwrite_loop 0 devsw f addr s = Inl Loops"
| "fwrite_loop (Suc k) devsw f addr s =
     (if addr \<noteq> [] then
        let n1 = (if length addr > fw_max then fw_max else length addr) in
        bindE (begin_op s) (\<lambda>s.
        bindE (ilock (fip (the_file s f)) s) (\<lambda>s.
        bindE (writei devsw (fip (the_file s f)) (take n1 addr) (foff (the_file s f)) s) (\<lambda>(r, s).
        let s = (if r > 0 then upd_file f (\<lambda>x. x\<lparr>foff := foff x + of_int r\<rparr>) s else s) in
        bindE (iunlock (fip (the_file s f)) s) (\<lambda>s.
        bindE (end_op s) (\<lambda>s.
        if r < 0 then Ok (False, s)
        else if r \<noteq> int n1 then panic ''short filewrite''
        else fwrite_loop k devsw f (drop n1 addr) s)))))
      else Ok (True, s))"

definition filewrite :: "'z filestate_scheme dev_write \<Rightarrow> nat \<Rightarrow> byte list \<Rightarrow> 'z filestate_scheme
    \<Rightarrow> (int \<times> 'z filestate_scheme) res" where
  "filewrite devsw f addr s =
     (if \<not> fwritable (the_file s f) then Ok (-1, s)
      else case ftype (the_file s f) of
        FD_PIPE \<Rightarrow>
          bindE (pipewrite (fpipe (the_file s f)) addr s) (\<lambda>(r, s).
          case r of WRet k \<Rightarrow> Ok (k, s) | WSleep _ \<Rightarrow> Inl Sleeps)
      | FD_INODE \<Rightarrow>
          bindE (fwrite_loop (Suc (length addr)) devsw f addr s) (\<lambda>(good, s).
          Ok (if good then int (length addr) else -1, s))
      | FD_NONE \<Rightarrow> panic ''filewrite'')"

section \<open>Making a pipe\<close>

definition close_opt :: "nat option \<Rightarrow> 'z filestate_scheme \<Rightarrow> 'z filestate_scheme res" where
  "close_opt f s = (case f of None \<Rightarrow> Ok s | Some i \<Rightarrow> fileclose i s)"

text \<open>The label \<open>bad\<close>; the pipe page is never allocated when it is reached.\<close>

definition pipealloc_bad :: "nat option \<Rightarrow> nat option \<Rightarrow> 'z filestate_scheme
    \<Rightarrow> ((nat \<times> nat) option \<times> 'z filestate_scheme) res" where
  "pipealloc_bad f0 f1 s =
     bindE (close_opt f0 s) (\<lambda>s. bindE (close_opt f1 s) (\<lambda>s. Ok (None, s)))"

definition pipealloc :: "'z filestate_scheme \<Rightarrow> ((nat \<times> nat) option \<times> 'z filestate_scheme) res" where
  "pipealloc s =
     bindE (filealloc s) (\<lambda>(f0, s).
     case f0 of
       None \<Rightarrow> pipealloc_bad None None s
     | Some a \<Rightarrow>
         bindE (filealloc s) (\<lambda>(f1, s).
         case f1 of
           None \<Rightarrow> pipealloc_bad f0 None s
         | Some b \<Rightarrow>
             bindE (kalloc s) (\<lambda>(p, s).
             if p = 0 then pipealloc_bad f0 f1 s
             else
               let s = upd_pipe p (\<lambda>x. x\<lparr>readopen := True, writeopen := True, nwrite := 0, nread := 0\<rparr>) s;
                   s = s\<lparr>hw := initlock (PipeLock p) ''pipe'' (hw s)\<rparr>;
                   s = upd_file a (\<lambda>x. x\<lparr>ftype := FD_PIPE, freadable := True, fwritable := False, fpipe := p\<rparr>) s;
                   s = upd_file b (\<lambda>x. x\<lparr>ftype := FD_PIPE, freadable := False, fwritable := True, fpipe := p\<rparr>) s
               in Ok (Some (a, b), s))))"

section \<open>Pipes are bounded queues\<close>

definition pipe_inv :: "pipe \<Rightarrow> bool" where
  "pipe_inv p \<longleftrightarrow> unat (nwrite p - nread p) \<le> 512"

definition pipe_cont :: "pipe \<Rightarrow> byte list" where
  "pipe_cont p = rlist PIPESIZE (pdata p) (nread p) (nwrite p)"

lemma pipe_full_iff: "pipe_full p \<longleftrightarrow> unat (nwrite p - nread p) = 512"
proof -
  have "pipe_full p \<longleftrightarrow> nwrite p - nread p = 512" by (auto simp: pipe_full_def diff_eq_eq add.commute)
  also have "\<dots> \<longleftrightarrow> unat (nwrite p - nread p) = 512" by (simp add: word_unat_eq_iff)
  finally show ?thesis .
qed

interpretation pipe_ring: ring PIPESIZE
  by unfold_locales simp

interpretation pq: bounded_queue pipe_full pipe_put "\<lambda>p. nread p = nwrite p" pipe_first pipe_drop
    pipe_inv pipe_cont 512
proof unfold_locales
  fix q :: pipe and x
  assume inv: "pipe_inv q"
  show "length (pipe_cont q) \<le> 512" using inv by (simp add: pipe_inv_def pipe_cont_def)
  show "pipe_full q \<longleftrightarrow> length (pipe_cont q) = 512" by (simp add: pipe_full_iff pipe_cont_def)
  show "nread q = nwrite q \<longleftrightarrow> pipe_cont q = []" by (simp add: pipe_cont_def)
  {
    assume "\<not> pipe_full q"
    then have lt: "unat (nwrite q - nread q) < unat PIPESIZE" using inv by (auto simp: pipe_full_iff pipe_inv_def)
    show c: "pipe_cont (pipe_put x q) = pipe_cont q @ [x]"
      using pipe_ring.put [OF lt] by (simp add: pipe_put_def pipe_cont_def)
    have "unat (nwrite (pipe_put x q) - nread (pipe_put x q)) = length (pipe_cont (pipe_put x q))"
      by (simp add: pipe_cont_def)
    then show "pipe_inv (pipe_put x q)" using lt unfolding pipe_inv_def c by (simp add: pipe_cont_def)
  }
  assume ne: "nread q \<noteq> nwrite q"
  show c: "pipe_cont q = pipe_first q # pipe_cont (pipe_drop q)"
    using rlist_first [of "nwrite q" "nread q" PIPESIZE "pdata q"] ne
    by (simp add: pipe_cont_def pipe_first_def pipe_drop_def)
  have "unat (nwrite (pipe_drop q) - nread (pipe_drop q)) = length (pipe_cont (pipe_drop q))"
    "unat (nwrite q - nread q) = length (pipe_cont q)"
    by (simp_all add: pipe_cont_def)
  then show "pipe_inv (pipe_drop q)" using inv c by (simp add: pipe_inv_def)
qed

text \<open>What a writer does that finds the pipe full, with \<open>bs\<close> left to write.\<close>

definition write_blocked :: "uint \<Rightarrow> byte list \<Rightarrow> 'z filestate_scheme \<Rightarrow> (wres option \<times> 'z filestate_scheme) res" where
  "write_blocked p bs s =
     bindE (if \<not> readopen (pipes s p) then Ok (True, s)
            else bindE (curproc s) (\<lambda>(i, s). Ok (killed (the_proc s i), s))) (\<lambda>(quit, s).
     if quit then bindE (unlock (PipeLock p) s) (\<lambda>s. Ok (Some (WRet (-1)), s))
     else bindE (wakeup (ChRead p) s) (\<lambda>s. Ok (Some (WSleep bs), s)))"

lemma pipewrite_loop_eq:
  "pipewrite_loop p bs s =
     (let (ys, q) = enq_all pipe_full pipe_put bs (pipes s p); t = s\<lparr>pipes := (pipes s)(p := q)\<rparr> in
      if ys = [] then Ok (None, t) else write_blocked p ys t)"
proof (induction bs arbitrary: s)
  case (Cons b bs)
  show ?case
  proof (cases "pipe_full (pipes s p)")
    case True
    then show ?thesis by (simp add: write_blocked_def del: fun_upd_apply)
  next
    case False
    obtain ys q where "enq_all pipe_full pipe_put bs (pipe_put b (pipes s p)) = (ys, q)" by fastforce
    with False show ?thesis using Cons.IH [of "upd_pipe p (pipe_put b) s"] by (simp add: upd_pipe_def fun_upd_same del: fun_upd_apply)
  qed
qed (simp del: fun_upd_apply)

lemma piperead_loop_eq:
  "piperead_loop p n s =
     (let (bs, q) = deq_all (\<lambda>p. nread p = nwrite p) pipe_first pipe_drop n (pipes s p) in
      (bs, s\<lparr>pipes := (pipes s)(p := q)\<rparr>))"
proof (induction n arbitrary: s)
  case (Suc n)
  obtain bs q where "deq_all (\<lambda>p. nread p = nwrite p) pipe_first pipe_drop n (pipe_drop (pipes s p)) = (bs, q)"
    by fastforce
  then show ?case using Suc.IH [of "upd_pipe p pipe_drop s"]
    by (cases "nread (pipes s p) = nwrite (pipes s p)") (simp_all add: upd_pipe_def fun_upd_same del: fun_upd_apply)
qed (simp del: fun_upd_apply)

text \<open>The conditions under which a call on a pipe runs to its end: the locks it takes are free,
  and a process is running.\<close>

definition pipe_ready :: "uint \<Rightarrow> nat \<Rightarrow> 'z filestate_scheme \<Rightarrow> bool" where
  "pipe_ready p i s \<longleftrightarrow> hw_ok (hw s) \<and> lock_free (PipeLock p) (hw s) \<and> lock_free PtableLock (hw s)
     \<and> running s = Some i \<and> pipe_inv (pipes s p)"

lemma wakeup1_pipes [simp]: "pipes (wakeup1 c s) = pipes s"
  by (simp add: wakeup1_def)

text \<open>Inside the section of the pipe's lock, \<open>wakeup\<close> runs and the lock is given back.\<close>

lemma pipe_section:
  fixes s t :: "'z filestate_scheme"
  assumes "pipe_ready p i s" "hw t = acquired (mem s) (PipeLock p) (hw s)"
  shows "\<exists>h. wakeup c t = Ok ((wakeup1 c t)\<lparr>hw := h\<rparr>) \<and> hw_same (hw t) h"
    and "hw_same (hw t) (hw u) \<Longrightarrow> \<exists>h. unlock (PipeLock p) u = Ok (u\<lparr>hw := h\<rparr>) \<and> hw_same (hw s) h"
    and "curproc t = Ok (i, t)"
    and "lock_mine (PipeLock p) (hw t)"
proof -
  let ?h = "acquired (mem s) (PipeLock p) (hw s)"
  have ok: "hw_ok (hw s)" "lock_free (PipeLock p) (hw s)" "lock_free PtableLock (hw s)" "running s = Some i"
    using assms(1) by (simp_all add: pipe_ready_def)
  have h: "hw_ok ?h" "0 < depth ?h" "lock_free PtableLock ?h" "lock_mine (PipeLock p) ?h"
    using acquired_state [OF ok(1)] ok(3) by simp_all
  show "\<exists>h. wakeup c t = Ok ((wakeup1 c t)\<lparr>hw := h\<rparr>) \<and> hw_same (hw t) h"
    using wakeup_ok [of t c] hw_same_cycled [of "hw t" PtableLock "mem t"] h assms(2) by auto
  show "\<exists>h. unlock (PipeLock p) u = Ok (u\<lparr>hw := h\<rparr>) \<and> hw_same (hw s) h" if "hw_same (hw t) (hw u)"
    using unlock_same [OF ok(1,2), of "mem s" u] that assms(2) by auto
  have "running t = Some i" using ok(1,4) assms(2) by simp
  moreover have "t\<lparr>hw := peeked (hw t)\<rparr> = t" using peeked_nested h(2) assms(2) by simp
  ultimately show "curproc t = Ok (i, t)" using curproc_ok [of t] h(1) assms(2) by simp
  show "lock_mine (PipeLock p) (hw t)" using h(4) assms(2) by simp
qed

text \<open>A pipe whose counters are about to wrap, as the examples use it.\<close>

definition demo_pipe :: pipe where
  "demo_pipe = \<lparr>pdata = (\<lambda>_. 0), nread = -1, nwrite = -1, readopen = True, writeopen = True\<rparr>"

definition demo_file :: filestate where
  "demo_file = fstate.extend demo_fs (filestate.fields [] (\<lambda>_. demo_pipe))"

lemma demo_file_sel [simp]:
  "hw demo_file = run_hw" "procs demo_file = demo_proc # replicate 63 idle_proc"
  "pipes demo_file p = demo_pipe"
  using demo_fs_sel by (simp_all add: demo_file_def fstate.defs filestate.defs)

lemma demo_pipe_ready: "pipe_ready p 0 demo_file"
  using run_hw_ok run_hw_free demo_file_sel by (simp add: pipe_ready_def pipe_inv_def demo_pipe_def)

text \<open>C21: a pipe is a first-in first-out queue of 512 bytes, on the side of the writer. The
  bytes that fit are appended in order and the others are not lost: either everything was
  written and the count is returned, or the writer goes to sleep with the rest, or, when
  the read end is closed or the process was killed, the call fails. A reader that sleeps on the
  pipe is woken in the first two cases, and other pipes are not touched. The counters may
  wrap.\<close>

theorem pipewrite_spec:
  fixes s :: "'z filestate_scheme"
  assumes ready: "pipe_ready p i s"
  defines "c \<equiv> pipe_cont (pipes s p)"
  defines "k \<equiv> 512 - length c"
  shows "\<exists>r t. pipewrite p bs s = Ok (r, t) \<and> pipe_inv (pipes t p)
     \<and> pipe_cont (pipes t p) = c @ take k bs \<and> (\<forall>q. q \<noteq> p \<longrightarrow> pipes t q = pipes s q)
     \<and> (if length bs \<le> k then r = WRet (int (length bs)) \<and> hw_same (hw s) (hw t) \<and> awake (ChRead p) t
        else if \<not> readopen (pipes t p) \<or> killed (the_proc s i) then r = WRet (-1) \<and> hw_same (hw s) (hw t)
        else r = WSleep (drop k bs) \<and> lock_mine (PipeLock p) (hw t) \<and> awake (ChRead p) t)"
proof -
  obtain ys q where e: "enq_all pipe_full pipe_put bs (pipes s p) = (ys, q)" by fastforce
  then have q: "pipe_inv q" "ys = drop k bs" "pipe_cont q = c @ take k bs"
    using pq.enq_all_spec ready by (auto simp: pipe_ready_def c_def k_def)
  let ?h = "acquired (mem s) (PipeLock p) (hw s)"
  let ?t = "s\<lparr>hw := ?h, pipes := (pipes s)(p := q)\<rparr>"
  have lock: "lock (PipeLock p) s = Ok (s\<lparr>hw := ?h\<rparr>)" using ready by (simp add: pipe_ready_def hw_simps)
  note sec = pipe_section [OF ready, of ?t]
  have loop: "pipewrite_loop p bs (s\<lparr>hw := ?h\<rparr>) = (if ys = [] then Ok (None, ?t) else write_blocked p ys ?t)"
    using e by (simp add: pipewrite_loop_eq)
  obtain h where h: "wakeup (ChRead p) ?t = Ok ((wakeup1 (ChRead p) ?t)\<lparr>hw := h\<rparr>)" "hw_same ?h h"
    using sec(1) by auto
  obtain g where g: "unlock (PipeLock p) ((wakeup1 (ChRead p) ?t)\<lparr>hw := h\<rparr>) = Ok ((wakeup1 (ChRead p) ?t)\<lparr>hw := g\<rparr>)"
    "hw_same (hw s) g" using sec(2) [of "(wakeup1 (ChRead p) ?t)\<lparr>hw := h\<rparr>"] h(2) by auto
  obtain g' where g': "unlock (PipeLock p) ?t = Ok (?t\<lparr>hw := g'\<rparr>)" "hw_same (hw s) g'" using sec(2) [of ?t] by auto
  have mine: "lock_mine (PipeLock p) h" using sec(4) hw_same_mine [OF h(2)] by simp
  have len: "ys = [] \<longleftrightarrow> length bs \<le> k" using q(2) by simp
  show ?thesis
  proof (cases "ys = []")
    case True
    then have "pipewrite p bs s = Ok (WRet (int (length bs)), (wakeup1 (ChRead p) ?t)\<lparr>hw := g\<rparr>)"
      unfolding pipewrite_def lock bindE_Ok loop by (simp add: h(1) g(1))
    with True q g(2) len show ?thesis by simp
  next
    case False
    then have run: "pipewrite p bs s = bindE (write_blocked p ys ?t) (\<lambda>(r, s). Ok (the r, s))"
      unfolding pipewrite_def lock bindE_Ok loop
      by (auto simp: write_blocked_def sec(3) h(1) g'(1) split: if_splits)
    show ?thesis
    proof (cases "\<not> readopen q \<or> killed (the_proc s i)")
      case True
      then have "pipewrite p bs s = Ok (WRet (-1), ?t\<lparr>hw := g'\<rparr>)"
        unfolding run by (auto simp: write_blocked_def sec(3) g'(1))
      with True False q g'(2) len show ?thesis by simp
    next
      case ok: False
      then have "pipewrite p bs s = Ok (WSleep ys, (wakeup1 (ChRead p) ?t)\<lparr>hw := h\<rparr>)"
        unfolding run by (simp add: write_blocked_def sec(3) h(1))
      with ok False q mine len show ?thesis by simp
    qed
  qed
qed

theorem pipewrite_spec_witness:
  "pipe_ready 7 0 demo_file \<and> (\<exists>t. pipewrite 7 [1, 2, 3] demo_file = Ok (WRet 3, t) \<and> pipe_cont (pipes t 7) = [1, 2, 3])"
  using pipewrite_spec [OF demo_pipe_ready, of 7 "[1, 2, 3]"] demo_pipe_ready
  by (auto simp: pipe_cont_def demo_pipe_def)

text \<open>C22: the reader's side. Reading takes the oldest bytes, in order, at most as many as asked
  for, and leaves the others; an empty pipe with its write end closed reads 0 bytes, one with
  its write end open makes the reader sleep, or fail if it was killed.\<close>

theorem piperead_spec:
  fixes s :: "'z filestate_scheme"
  assumes ready: "pipe_ready p i s"
  defines "c \<equiv> pipe_cont (pipes s p)"
  shows "\<exists>r t. piperead p n s = Ok (r, t) \<and> pipe_inv (pipes t p)
     \<and> (\<forall>q. q \<noteq> p \<longrightarrow> pipes t q = pipes s q)
     \<and> (if c = [] \<and> writeopen (pipes s p) then
          pipe_cont (pipes t p) = [] \<and>
          (if killed (the_proc s i) then r = RRet (-1) [] \<and> hw_same (hw s) (hw t)
           else r = RSleep \<and> lock_mine (PipeLock p) (hw t))
        else r = RRet (int (length (take (nat n) c))) (take (nat n) c) \<and> pipe_cont (pipes t p) = drop (nat n) c
          \<and> hw_same (hw s) (hw t) \<and> awake (ChWrite p) t)"
proof -
  obtain bs q where e: "deq_all (\<lambda>p. nread p = nwrite p) pipe_first pipe_drop (nat n) (pipes s p) = (bs, q)" by fastforce
  have inv: "pipe_inv (pipes s p)" using ready by (simp add: pipe_ready_def)
  from pq.deq_all_spec [OF this e] have q: "pipe_inv q" "bs = take (nat n) c" "pipe_cont q = drop (nat n) c"
    by (simp_all add: c_def)
  have emp: "nread (pipes s p) = nwrite (pipes s p) \<longleftrightarrow> c = []" using pq.emp_iff [OF inv] by (simp add: c_def)
  let ?h = "acquired (mem s) (PipeLock p) (hw s)"
  let ?t = "s\<lparr>hw := ?h, pipes := (pipes s)(p := q)\<rparr>"
  have lock: "lock (PipeLock p) s = Ok (s\<lparr>hw := ?h\<rparr>)" using ready by (simp add: pipe_ready_def hw_simps)
  note sec = pipe_section [OF ready, of ?t] and sec' = pipe_section [OF ready, of "s\<lparr>hw := ?h\<rparr>"]
  have loop: "piperead_loop p (nat n) (s\<lparr>hw := ?h\<rparr>) = (bs, ?t)"
    using e by (simp add: piperead_loop_eq)
  obtain h where h: "wakeup (ChWrite p) ?t = Ok ((wakeup1 (ChWrite p) ?t)\<lparr>hw := h\<rparr>)" "hw_same ?h h"
    using sec(1) by auto
  obtain g where g: "unlock (PipeLock p) ((wakeup1 (ChWrite p) ?t)\<lparr>hw := h\<rparr>) = Ok ((wakeup1 (ChWrite p) ?t)\<lparr>hw := g\<rparr>)"
    "hw_same (hw s) g" using sec(2) [of "(wakeup1 (ChWrite p) ?t)\<lparr>hw := h\<rparr>"] h(2) by auto
  obtain g' where g': "unlock (PipeLock p) (s\<lparr>hw := ?h\<rparr>) = Ok (s\<lparr>hw := g'\<rparr>)" "hw_same (hw s) g'"
    using sec'(2) [of "s\<lparr>hw := ?h\<rparr>"] by auto
  show ?thesis
  proof (cases "c = [] \<and> writeopen (pipes s p)")
    case True
    then have run: "piperead p n s = (if killed (the_proc s i) then Ok (RRet (-1) [], s\<lparr>hw := g'\<rparr>)
        else Ok (RSleep, s\<lparr>hw := ?h\<rparr>))"
      unfolding piperead_def lock bindE_Ok by (simp add: emp sec'(3) g'(1))
    show ?thesis
      using True run sec'(4) g'(2) inv by (simp add: c_def)
  next
    case False
    then have "piperead p n s = Ok (RRet (int (length bs)) bs, (wakeup1 (ChWrite p) ?t)\<lparr>hw := g\<rparr>)"
      unfolding piperead_def lock bindE_Ok using emp by (auto simp: loop h(1) g(1))
    with False q g(2) show ?thesis by simp
  qed
qed

theorem piperead_spec_witness:
  "pipe_ready 7 0 demo_file \<and> (\<exists>t. piperead 7 5 demo_file = Ok (RSleep, t) \<and> lock_mine (PipeLock 7) (hw t))"
  using piperead_spec [OF demo_pipe_ready, of 7 5] demo_pipe_ready
  by (auto simp: pipe_cont_def demo_pipe_def demo_proc_def)

end
