(* ===== verification/Proc.thy ===== *)
theory Proc
  imports File
begin

text \<open>
  The part of \<open>proc.c\<close> above the file system: the first process, growth, \<open>fork\<close>, \<open>exit\<close>,
  \<open>wait\<close>, and the page counts of a process. \<open>exit\<close> ends in \<open>sched\<close> and does not come
  back; \<open>exit_out\<close> is its effect up to the switch. One pass of the loop of \<open>wait\<close> is
  \<open>wait_pass\<close>, which either returns or is about to sleep.
\<close>

section \<open>State\<close>

record procst = filestate +
  first :: bool
  initcode_start :: uint
  initcode_size :: uint

definition SEG_UCODE :: ushort where [simp]: "SEG_UCODE = 3"
definition SEG_UDATA :: ushort where [simp]: "SEG_UDATA = 4"
definition DPL_USER :: ushort where [simp]: "DPL_USER = 3"
definition FL_IF :: uint where [simp]: "FL_IF = 0x200"

section \<open>The first process\<close>

definition initcode_name :: "byte list" where
  "initcode_name = [105, 110, 105, 116, 99, 111, 100, 101]"

definition init_tf :: "uint \<Rightarrow> memory \<Rightarrow> memory" where
  "init_tf t m =
     (let m = memset m t 0 TF_SIZE;
          m = store16 m (t + TF_CS) (push_bit 3 SEG_UCODE OR DPL_USER);
          m = store16 m (t + TF_DS) (push_bit 3 SEG_UDATA OR DPL_USER);
          m = store16 m (t + TF_ES) (load16 m (t + TF_DS));
          m = store16 m (t + TF_SS) (load16 m (t + TF_DS));
          m = store32 m (t + TF_EFLAGS) FL_IF;
          m = store32 m (t + TF_ESP) PGSIZE
      in store32 m (t + TF_EIP) 0)"

definition userinit :: "'z procst_scheme \<Rightarrow> 'z procst_scheme res" where
  "userinit s =
     bindE (allocproc s) (\<lambda>(p, s).
     let s = s\<lparr>initproc := p\<rparr> in
     case p of
       None \<Rightarrow> Inl Undef
     | Some i \<Rightarrow>
         bindE (setupkvm s) (\<lambda>(d, s).
         let s = upd_proc i (\<lambda>x. x\<lparr>pgdir := d\<rparr>) s in
         if d = 0 then panic ''userinit: out of memory?''
         else
           bindE (inituvm d (initcode_start s) (initcode_size s) s) (\<lambda>s.
           let s = upd_proc i (\<lambda>x. x\<lparr>sz := PGSIZE\<rparr>) s;
               s = s\<lparr>mem := init_tf (tf (the_proc s i)) (mem s)\<rparr>;
               s = upd_proc i (\<lambda>x. x\<lparr>pname := initcode_name\<rparr>) s
           in
           bindE (namei [slash] s) (\<lambda>(ip, s).
           let s = upd_proc i (\<lambda>x. x\<lparr>cwd := ip\<rparr>) s in
           bindE (lock PtableLock s) (\<lambda>s.
           unlock PtableLock (upd_proc i (\<lambda>x. x\<lparr>pstate := RUNNABLE\<rparr>) s))))))"

definition forkret_run :: "'z procst_scheme \<Rightarrow> 'z procst_scheme res" where
  "forkret_run s =
     bindE (unlock PtableLock s) (\<lambda>s.
     if first s then
       let s = s\<lparr>first := False\<rparr> in
       bindE (iinit ROOTDEV s) (initlog ROOTDEV)
     else Ok s)"

section \<open>Growing\<close>

definition growproc :: "int \<Rightarrow> 'z procst_scheme \<Rightarrow> (int \<times> 'z procst_scheme) res" where
  "growproc n s =
     bindE (curproc s) (\<lambda>(p, s).
     let z = sz (the_proc s p); d = pgdir (the_proc s p) in
     bindE (if n > 0 then
              bindE (allocuvm d z (z + of_int n) s) (\<lambda>(z, s). Ok (if z = 0 then None else Some z, s))
            else if n < 0 then
              bindE (deallocuvm d z (z + of_int n) s) (\<lambda>(z, s). Ok (if z = 0 then None else Some z, s))
            else Ok (Some z, s)) (\<lambda>(r, s).
     case r of
       None \<Rightarrow> Ok (-1, s)
     | Some z \<Rightarrow>
         bindE (switchuvm (Some p) (upd_proc p (\<lambda>x. x\<lparr>sz := z\<rparr>) s)) (\<lambda>s. Ok (0, s))))"

section \<open>fork\<close>

primrec dup_files :: "nat list \<Rightarrow> nat \<Rightarrow> nat \<Rightarrow> 'z filestate_scheme \<Rightarrow> 'z filestate_scheme res" where
  "dup_files [] p np s = Ok s"
| "dup_files (i # is) p np s =
     (case ofile (the_proc s p) ! i of
        None \<Rightarrow> dup_files is p np s
      | Some f \<Rightarrow>
          bindE (filedup f s) (\<lambda>(f, s).
          dup_files is p np (upd_proc np (\<lambda>x. x\<lparr>ofile := (ofile x)[i := Some f]\<rparr>) s)))"

text \<open>Process names have room for 15 characters.\<close>

definition fork :: "'z procst_scheme \<Rightarrow> (int \<times> 'z procst_scheme) res" where
  "fork s =
     bindE (curproc s) (\<lambda>(p, s).
     bindE (allocproc s) (\<lambda>(np, s).
     case np of
       None \<Rightarrow> Ok (-1, s)
     | Some np \<Rightarrow>
         bindE (copyuvm (pgdir (the_proc s p)) (sz (the_proc s p)) s) (\<lambda>(d, s).
         let s = upd_proc np (\<lambda>x. x\<lparr>pgdir := d\<rparr>) s in
         if d = 0 then
           bindE (kfree (kstack (the_proc s np)) s) (\<lambda>s.
           Ok (-1, upd_proc np (\<lambda>x. x\<lparr>kstack := 0, pstate := UNUSED\<rparr>) s))
         else
           let s = upd_proc np (\<lambda>x. x\<lparr>sz := sz (the_proc s p), parent := Some p\<rparr>) s;
               s = s\<lparr>mem := memmove (mem s) (tf (the_proc s np)) (tf (the_proc s p)) TF_SIZE\<rparr>;
               s = s\<lparr>mem := store32 (mem s) (tf (the_proc s np) + TF_EAX) 0\<rparr>
           in
           bindE (dup_files [0..<NOFILE] p np s) (\<lambda>s.
           case cwd (the_proc s p) of
             None \<Rightarrow> Inl Undef
           | Some c \<Rightarrow>
               bindE (idup c s) (\<lambda>(c, s).
               let s = upd_proc np (\<lambda>x. x\<lparr>cwd := Some c, pname := take 15 (pname (the_proc s p))\<rparr>) s;
                   n = pid (the_proc s np)
               in
               bindE (lock PtableLock s) (\<lambda>s.
               bindE (unlock PtableLock (upd_proc np (\<lambda>x. x\<lparr>pstate := RUNNABLE\<rparr>) s)) (\<lambda>s.
               Ok (n, s))))))))"

section \<open>exit and wait\<close>

primrec close_files :: "nat list \<Rightarrow> nat \<Rightarrow> 'z filestate_scheme \<Rightarrow> 'z filestate_scheme res" where
  "close_files [] p s = Ok s"
| "close_files (i # is) p s =
     (case ofile (the_proc s p) ! i of
        None \<Rightarrow> close_files is p s
      | Some f \<Rightarrow>
          bindE (fileclose f s) (\<lambda>s.
          close_files is p (upd_proc p (\<lambda>x. x\<lparr>ofile := (ofile x)[i := None]\<rparr>) s)))"

text \<open>Abandoned children go to \<open>initproc\<close>, which is woken for each zombie among them.\<close>

primrec reparent :: "nat list \<Rightarrow> nat \<Rightarrow> 'z pstate_scheme \<Rightarrow> 'z pstate_scheme" where
  "reparent [] p s = s"
| "reparent (i # is) p s =
     (if parent (the_proc s i) = Some p then
        let s = upd_proc i (\<lambda>x. x\<lparr>parent := initproc s\<rparr>) s;
            s = (if pstate (the_proc s i) = ZOMBIE then
                   (case initproc s of Some ip \<Rightarrow> wakeup1 (ChProc ip) s | None \<Rightarrow> s) else s)
        in reparent is p s
      else reparent is p s)"

definition exit_out :: "'z procst_scheme \<Rightarrow> (bool \<times> 'z procst_scheme) res" where
  "exit_out s =
     bindE (curproc s) (\<lambda>(p, s).
     if Some p = initproc s then panic ''init exiting''
     else
       bindE (close_files [0..<NOFILE] p s) (\<lambda>s.
       bindE (begin_op s) (\<lambda>s.
       case cwd (the_proc s p) of
         None \<Rightarrow> Inl Undef
       | Some c \<Rightarrow>
           bindE (iput c s) (\<lambda>s.
           bindE (end_op s) (\<lambda>s.
           let s = upd_proc p (\<lambda>x. x\<lparr>cwd := None\<rparr>) s in
           bindE (lock PtableLock s) (\<lambda>s.
           let s = (case parent (the_proc s p) of Some q \<Rightarrow> wakeup1 (ChProc q) s | None \<Rightarrow> s);
               s = reparent [0..<length (procs s)] p s;
               s = upd_proc p (\<lambda>x. x\<lparr>pstate := ZOMBIE\<rparr>) s
           in sched_out s))))))"

datatype wait_res = WaitRet int | WaitSleep

text \<open>The scan of the table for a child: whether there is any, and the first zombie.\<close>

fun wait_scan :: "nat \<Rightarrow> proc list \<Rightarrow> nat \<Rightarrow> bool \<Rightarrow> bool \<times> nat option" where
  "wait_scan i [] p havekids = (havekids, None)"
| "wait_scan i (x # xs) p havekids =
     (if parent x \<noteq> Some p then wait_scan (Suc i) xs p havekids
      else if pstate x = ZOMBIE then (True, Some i)
      else wait_scan (Suc i) xs p True)"

definition wait_pass :: "nat \<Rightarrow> 'z pstate_scheme \<Rightarrow> (wait_res \<times> 'z pstate_scheme) res" where
  "wait_pass p s =
     (case wait_scan 0 (procs s) p False of
        (_, Some i) \<Rightarrow>
          let n = pid (the_proc s i) in
          bindE (kfree (kstack (the_proc s i)) s) (\<lambda>s.
          let s = upd_proc i (\<lambda>x. x\<lparr>kstack := 0\<rparr>) s in
          bindE (freevm (pgdir (the_proc s i)) s) (\<lambda>s.
          let s = upd_proc i (\<lambda>x. x\<lparr>pid := 0, parent := None, pname := [], killed := False, pstate := UNUSED\<rparr>) s in
          bindE (unlock PtableLock s) (\<lambda>s. Ok (WaitRet n, s))))
      | (havekids, None) \<Rightarrow>
          if \<not> havekids \<or> killed (the_proc s p) then
            bindE (unlock PtableLock s) (\<lambda>s. Ok (WaitRet (-1), s))
          else Ok (WaitSleep, s))"

definition wait :: "'z pstate_scheme \<Rightarrow> (wait_res \<times> 'z pstate_scheme) res" where
  "wait s =
     bindE (curproc s) (\<lambda>(p, s).
     bindE (lock PtableLock s) (wait_pass p))"

section \<open>Page counts\<close>

definition countvp :: "'z pstate_scheme \<Rightarrow> (int \<times> 'z pstate_scheme) res" where
  "countvp s = bindE (curproc s) (\<lambda>(p, s). Ok (sint (drop_bit PGSHIFT (sz (the_proc s p))), s))"

text \<open>The inner loop over the entries of one table returns early at the end of the process;
  the result says whether it did.\<close>

fun pp_inner :: "nat list \<Rightarrow> nat \<Rightarrow> uint \<Rightarrow> uint \<Rightarrow> memory \<Rightarrow> int \<Rightarrow> bool \<times> int" where
  "pp_inner [] i t psz m ret = (False, ret)"
| "pp_inner (j # js) i t psz m ret =
     (if of_nat (i * NPDENTRIES + j) * PGSIZE \<ge> psz then (True, ret)
      else pp_inner js i t psz m
        (if load32 m (entry t (of_nat j)) AND PTE_P \<noteq> 0 then ret + 1 else ret))"

fun pp_outer :: "nat list \<Rightarrow> uint \<Rightarrow> uint \<Rightarrow> memory \<Rightarrow> int \<Rightarrow> int" where
  "pp_outer [] d psz m ret = ret"
| "pp_outer (i # is) d psz m ret =
     (let e = load32 m (entry d (of_nat i)) in
      if e AND PTE_P \<noteq> 0 then
        case pp_inner [0..<NPTENTRIES] i (P2V (PTE_ADDR e)) psz m ret of
          (True, ret) \<Rightarrow> ret
        | (False, ret) \<Rightarrow> pp_outer is d psz m ret
      else pp_outer is d psz m ret)"

definition countpp :: "'z pstate_scheme \<Rightarrow> (int \<times> 'z pstate_scheme) res" where
  "countpp s =
     bindE (curproc s) (\<lambda>(p, s).
     let d = pgdir (the_proc s p); psz = sz (the_proc s p) in
     Ok (if d = 0 then 0 else pp_outer [0..<NPDENTRIES] d psz (mem s) 0, s))"

definition countptp :: "'z pstate_scheme \<Rightarrow> (int \<times> 'z pstate_scheme) res" where
  "countptp s =
     bindE (curproc s) (\<lambda>(p, s).
     let d = pgdir (the_proc s p) in
     Ok (if d = 0 then 0
         else 1 + int (length (filter (\<lambda>i. load32 (mem s) (entry d (of_nat i)) AND PTE_P \<noteq> 0) [0..<NPDENTRIES])), s))"

end
