(* ===== verification/Syscall.thy ===== *)
theory Syscall
  imports Proc
begin

text \<open>
  Access to user memory and the fetching of system call arguments, \<open>syscall.c\<close>.

  The kernel runs on the page table of the current process, so a user address is read and
  written through it. A write to a page mapped read-only faults also in the kernel (the
  write-protect bit is on), and the fault handler is \<open>CoW_handler\<close>. An access to an
  address without a mapping is the outcome \<open>Undef\<close>.

  A routine that returns a status and stores a value through a pointer returns an option
  here, \<open>None\<close> for the status -1.
\<close>

section \<open>User memory\<close>

text \<open>These are the accesses of the kernel, in supervisor mode, where the processor does not look at the user bit of an entry. The
  accesses of a program in user mode, which it checks, are \<open>user_load\<close> and \<open>user_store\<close> of \<open>Isolation\<close>.\<close>

definition page_off :: "uint \<Rightarrow> uint" where
  "page_off va = va AND 0xFFF"

definition uload :: "uint \<Rightarrow> uint \<Rightarrow> 'z kstate_scheme \<Rightarrow> byte res" where
  "uload d va s =
     (let e = pte_at (mem s) d va in
      if present e then Ok (mem s (frame_of e + page_off va)) else Inl Undef)"

definition ustore :: "uint \<Rightarrow> uint \<Rightarrow> byte \<Rightarrow> 'z vstate_scheme \<Rightarrow> 'z vstate_scheme res" where
  "ustore d va b s =
     (let e = pte_at (mem s) d va in
      if \<not> present e then Inl Undef
      else if writable e then Ok (s\<lparr>mem := (mem s)(frame_of e + page_off va := b)\<rparr>)
      else
        bindE (CoW_handler d va s) (\<lambda>(gone, s).
        let e = pte_at (mem s) d va in
        if gone \<or> \<not> present e \<or> \<not> writable e then Inl Undef
        else Ok (s\<lparr>mem := (mem s)(frame_of e + page_off va := b)\<rparr>)))"

primrec ustores :: "uint \<Rightarrow> uint \<Rightarrow> byte list \<Rightarrow> 'z vstate_scheme \<Rightarrow> 'z vstate_scheme res" where
  "ustores d va [] s = Ok s"
| "ustores d va (b # bs) s = bindE (ustore d va b s) (ustores d (va + 1) bs)"

fun uloads :: "uint \<Rightarrow> uint \<Rightarrow> nat \<Rightarrow> 'z kstate_scheme \<Rightarrow> byte list res" where
  "uloads d va 0 s = Ok []"
| "uloads d va (Suc n) s =
     bindE (uload d va s) (\<lambda>b. bindE (uloads d (va + 1) n s) (\<lambda>bs. Ok (b # bs)))"

definition word_of :: "byte list \<Rightarrow> uint" where
  "word_of bs = load32 (\<lambda>i. bs ! unat i) 0"

definition bytes_of :: "uint \<Rightarrow> byte list" where
  "bytes_of w = [ucast w, ucast (drop_bit 8 w), ucast (drop_bit 16 w), ucast (drop_bit 24 w)]"

section \<open>Arguments\<close>

definition fetchint :: "uint \<Rightarrow> 'z pstate_scheme \<Rightarrow> (uint option \<times> 'z pstate_scheme) res" where
  "fetchint addr s =
     bindE (curproc s) (\<lambda>(p, s).
     let x = the_proc s p in
     if addr \<ge> sz x \<or> addr + 4 > sz x then Ok (None, s)
     else bindE (uloads (pgdir x) addr 4 s) (\<lambda>bs. Ok (Some (word_of bs), s)))"

fun str_loop :: "nat \<Rightarrow> uint \<Rightarrow> uint \<Rightarrow> uint \<Rightarrow> 'z kstate_scheme \<Rightarrow> byte list option res" where
  "str_loop 0 d a ep s = Ok None"
| "str_loop (Suc k) d a ep s =
     (if a < ep then
        bindE (uload d a s) (\<lambda>b.
        if b = 0 then Ok (Some [])
        else bindE (str_loop k d (a + 1) ep s) (\<lambda>r. Ok (map_option (\<lambda>bs. b # bs) r)))
      else Ok None)"

text \<open>The string itself stands for the pointer to it; its length is the result.\<close>

definition fetchstr :: "uint \<Rightarrow> 'z pstate_scheme \<Rightarrow> (byte list option \<times> 'z pstate_scheme) res" where
  "fetchstr addr s =
     bindE (curproc s) (\<lambda>(p, s).
     let x = the_proc s p in
     if addr \<ge> sz x then Ok (None, s)
     else bindE (str_loop (unat (sz x)) (pgdir x) addr (sz x) s) (\<lambda>r. Ok (r, s)))"

definition argint :: "nat \<Rightarrow> 'z pstate_scheme \<Rightarrow> (uint option \<times> 'z pstate_scheme) res" where
  "argint n s =
     bindE (curproc s) (\<lambda>(p, s).
     fetchint (load32 (mem s) (tf (the_proc s p) + TF_ESP) + 4 + 4 * of_nat n) s)"

definition argptr :: "nat \<Rightarrow> int \<Rightarrow> 'z pstate_scheme \<Rightarrow> (uint option \<times> 'z pstate_scheme) res" where
  "argptr n k s =
     bindE (curproc s) (\<lambda>(p, s).
     bindE (argint n s) (\<lambda>(r, s).
     case r of
       None \<Rightarrow> Ok (None, s)
     | Some i \<Rightarrow>
         if k < 0 \<or> i \<ge> sz (the_proc s p) \<or> i + of_int k > sz (the_proc s p) then Ok (None, s)
         else Ok (Some i, s)))"

definition argstr :: "nat \<Rightarrow> 'z pstate_scheme \<Rightarrow> (byte list option \<times> 'z pstate_scheme) res" where
  "argstr n s =
     bindE (argint n s) (\<lambda>(r, s).
     case r of None \<Rightarrow> Ok (None, s) | Some addr \<Rightarrow> fetchstr addr s)"

text \<open>The next step of a routine whose failing steps return -1.\<close>

definition orfail :: "('a option \<times> 's) res \<Rightarrow> ('a \<Rightarrow> 's \<Rightarrow> (int \<times> 's) res) \<Rightarrow> (int \<times> 's) res" where
  "orfail m f = bindE m (\<lambda>(r, s). case r of None \<Rightarrow> Ok (-1, s) | Some x \<Rightarrow> f x s)"

end
