(* ===== verification/Isolation.thy ===== *)
theory Isolation
  imports Cow Syscall
begin

text \<open>
  What the copy-on-write layer promises to the processes: the fault handler, the sharing of
  pages by \<open>copyuvm\<close>, the release of pages by \<open>deallocuvm\<close> and stores to user memory.

  The lemmas of \<open>Cow\<close> are put together to statements on the operations of \<open>vm.c\<close>. A small
  state with two address spaces that share two pages, and a third that is empty, gives the
  examples.
\<close>

unbundle bit_operations_syntax

section \<open>An example\<close>

definition demo_shm :: memory where
  "demo_shm =
     store32 (store32 (store32 (store32 (store32 (store32 demo_mem
       (entry 0x80400000 0) 0x420007) (entry 0x80410000 0) 0x430007)
       (entry 0x80420000 0) 0x440005) (entry 0x80420000 1) 0x450001)
       (entry 0x80430000 0) 0x440005) (entry 0x80430000 1) 0x450001"

definition demo_refs :: "uint \<Rightarrow> int" where
  "demo_refs i = (if i \<in> {0x400, 0x410, 0x420, 0x430, 0x460} then 1 else if i \<in> {0x440, 0x450} then 2 else 0)"

definition demo_v :: vstate where
  "demo_v = kstate.extend (demo_k\<lparr>mem := demo_shm, refc_cnt := demo_refs\<rparr>) (vstate.fields 0x80108000 0 0 [])"

abbreviation demo_D :: "uint set" where
  "demo_D \<equiv> {0x80400000, 0x80410000, 0x80460000}"

lemma load32_store32_if:
  "word_aligned a \<Longrightarrow> word_aligned b \<Longrightarrow> load32 (store32 m a v) b = (if a = b then v else load32 m b)"
  by (simp add: load32_store32_other)

lemma demo_shm_load:
  assumes "page_aligned p" "idx i"
  shows "load32 demo_shm (entry p i) =
     (if p = 0x80400000 \<and> i = 0 then 0x420007 else if p = 0x80410000 \<and> i = 0 then 0x430007
      else if p = 0x80420000 \<and> i = 0 then 0x440005 else if p = 0x80420000 \<and> i = 1 then 0x450001
      else if p = 0x80430000 \<and> i = 0 then 0x440005 else if p = 0x80430000 \<and> i = 1 then 0x450001
      else load32 demo_mem (entry p i))"
proof -
  have al: "page_aligned 0x80400000" "page_aligned 0x80410000" "page_aligned 0x80420000" "page_aligned 0x80430000" "idx 0" "idx 1"
    by (simp_all add: page_aligned_def idx_def)
  show ?thesis unfolding demo_shm_def using assms al by (simp add: load32_store32_if entry_inj)
qed

lemma demo_mem_load: "word_aligned b \<Longrightarrow> load32 demo_mem b = (if b = 0x80200000 then 0x80300000 else 0)"
  unfolding demo_mem_def by (subst load32_store32_if) (auto simp: word_aligned_def load32_def)

lemma demo_entry:
  assumes "page_aligned p" "idx i" "p \<noteq> 0x80200000"
  shows "load32 demo_mem (entry p i) = 0"
proof -
  have "PGROUNDDOWN 0x80200000 = 0x80200000" by (simp add: PGROUNDDOWN_def)
  then have "entry p i \<noteq> 0x80200000" using entry_page [OF assms(1,2)] assms(3) by metis
  then show ?thesis using demo_mem_load assms by simp
qed

lemma demo_al: "d \<in> demo_D \<Longrightarrow> page_aligned d" "page_aligned 0x80420000" "page_aligned 0x80430000"
  by (auto simp: page_aligned_def)

lemma demo_tab:
  assumes "d \<in> demo_D" "idx i"
  shows "tab demo_shm d i = (if i = 0 \<and> d = 0x80400000 then Some 0x80420000
     else if i = 0 \<and> d = 0x80410000 then Some 0x80430000 else None)"
proof -
  have p: "present 0x420007" "present 0x430007" "\<not> present 0" "frame_of 0x420007 = 0x80420000" "frame_of 0x430007 = 0x80430000"
    by (simp_all add: present_def frame_of_def PTE_ADDR_def P2V_def)
  have ne: "d \<noteq> 0x80200000" "d \<noteq> 0x80420000" "d \<noteq> 0x80430000" using assms(1) by auto
  show ?thesis unfolding tab_def demo_shm_load [OF demo_al(1) [OF assms(1)] assms(2)] Let_def
    using demo_entry [OF demo_al(1) [OF assms(1)] assms(2) ne(1)] ne p by simp
qed

lemma demo_pte:
  assumes "d \<in> demo_D" "user_page va"
  shows "pte_at demo_shm d va = (if d = 0x80460000 then 0 else if va = 0 then 0x440005 else if va = 0x1000 then 0x450001 else 0)"
proof -
  have al: "PGROUNDDOWN va = va" "PGROUNDDOWN 0 = 0" "PGROUNDDOWN 0x1000 = 0x1000"
    using assms(2) by (simp_all add: user_page_def PGROUNDDOWN_aligned) (simp_all add: PGROUNDDOWN_def)
  have x: "PDX 0 = 0" "PTX 0 = 0" "PDX 0x1000 = 0" "PTX 0x1000 = 1" by (simp_all add: PDX_def PTX_def)
  have z: "PDX va = 0 \<and> PTX va = 0 \<longleftrightarrow> va = 0" "PDX va = 0 \<and> PTX va = 1 \<longleftrightarrow> va = 0x1000"
    using PDX_PTX_page [of va 0] PDX_PTX_page [of va "0x1000"] unfolding al x by simp_all
  have zero: "PTX va = 0 \<longleftrightarrow> va = 0" "PTX va = 1 \<longleftrightarrow> va = 0x1000" if "PDX va = 0" using z that by auto
  have nz: "va \<noteq> 0 \<and> va \<noteq> 0x1000" if "PDX va \<noteq> 0" using z that by auto
  consider "d = 0x80400000" | "d = 0x80410000" | "d = 0x80460000" using assms(1) by blast
  then show ?thesis
  proof cases
    case 1
    then show ?thesis using zero nz index_less(1) [of 0, unfolded x] demo_al(2)
      by (cases "PDX va = 0") (simp_all add: pte_at_def slot_def demo_tab demo_shm_load demo_entry)
  next
    case 2
    then show ?thesis using zero nz index_less(1) [of 0, unfolded x] demo_al(3)
      by (cases "PDX va = 0") (simp_all add: pte_at_def slot_def demo_tab demo_shm_load demo_entry)
  next
    case 3
    then show ?thesis using index_less(1) [of 0, unfolded x] by (simp add: pte_at_def slot_def demo_tab)
  qed
qed

lemma demo_hits:
  assumes "d \<in> demo_D" "user_page va"
  shows "hits (pte_at demo_shm d va) v \<longleftrightarrow> d \<noteq> 0x80460000 \<and> (va = 0 \<and> v = 0x80440000 \<or> va = 0x1000 \<and> v = 0x80450000)"
  using assms by (auto simp: demo_pte hits_def present_def frame_of_def PTE_ADDR_def P2V_def)

lemma demo_pages: "pt_pages demo_shm demo_D = demo_D \<union> {0x80420000, 0x80430000}"
proof -
  have "idx 0" by (simp add: idx_def)
  then show ?thesis unfolding pt_pages_def using demo_tab [of "0x80400000" 0] demo_tab [of "0x80410000" 0]
    by (auto simp: demo_tab split: if_splits)
qed

lemma demo_mapcount: "mapcount demo_shm demo_D v = (if v = 0x80440000 \<or> v = 0x80450000 then 2 else 0)"
proof -
  have up: "user_page 0" "user_page 0x1000" by (simp_all add: user_page_def page_aligned_def)
  have "maps demo_shm d v = (if d \<noteq> 0x80460000 \<and> v = 0x80440000 then {0} else if d \<noteq> 0x80460000 \<and> v = 0x80450000 then {0x1000} else {})"
    if "d \<in> demo_D" for d unfolding maps_def using that up by (auto simp: demo_hits)
  then show ?thesis by (simp add: mapcount_def)
qed

lemma demo_v_sel:
  "mem demo_v = demo_shm" "hw demo_v = boot_hw" "kend demo_v = 0x80110000" "use_lock demo_v" "freelist demo_v = 0x80200000"
  "refc_cnt demo_v = demo_refs"
  by (simp_all add: demo_v_def kstate.defs vstate.defs demo_k_def)

lemma demo_refs_at:
  "refs demo_v 0x80440000 = 2" "refs demo_v 0x80450000 = 2" "refs demo_v 0x80200000 = 0" "refs demo_v 0x80300000 = 0"
  "p \<in> demo_D \<union> {0x80420000, 0x80430000} \<Longrightarrow> refs demo_v p = 1"
  by (auto simp: demo_v_sel demo_refs_def refc_idx_def V2P_def)

lemma demo_kp: "kpage demo_v v \<longleftrightarrow> page_aligned v \<and> 0x80110000 \<le> v \<and> V2P v < PHYSTOP"
  by (simp add: kpage_def demo_v_sel)

lemma demo_vinv: "vinv demo_v [0x80200000, 0x80300000] demo_D"
proof (rule vinvI)
  have kd: "kpage demo_v v" if "v \<in> demo_D \<union> {0x80420000, 0x80430000, 0x80440000, 0x80450000, 0x80200000, 0x80300000}" for v
    using that by (auto simp: demo_kp page_aligned_def V2P_def)
  have "PGROUNDDOWN 0x80200000 = 0x80200000" "PGROUNDDOWN 0x80300000 = 0x80300000" by (simp_all add: PGROUNDDOWN_def)
  have e: "(0x80200000 :: uint) = entry 0x80200000 0" "(0x80300000 :: uint) = entry 0x80300000 0" by (simp_all add: entry_def)
  have al: "page_aligned 0x80200000" "page_aligned 0x80300000" "idx 0" by (simp_all add: page_aligned_def idx_def)
  have "load32 demo_shm 0x80200000 = load32 demo_mem 0x80200000" "load32 demo_shm 0x80300000 = load32 demo_mem 0x80300000"
    using demo_shm_load [OF al(1,3)] demo_shm_load [OF al(2,3)] by (simp_all flip: e)
  then show "kinv demo_v [0x80200000, 0x80300000]"
    using kd demo_refs_at by (simp add: kinv_def demo_v_sel demo_mem_load word_aligned_def)
  show "klock_ok demo_v" using boot_hw_ok boot_hw_free [of KmemLock] by (simp add: klock_ok_def demo_v_sel)
  show "pts_ok (mem demo_v) demo_D" unfolding pts_ok_def demo_v_sel by (auto simp: demo_tab demo_al split: if_splits)
  show "kpage demo_v p \<and> refs demo_v p = 1" if "p \<in> pt_pages (mem demo_v) demo_D" for p
    using that kd demo_refs_at(5) by (auto simp: demo_v_sel demo_pages)
  show "kpage demo_v v \<and> v \<notin> pt_pages (mem demo_v) demo_D \<and> refs demo_v v = mapcount (mem demo_v) demo_D v"
    if "0 < mapcount (mem demo_v) demo_D v" for v
    using that kd [of v] demo_refs_at(1,2) by (auto simp: demo_v_sel(1) demo_pages demo_mapcount split: if_splits)
  show "mapcount (mem demo_v) demo_D (frame_of (pte_at (mem demo_v) d va)) = 1"
    if "d \<in> demo_D" "user_page va" "writable (pte_at (mem demo_v) d va)" for d va
    using that by (auto simp: demo_v_sel demo_pte writable_def split: if_splits)
qed simp

section \<open>Stores to user memory\<close>

text \<open>The accesses of a program in user mode. The processor carries them out when the entry is present and open to the user and, for
  a store, writable. Otherwise it raises the page fault, \<open>trap\<close> calls \<open>CoW_handler\<close>, and the instruction runs
  again, unless the process has exited. When the entry still does not allow the store the handler finds a page with one reference and
  changes nothing more: the process faults for ever. \<open>user_load\<close> is what a load reads without a fault, and the result of \<open>user_store\<close>
  tells whether the store took place.\<close>

definition user_load :: "uint \<Rightarrow> uint \<Rightarrow> 'z kstate_scheme \<Rightarrow> byte option" where
  "user_load d va s =
     (let e = pte_at (mem s) d va in
      if present e \<and> user_ok e then Some (mem s (frame_of e + page_off va)) else None)"

definition user_store :: "uint \<Rightarrow> uint \<Rightarrow> byte \<Rightarrow> 'z vstate_scheme \<Rightarrow> (bool \<times> 'z vstate_scheme) res" where
  "user_store d va b s =
     (let e = pte_at (mem s) d va in
      if present e \<and> user_ok e \<and> writable e then Ok (True, s\<lparr>mem := (mem s)(frame_of e + page_off va := b)\<rparr>)
      else
        bindE (CoW_handler d va s) (\<lambda>(gone, s).
        let e = pte_at (mem s) d va in
        if gone then Ok (False, s)
        else if present e \<and> user_ok e \<and> writable e then Ok (True, s\<lparr>mem := (mem s)(frame_of e + page_off va := b)\<rparr>)
        else Inl Loops))"

text \<open>A store to a page with one mapping: the byte is seen there and nowhere else.\<close>

lemma vinv_outside:
  assumes inv: "vinv s fl D" and same: "\<And>x. PGROUNDDOWN x \<in> pt_pages (mem s) D \<or> PGROUNDDOWN x \<in> set fl \<Longrightarrow> m x = mem s x"
  shows "vinv (s\<lparr>mem := m\<rparr>) fl D" and "\<forall>d\<in>D. \<forall>va. pte_at m d va = pte_at (mem s) d va"
proof -
  note pf = pt_frame [OF vinvD(4) [OF inv], of m]
  show pte: "\<forall>d\<in>D. \<forall>va. pte_at m d va = pte_at (mem s) d va" using pf(4) same by blast
  then have mc: "mapcount m D v = mapcount (mem s) D v" for v by (intro mapcount_cong) simp
  have pp: "pt_pages m D = pt_pages (mem s) D" "pts_ok m D" using pf(1,2) same by blast+
  have ki: "kinv (s\<lparr>mem := m\<rparr>) fl" by (rule kinv_cong [OF vinvD(1) [OF inv]]) (use same in simp_all)
  have kl: "klock_ok (s\<lparr>mem := m\<rparr>)" using vinvD(2) [OF inv] by (simp add: klock_ok_def)
  have kp: "kpage (s\<lparr>mem := m\<rparr>) = kpage s" by (rule kpage_kend) simp
  show "vinv (s\<lparr>mem := m\<rparr>) fl D"
    using inv ki kl pp pte unfolding vinv_def by (simp add: mc kp)
qed

lemma page_plus_off: "PGROUNDDOWN va + (va AND 0xFFF) = va"
  unfolding PGROUNDDOWN_def PGSIZE_def and_4095 using and_not_4095 [of va] by simp

lemma store_private:
  fixes b :: byte
  assumes inv: "vinv s fl D" and d: "d \<in> D" "va < KERNBASE" and e: "present (pte_at (mem s) d va)" "writable (pte_at (mem s) d va)"
  defines "t \<equiv> s\<lparr>mem := (mem s)(frame_of (pte_at (mem s) d va) + page_off va := b)\<rparr>"
  shows "vinv t fl D" and "\<forall>d'\<in>D. \<forall>va'. pte_at (mem t) d' va' = pte_at (mem s) d' va'"
    and "d' \<in> D \<Longrightarrow> va' < KERNBASE \<Longrightarrow> present (pte_at (mem s) d' va') \<Longrightarrow>
      at_user (mem t) d' va' = (if d' = d \<and> va' = va then b else at_user (mem s) d' va')"
proof -
  let ?v = "frame_of (pte_at (mem s) d va)"
  note vf = mapped_frame [OF inv d e(1)] and up = user_page_down [OF d(2)]
  have pg: "PGROUNDDOWN (?v + page_off va) = ?v" by (simp add: page_off_def frame_offset)
  define m where "m = (mem s)(?v + page_off va := b)"
  have out: "m x = mem s x" if "PGROUNDDOWN x \<in> pt_pages (mem s) D \<or> PGROUNDDOWN x \<in> set fl" for x
    using that vf(2,5) pg by (auto simp: m_def)
  show "vinv t fl D" "\<forall>d'\<in>D. \<forall>va'. pte_at (mem t) d' va' = pte_at (mem s) d' va'"
    unfolding t_def m_def [symmetric] using vinv_outside [OF inv out] by simp_all
  note pte = this(2)
  assume d': "d' \<in> D" "va' < KERNBASE" "present (pte_at (mem s) d' va')"
  let ?v' = "frame_of (pte_at (mem s) d' va')"
  have one: "mapcount (mem s) D ?v = 1" using vinvD(10) [OF inv d(1) up] e by (simp add: pte_at_page)
  have "\<not> (?v' = ?v \<and> (d' \<noteq> d \<or> PGROUNDDOWN va' \<noteq> PGROUNDDOWN va))"
    using mapcount_two [OF vinvD(3) [OF inv] d'(1) d(1) user_page_down [OF d'(2)] up, of "mem s" ?v] d'(3) e one
    by (auto simp: hits_def pte_at_page)
  moreover have "va' = va" if "PGROUNDDOWN va' = PGROUNDDOWN va" "va' AND 0xFFF = va AND 0xFFF"
    using that page_plus_off [of va] page_plus_off [of va'] by metis
  ultimately have "?v' + (va' AND 0xFFF) = ?v + page_off va \<longleftrightarrow> d' = d \<and> va' = va"
    using frame_offset [of ?v va] frame_offset [of ?v' va'] unfolding page_off_def
    by (metis add_left_cancel frame_aligned)
  then show "at_user (mem t) d' va' = (if d' = d \<and> va' = va then b else at_user (mem s) d' va')"
    using pte d' by (auto simp: at_user_def t_def)
qed

text \<open>The fault handler, whatever the number of references.\<close>

lemma CoW_resolves:
  assumes "vinv s fl D" "d \<in> D" "va < KERNBASE" "present (pte_at (mem s) d va)"
    and "refs s (frame_of (pte_at (mem s) d va)) = 1 \<or> fl \<noteq> []"
  shows "\<exists>t fl'. CoW_handler d va s = Ok (False, t) \<and> vinv t fl' D \<and> resolved s t D d va
     \<and> (user_ok (pte_at (mem s) d va) \<longrightarrow> user_ok (pte_at (mem t) d va))"
proof (cases "refs s (frame_of (pte_at (mem s) d va)) = 1")
  case True
  have "user_ok (w OR PTE_W) = user_ok w" for w by (simp add: user_ok_def bit.conj_disj_distrib2)
  then show ?thesis using CoW_last [OF assms(1-4) True] by fastforce
next
  case False
  then obtain p fl' where "fl = p # fl'" using assms(5) by (cases fl) auto
  moreover have "1 < refs s (frame_of (pte_at (mem s) d va))" using False mapped_frame(3,4) [OF assms(1-4)] by simp
  ultimately show ?thesis using CoW_split [of s p fl' D d va] assms(1-4) by blast
qed

text \<open>A page that is open to the user is made writable, if need be, and nobody sees a difference.\<close>

lemma store_page:
  assumes inv: "vinv s fl D" and d: "d \<in> D" "va < KERNBASE" and e: "present (pte_at (mem s) d va)" "user_ok (pte_at (mem s) d va)"
    and room: "writable (pte_at (mem s) d va) \<or> refs s (frame_of (pte_at (mem s) d va)) = 1 \<or> fl \<noteq> []"
  obtains u fl' where "vinv u fl' D" "same_view s u D" "present (pte_at (mem u) d va)" "writable (pte_at (mem u) d va)"
    "\<And>d' va'. d' \<in> D \<Longrightarrow> user_ok (pte_at (mem u) d' va') = user_ok (pte_at (mem s) d' va')"
    "user_store d va b s = Ok (True, u\<lparr>mem := (mem u)(frame_of (pte_at (mem u) d va) + page_off va := b)\<rparr>)"
    "ustore d va b s = Ok (u\<lparr>mem := (mem u)(frame_of (pte_at (mem u) d va) + page_off va := b)\<rparr>)"
proof (cases "writable (pte_at (mem s) d va)")
  case True
  then show ?thesis using that [of s fl] inv e by (simp add: ustore_def user_store_def same_view_def)
next
  case False
  then have "refs s (frame_of (pte_at (mem s) d va)) = 1 \<or> fl \<noteq> []" using room by simp
  then obtain u fl' where u: "CoW_handler d va s = Ok (False, u)" "vinv u fl' D" "resolved s u D d va" "user_ok (pte_at (mem u) d va)"
    using CoW_resolves [OF inv d e(1)] e(2) by blast
  have "user_ok (pte_at (mem u) d' va') = user_ok (pte_at (mem s) d' va')" if "d' \<in> D" for d' va'
  proof (cases "d' = d \<and> PGROUNDDOWN va' = PGROUNDDOWN va")
    case True
    then show ?thesis using e(2) u(4) by (metis pte_at_page)
  next
    case False
    then show ?thesis using u(3) that by (auto simp: resolved_def)
  qed
  then show ?thesis using that [of u fl'] False e u by (simp add: ustore_def user_store_def resolved_def Let_def)
qed

text \<open>C1: A store to user memory is private. When the address is mapped and open to the user, and its page is writable, has a single
  reference, or there is a free page for the copy, the store of a user program succeeds, as does the same store by the kernel; the
  process then reads the stored byte, every other address of every address space reads as before, for the user and for
  the kernel, and the accounting of pages is kept.\<close>

theorem user_store_isolated:
  assumes inv: "vinv s fl D" and d: "d \<in> D" "va < KERNBASE" and e: "present (pte_at (mem s) d va)" "user_ok (pte_at (mem s) d va)"
    and room: "writable (pte_at (mem s) d va) \<or> refs s (frame_of (pte_at (mem s) d va)) = 1 \<or> fl \<noteq> []"
  shows "\<exists>t fl'. user_store d va b s = Ok (True, t) \<and> ustore d va b s = Ok t \<and> vinv t fl' D \<and> user_load d va t = Some b
     \<and> (\<forall>d'\<in>D. \<forall>va'. va' < KERNBASE \<and> (d' \<noteq> d \<or> va' \<noteq> va) \<longrightarrow>
          user_load d' va' t = user_load d' va' s \<and> uload d' va' t = uload d' va' s)"
proof -
  obtain u fl' where u: "vinv u fl' D" "same_view s u D" "present (pte_at (mem u) d va)" "writable (pte_at (mem u) d va)"
    and us: "\<And>d' va'. d' \<in> D \<Longrightarrow> user_ok (pte_at (mem u) d' va') = user_ok (pte_at (mem s) d' va')"
    and run: "user_store d va b s = Ok (True, u\<lparr>mem := (mem u)(frame_of (pte_at (mem u) d va) + page_off va := b)\<rparr>)"
      "ustore d va b s = Ok (u\<lparr>mem := (mem u)(frame_of (pte_at (mem u) d va) + page_off va := b)\<rparr>)"
    by (rule store_page [OF inv d e room, where b = b]) (rule that)
  define t where "t = u\<lparr>mem := (mem u)(frame_of (pte_at (mem u) d va) + page_off va := b)\<rparr>"
  note st = store_private [OF u(1) d u(3,4), where b = b, folded t_def]
  have ul: "uload d' va' x = (if present (pte_at (mem x) d' va') then Ok (at_user (mem x) d' va') else Inl Undef)"
    "user_load d' va' x = (if present (pte_at (mem x) d' va') \<and> user_ok (pte_at (mem x) d' va') then Some (at_user (mem x) d' va') else None)"
    for d' va' and x :: "'a vstate_scheme"
    by (simp_all add: uload_def user_load_def at_user_def page_off_def Let_def)
  have "user_load d va t = Some b" using st(2) st(3) [OF d u(3)] d(1) u(3) us [OF d(1)] e(2) by (simp add: ul)
  moreover have "user_load d' va' t = user_load d' va' s \<and> uload d' va' t = uload d' va' s"
    if "d' \<in> D" "va' < KERNBASE" "d' \<noteq> d \<or> va' \<noteq> va" for d' va'
    using st(2) st(3) [OF that(1,2)] that u(2) us [OF that(1)] by (auto simp: ul same_view_def)
  ultimately show ?thesis using run st(1) by (auto simp: t_def [symmetric])
qed

theorem user_store_isolated_witness:
  "\<exists>t. user_store 0x80400000 0x12 7 demo_v = Ok (True, t) \<and> user_load 0x80400000 0x12 t = Some 7 \<and> user_load 0x80410000 0x12 t = Some 0"
proof -
  have pte: "pte_at demo_shm d 0x12 = 0x440005" if "d \<in> {0x80400000, 0x80410000}" for d
  proof -
    have "PGROUNDDOWN 0x12 = 0" "user_page 0" by (simp_all add: PGROUNDDOWN_def user_page_def page_aligned_def)
    then show ?thesis using that pte_at_page [of demo_shm d "0x12"] demo_pte [of d 0] by auto
  qed
  have p: "present (pte_at (mem demo_v) 0x80400000 0x12)" "user_ok (pte_at (mem demo_v) 0x80400000 0x12)"
    by (simp_all add: demo_v_sel pte present_def user_ok_def)
  have "user_load 0x80410000 0x12 demo_v = Some (demo_shm 0x80440012)"
    by (simp add: user_load_def demo_v_sel pte present_def user_ok_def frame_of_def PTE_ADDR_def P2V_def page_off_def)
  moreover have "demo_shm 0x80440012 = 0"
    by (simp add: demo_shm_def demo_mem_def store32_def entry_def)
  ultimately show ?thesis using user_store_isolated [OF demo_vinv _ _ p, of 7] by force
qed

section \<open>The fault handler\<close>

lemma CoW_no_memory:
  assumes inv: "vinv s [] D" and d: "d \<in> D" "va < KERNBASE" "present (pte_at (mem s) d va)"
    and more: "1 < refs s (frame_of (pte_at (mem s) d va))"
  shows "CoW_handler d va s = panic ''pagefault: kalloc failed''"
proof -
  let ?v = "frame_of (pte_at (mem s) d va)"
  obtain a where a: "slot (mem s) d va = Some a" "load32 (mem s) a = pte_at (mem s) d va" using present_slot [OF d(3)] by blast
  have idx: "\<not> NREFC \<le> refc_idx (V2P ?v)" using mapped_frame(1) [OF inv d] kpage_idx [of ?v] by (auto simp: kpage_def)
  define u where "u = s\<lparr>hw := kcycled s\<rparr>"
  have k: "kinv u []" "klock_ok u"
    using kinv_cong [OF vinvD(1) [OF inv], of u] klock_ok_upd [OF vinvD(2) [OF inv], of u] by (simp_all add: u_def)
  have "V2P ?v = PTE_ADDR (pte_at (mem s) d va)" by (simp add: frame_of_def)
  then show ?thesis
    using a slot_page_facts(4) [OF inv d(1) a(1)] d(3) more idx vinvD(2) [OF inv] kalloc_nil [OF k]
    by (simp add: CoW_handler_def walk_slot present_def get_refc_eq Let_def u_def)
qed

text \<open>C13: The page-fault handler. An address without a mapping ends the process. A page with one
  reference becomes writable in place. A shared page is copied to the first free page, which
  the faulting address then maps alone and writable, and the old page loses one reference;
  with no free page the kernel panics. No address of any address space reads differently.\<close>

theorem CoW_handler_spec:
  assumes inv: "vinv s fl D" and d: "d \<in> D" "va < KERNBASE"
  shows "let v = frame_of (pte_at (mem s) d va) in
     if \<not> present (pte_at (mem s) d va) then
       CoW_handler d va s = Ok (True, cprintf_msg ''CoW handler: address should exist'' s)
     else if refs s v = 1 then
       \<exists>t. CoW_handler d va s = Ok (False, t) \<and> vinv t fl D \<and> resolved s t D d va \<and> frame_of (pte_at (mem t) d va) = v
     else case fl of
         [] \<Rightarrow> CoW_handler d va s = panic ''pagefault: kalloc failed''
       | p # fl' \<Rightarrow> \<exists>t. CoW_handler d va s = Ok (False, t) \<and> vinv t fl' D \<and> resolved s t D d va
           \<and> frame_of (pte_at (mem t) d va) = p \<and> refs t p = 1 \<and> refs t v = refs s v - 1"
proof (cases "present (pte_at (mem s) d va)")
  case False
  have "CoW_handler d va s = Ok (True, cprintf_msg ''CoW handler: address should exist'' s)"
    using False by (cases "slot (mem s) d va") (simp_all add: CoW_handler_def walk_slot pte_at_def present_def)
  then show ?thesis using False by simp
next
  case True
  let ?v = "frame_of (pte_at (mem s) d va)"
  note vf = mapped_frame [OF inv d True]
  show ?thesis
  proof (cases "refs s ?v = 1")
    case one: True
    show ?thesis using CoW_last [OF inv d True one] one True by (auto simp: or_W)
  next
    case False
    then have more: "1 < refs s ?v" using vf(3,4) by simp
    show ?thesis
    proof (cases fl)
      case Nil
      then show ?thesis using CoW_no_memory [of s D d va] inv d True more False by simp
    next
      case (Cons p fl')
      obtain t where t: "CoW_handler d va s = Ok (False, t)" "vinv t fl' D" "resolved s t D d va" "frame_of (pte_at (mem t) d va) = p"
          "refs t ?v = refs s ?v - 1"
        using CoW_split [of s p fl' D d va] inv d True more Cons by blast
      have pw: "present (pte_at (mem t) d va)" "writable (pte_at (mem t) d va)" using t(3) by (simp_all add: resolved_def)
      have "refs t p = 1"
        using mapped_frame(3) [OF t(2) d pw(1)] vinvD(10) [OF t(2) d(1) user_page_down [OF d(2)]] pw t(4) by (simp add: pte_at_page)
      then show ?thesis using t True False Cons by (simp add: Let_def)
    qed
  qed
qed

text \<open>C38: The handler does not look at the user bit. A page that is not open to the user, like the
  guard page under the stack, becomes readable and writable for the user when it is shared;
  when it is not shared the entry keeps its user bit off, so the access that led to the
  fault faults again.\<close>

theorem CoW_guard_page:
  assumes inv: "vinv s (p # fl) D" and d: "d \<in> D" "va < KERNBASE" and e: "present (pte_at (mem s) d va)" "\<not> user_ok (pte_at (mem s) d va)"
  shows "\<exists>t. CoW_handler d va s = Ok (False, t) \<and> present (pte_at (mem t) d va) \<and> writable (pte_at (mem t) d va)
     \<and> user_ok (pte_at (mem t) d va) = (refs s (frame_of (pte_at (mem s) d va)) \<noteq> 1)"
proof (cases "refs s (frame_of (pte_at (mem s) d va)) = 1")
  case True
  have "user_ok (w OR PTE_W) = user_ok w" for w by (simp add: user_ok_def bit.conj_disj_distrib2)
  then show ?thesis using CoW_last [OF inv d e(1) True] True e(2) by (auto simp: resolved_def)
next
  case False
  then have "1 < refs s (frame_of (pte_at (mem s) d va))" using mapped_frame(3,4) [OF inv d e(1)] by simp
  then show ?thesis using CoW_split [OF inv d e(1)] False by (auto simp: resolved_def)
qed

lemma demo_pte_at:
  assumes "d \<in> {0x80400000, 0x80410000}"
  shows "pte_at (mem demo_v) d 0x12 = 0x440005" "pte_at (mem demo_v) d 0x1000 = 0x450001"
proof -
  have "PGROUNDDOWN 0x12 = 0" "user_page 0" "user_page 0x1000" by (simp_all add: PGROUNDDOWN_def user_page_def page_aligned_def)
  then show "pte_at (mem demo_v) d 0x12 = 0x440005" "pte_at (mem demo_v) d 0x1000 = 0x450001"
    using assms pte_at_page [of demo_shm d "0x12"] demo_pte [of d 0] demo_pte [of d "0x1000"] by (auto simp: demo_v_sel)
qed

theorem CoW_handler_spec_witness:
  "\<exists>t. CoW_handler 0x80400000 0x12 demo_v = Ok (False, t) \<and> frame_of (pte_at (mem t) 0x80400000 0x12) = 0x80200000
     \<and> refs t 0x80200000 = 1 \<and> refs t 0x80440000 = 1"
proof -
  have "frame_of 0x440005 = 0x80440000" "present 0x440005" by (simp_all add: frame_of_def PTE_ADDR_def P2V_def present_def)
  then show ?thesis using CoW_handler_spec [OF demo_vinv, of "0x80400000" "0x12"] demo_pte_at(1) [of "0x80400000"] demo_refs_at(1)
    by (auto simp: Let_def)
qed

theorem CoW_guard_page_witness:
  "\<exists>t. CoW_handler 0x80400000 0x1000 demo_v = Ok (False, t) \<and> user_ok (pte_at (mem t) 0x80400000 0x1000)"
proof -
  have e: "pte_at (mem demo_v) 0x80400000 0x1000 = 0x450001" using demo_pte_at(2) by simp
  have f: "frame_of 0x450001 = 0x80450000" "present 0x450001" "\<not> user_ok 0x450001"
    by (simp_all add: frame_of_def PTE_ADDR_def P2V_def present_def user_ok_def)
  show ?thesis using CoW_guard_page [OF demo_vinv, of "0x80400000" "0x1000"] unfolding e using f demo_refs_at(2) by auto
qed

section \<open>Sharing and release\<close>

text \<open>C4: The copying of an address space by \<open>copyuvm\<close>. The loop over the pages ends; when it
  succeeds, parent and child map the same pages, both without write permission, so that every
  address of the child reads as it did in the parent; it fails
  only when there are fewer free pages than pages to share. In both cases no other address space reads differently and the reference
  counts are the numbers of mappings.\<close>

theorem copy_loop_shares:
  assumes inv: "vinv s fl D" and d: "d \<in> D" "c \<in> D" "d \<noteq> c" and le: "n \<le> KERNBASE"
    and pres: "\<And>va. va < n \<Longrightarrow> present (pte_at (mem s) d va) \<and> \<not> present (pte_at (mem s) c va)"
  shows "\<exists>ok t fl'. copy_loop max_pages d c 0 n s = Ok (ok, t) \<and> vinv t fl' D \<and> same_view s t (D - {c})
     \<and> (unat n \<le> 4096 * length fl \<longrightarrow> ok)
     \<and> (ok \<longrightarrow> (\<forall>va. va < n \<longrightarrow> present (pte_at (mem t) c va) \<and> at_user (mem t) c va = at_user (mem s) d va
          \<and> pte_at (mem t) c va = pte_at (mem t) d va \<and> \<not> writable (pte_at (mem t) d va)))"
proof -
  let ?A = "{va. user_page va \<and> 0 \<le> va \<and> va < n}"
  have "\<exists>ok t fl'. copy_loop (Suc (2 ^ 20)) d c 0 n s = Ok (ok, t) \<and> vinv t fl' D
      \<and> (if ok then copied s t D d c ?A else unat (0 :: uint) + 4096 * length fl < unat n \<and> same_view s t (D - {c}))"
    by (rule copy_loop_ok [OF inv d _ le]) (use pres le in \<open>auto simp: word_le_nat_alt page_aligned_def\<close>)
  then obtain ok t fl' where r: "copy_loop max_pages d c 0 n s = Ok (ok, t)" "vinv t fl' D"
      "if ok then copied s t D d c ?A else 4096 * length fl < unat n \<and> same_view s t (D - {c})"
    unfolding max_pages_def Suc_eq_plus1 unsigned_0 add_0 by blast
  have "present (pte_at (mem t) c va) \<and> at_user (mem t) c va = at_user (mem s) d va
      \<and> pte_at (mem t) c va = pte_at (mem t) d va \<and> \<not> writable (pte_at (mem t) d va)"
    if ok "va < n" for va
  proof -
    have cp: "copied s t D d c ?A" and va: "va < n" using r(3) that by simp_all
    have lt: "va < KERNBASE" "PGROUNDDOWN va \<le> va" using va le unat_PGROUNDDOWN [of va] by (auto simp: word_le_nat_alt word_less_nat_alt)
    have A: "PGROUNDDOWN va \<in> ?A" using user_page_down [OF lt(1)] lt(2) va by auto
    have "pte_at (mem t) d (PGROUNDDOWN va) = noW (pte_at (mem s) d (PGROUNDDOWN va))"
        "pte_at (mem t) c (PGROUNDDOWN va) = noW (pte_at (mem s) d (PGROUNDDOWN va))"
      using cp A by (simp_all add: copied_def)
    then have e: "pte_at (mem t) d va = noW (pte_at (mem s) d va)" "pte_at (mem t) c va = noW (pte_at (mem s) d va)"
      by (simp_all add: pte_at_page)
    have "mem t (frame_of (pte_at (mem s) d va) + (va AND 0xFFF)) = mem s (frame_of (pte_at (mem s) d va) + (va AND 0xFFF))"
      using cp mapped_frame(4) [OF inv d(1) lt(1)] pres [OF va] frame_offset [of "frame_of (pte_at (mem s) d va)" va]
      by (simp add: copied_def)
    then show ?thesis using e pres [OF va] by (simp add: at_user_def)
  qed
  moreover have "same_view s t (D - {c})" using r(3) copied_view [OF inv] by (auto split: if_splits)
  moreover have "unat n \<le> 4096 * length fl \<longrightarrow> ok" using r(3) by (auto split: if_splits)
  ultimately show ?thesis using r(1,2) by blast
qed

theorem copy_loop_shares_witness:
  "\<exists>t. copy_loop max_pages 0x80400000 0x80460000 0 0x1000 demo_v = Ok (True, t)
     \<and> at_user (mem t) 0x80460000 0x12 = at_user (mem demo_v) 0x80400000 0x12"
proof -
  have "present (pte_at (mem demo_v) 0x80400000 va) \<and> \<not> present (pte_at (mem demo_v) 0x80460000 va)" if "va < 0x1000" for va
  proof -
    have "PGROUNDDOWN va = 0" using that unat_PGROUNDDOWN [of va] by (simp add: word_unat_eq_iff word_less_nat_alt)
    moreover have "user_page 0" by (simp add: user_page_def page_aligned_def)
    ultimately have "pte_at demo_shm 0x80400000 va = 0x440005" "pte_at demo_shm 0x80460000 va = 0"
      using pte_at_page [of demo_shm _ va, symmetric] demo_pte [of "0x80400000" 0] demo_pte [of "0x80460000" 0] by simp_all
    then show ?thesis by (simp add: demo_v_sel present_def)
  qed
  then show ?thesis using copy_loop_shares [OF demo_vinv, of "0x80400000" "0x80460000" "0x1000"] by fastforce
qed

text \<open>C10: \<open>deallocuvm\<close> shrinks an address space: it ends, no page between the new and the old size is
  mapped any more, every other address of every address space reads as before, and a page that
  no address space maps any more is on the free list.\<close>

theorem deallocuvm_spec:
  assumes inv: "vinv s fl D" and d: "d \<in> D" "KERNBASE < kend s" and n: "new < old" "old \<le> KERNBASE"
  shows "\<exists>t fl'. deallocuvm d old new s = Ok (new, t) \<and> vinv t fl' D \<and> set fl \<subseteq> set fl'
     \<and> (\<forall>va. user_page va \<and> PGROUNDUP new \<le> va \<and> va < old \<longrightarrow> \<not> present (pte_at (mem t) d va))
     \<and> (\<forall>d'\<in>D. \<forall>va. va < KERNBASE \<and> (d' \<noteq> d \<or> va < PGROUNDUP new \<or> old \<le> PGROUNDDOWN va) \<longrightarrow> uload d' va t = uload d' va s)
     \<and> (\<forall>v. 0 < mapcount (mem s) D v \<and> mapcount (mem t) D v = 0 \<longrightarrow> v \<in> set fl')"
proof -
  let ?A = "{va. user_page va \<and> PGROUNDUP new \<le> va \<and> va < old}"
  have "\<exists>t fl'. dealloc_loop (Suc (2 ^ 20)) d (PGROUNDUP new) old s = Ok t \<and> vinv t fl' D \<and> unmapped s fl t fl' D d ?A"
    by (rule dealloc_loop_ok [OF inv d _ n(2)]) (use n in \<open>auto simp: word_le_nat_alt\<close>)
  then obtain t fl' where t: "dealloc_loop max_pages d (PGROUNDUP new) old s = Ok t" "vinv t fl' D" "unmapped s fl t fl' D d ?A"
    unfolding max_pages_def by auto
  have "uload d' va t = uload d' va s"
    if va: "d' \<in> D" "va < KERNBASE" "d' \<noteq> d \<or> va < PGROUNDUP new \<or> old \<le> PGROUNDDOWN va" for d' va
  proof -
    have "PGROUNDDOWN va \<le> va" using unat_PGROUNDDOWN [of va] by (simp add: word_le_nat_alt)
    then have "d' \<noteq> d \<or> PGROUNDDOWN va \<notin> ?A" using va(3) by auto
    note uv = unmapped_view [OF t(3) vinvD(3) [OF inv] va(1,2) this]
    show ?thesis using uv by (simp add: uload_def at_user_def page_off_def Let_def)
  qed
  then show ?thesis using t n(1) d(1) unfolding unmapped_def deallocuvm_def
    by (intro exI [of _ t] exI [of _ fl']) (auto simp: not_le)
qed

theorem deallocuvm_spec_witness:
  "\<exists>t. deallocuvm 0x80400000 0x1000 0 demo_v = Ok (0, t) \<and> \<not> present (pte_at (mem t) 0x80400000 0)
     \<and> uload 0x80410000 0x12 t = uload 0x80410000 0x12 demo_v"
proof -
  have "user_page 0" "PGROUNDUP 0 = 0" by (simp_all add: user_page_def page_aligned_def PGROUNDUP_def)
  then show ?thesis
    using deallocuvm_spec [OF demo_vinv, of "0x80400000" 0 "0x1000"] demo_v_sel(3) by force
qed

section \<open>Arguments of system calls\<close>

lemma uloads_hw [simp]: "uloads d va n (s\<lparr>hw := h\<rparr>) = uloads d va n s" for s :: "'z kstate_scheme"
  by (induction n arbitrary: va) (simp_all add: uload_def Let_def)

text \<open>The address of argument \<open>n\<close> of the system call that process \<open>p\<close> makes.\<close>

definition arg_addr :: "nat \<Rightarrow> nat \<Rightarrow> 'z pstate_scheme \<Rightarrow> uint" where
  "arg_addr n p s = load32 (mem s) (tf (the_proc s p) + TF_ESP) + 4 + 4 * of_nat n"

text \<open>C17: The pointers that the kernel accepts. For a process below the kernel's addresses, \<open>argptr\<close> fails when the
  word of the argument does not lie in the process; otherwise it returns the pointer there exactly when the size is not
  negative, the pointer is inside the process and so is the whole block, in unbounded arithmetic: no choice of
  pointer and size makes the check of the code wrap around.\<close>

theorem argptr_spec:
  fixes s :: "'z pstate_scheme"
  assumes hw: "hw_ok (hw s)" "running s = Some p" and size: "sz (the_proc s p) \<le> KERNBASE" "k < 2 ^ 31"
    and word: "unat (arg_addr n p s) + 4 \<le> unat (sz (the_proc s p)) \<Longrightarrow> uloads (pgdir (the_proc s p)) (arg_addr n p s) 4 s = Ok bs"
  shows "\<exists>t. argptr n k s = Ok (if unat (arg_addr n p s) + 4 \<le> unat (sz (the_proc s p)) \<and> 0 \<le> k
        \<and> word_of bs < sz (the_proc s p) \<and> int (unat (word_of bs)) + k \<le> int (unat (sz (the_proc s p))) then Some (word_of bs) else None, t)"
proof -
  let ?x = "the_proc s p" and ?h = "peeked (peeked (peeked (hw s)))" and ?a = "arg_addr n p s" and ?i = "word_of bs"
  have ok: "hw_ok (peeked (hw s))" "running (s\<lparr>hw := peeked (hw s)\<rparr>) = Some p" "hw_ok (peeked (peeked (hw s)))"
    "running (s\<lparr>hw := peeked (peeked (hw s))\<rparr>) = Some p"
    using hw hw_same_ok [OF hw_same_peeked] hw_same_cproc [OF _ hw_same_peeked] by auto
  have sz: "unat (sz ?x) \<le> 0x80000000" using size(1) by (simp add: word_le_nat_alt)
  have fi: "?a \<ge> sz ?x \<or> ?a + 4 > sz ?x \<longleftrightarrow> \<not> unat ?a + 4 \<le> unat (sz ?x)"
  proof (cases "?a \<ge> sz ?x")
    case False
    then have "unat ?a < unat (sz ?x)" by (simp add: word_le_nat_alt)
    then have "unat (?a + 4) = unat ?a + 4" using sz by (simp add: unat_word_ariths)
    then show ?thesis using False unfolding word_less_nat_alt word_le_nat_alt by linarith
  qed (simp add: word_le_nat_alt)
  have check: "?i \<ge> sz ?x \<or> ?i + of_int k > sz ?x \<longleftrightarrow> \<not> (?i < sz ?x \<and> int (unat ?i) + k \<le> int (unat (sz ?x)))" if k0: "0 \<le> k"
  proof (cases "?i \<ge> sz ?x")
    case False
    then have lt: "unat ?i < unat (sz ?x)" by (simp add: word_le_nat_alt)
    obtain m where m: "k = int m" using zero_le_imp_eq_int [OF k0] by blast
    have "m < 2 ^ 31" using size(2) m by simp
    then have "unat (of_nat m :: uint) = m" "unat ?i + m < 2 ^ 32" using lt sz by (simp_all add: unat_of_nat take_bit_nat_eq_self)
    then have "unat (?i + of_int k) = unat ?i + m" using m by (simp add: unat_word_ariths)
    then show ?thesis using False unfolding word_less_nat_alt word_le_nat_alt m by linarith
  qed (simp add: word_le_nat_alt word_less_nat_alt)
  have f: "fetchint ?a (s\<lparr>hw := peeked (peeked (hw s))\<rparr>) = Ok (if unat ?a + 4 \<le> unat (sz ?x) then Some ?i else None, s\<lparr>hw := ?h\<rparr>)"
    using ok(3,4) word by (simp add: fetchint_def curproc_ok Let_def fi)
  have "argint n (s\<lparr>hw := peeked (hw s)\<rparr>) = fetchint ?a (s\<lparr>hw := peeked (peeked (hw s))\<rparr>)"
    using ok(1,2) by (simp add: argint_def curproc_ok arg_addr_def)
  then have "argptr n k s = Ok (if unat ?a + 4 \<le> unat (sz ?x) \<and> \<not> (k < 0 \<or> ?i \<ge> sz ?x \<or> ?i + of_int k > sz ?x) then Some ?i else None, s\<lparr>hw := ?h\<rparr>)"
    using hw by (simp add: argptr_def curproc_ok f)
  then show ?thesis using check by (cases "0 \<le> k") auto
qed

definition demo_call :: pstate where
  "demo_call = demo_s\<lparr>mem := demo_shm, procs := [demo_proc\<lparr>pgdir := 0x80400000\<rparr>]\<rparr>"

lemma demo_call_word: "arg_addr 0 0 demo_call = 4" "uloads 0x80400000 4 4 demo_call = Ok [0, 0, 0, 0]"
proof -
  have e: "entry p 0 = p" "entry p 1 = p + 4" for p by (simp_all add: entry_def)
  have z: "demo_shm a = 0" if "a \<in> {0x80501ff8, 0x80501ff9, 0x80501ffa, 0x80501ffb, 0x80440004, 0x80440005, 0x80440006, 0x80440007}" for a
    using that unfolding demo_shm_def demo_mem_def e by (auto simp: store32_def)
  show "arg_addr 0 0 demo_call = 4"
    using z by (simp add: arg_addr_def demo_call_def demo_proc_def load32_def)
  have up: "user_page 0" by (simp add: user_page_def page_aligned_def)
  have p0: "pte_at demo_shm 0x80400000 0 = 0x440005" using demo_pte [of "0x80400000" 0] up by simp
  have "PGROUNDDOWN 4 = 0" "PGROUNDDOWN 5 = 0" "PGROUNDDOWN 6 = 0" "PGROUNDDOWN 7 = 0" by (simp_all add: PGROUNDDOWN_def)
  then have pte: "pte_at demo_shm 0x80400000 4 = 0x440005" "pte_at demo_shm 0x80400000 5 = 0x440005"
    "pte_at demo_shm 0x80400000 6 = 0x440005" "pte_at demo_shm 0x80400000 7 = 0x440005"
    using pte_at_page [of demo_shm "0x80400000" 4] pte_at_page [of demo_shm "0x80400000" 5]
      pte_at_page [of demo_shm "0x80400000" 6] pte_at_page [of demo_shm "0x80400000" 7] p0 by simp_all
  have fr: "present 0x440005" "frame_of 0x440005 = 0x80440000" "page_off 4 = 4" "page_off 5 = 5" "page_off 6 = 6" "page_off 7 = 7"
    by (simp_all add: present_def frame_of_def PTE_ADDR_def P2V_def page_off_def)
  have "uload 0x80400000 4 demo_call = Ok 0" "uload 0x80400000 5 demo_call = Ok 0" "uload 0x80400000 6 demo_call = Ok 0"
    "uload 0x80400000 7 demo_call = Ok 0"
    using z by (simp_all add: uload_def demo_call_def pte fr)
  then show "uloads 0x80400000 4 4 demo_call = Ok [0, 0, 0, 0]" by (simp add: eval_nat_numeral)
qed

theorem argptr_spec_witness:
  "(\<exists>t. argptr 0 4096 demo_call = Ok (Some 0, t)) \<and> (\<exists>t. argptr 0 4097 demo_call = Ok (None, t))"
proof -
  have s: "hw_ok (hw demo_call)" "running demo_call = Some 0" "sz (the_proc demo_call 0) = 4096" "pgdir (the_proc demo_call 0) = 0x80400000"
    using run_hw_ok demo_s_sel by (simp_all add: demo_call_def demo_proc_def)
  have "word_of [0, 0, 0, 0] = 0" by (simp add: word_of_def load32_def)
  then show ?thesis
    using argptr_spec [OF s(1,2), of 4096 0 "[0, 0, 0, 0]"] argptr_spec [OF s(1,2), of 4097 0 "[0, 0, 0, 0]"] demo_call_word
    by (simp add: s(3,4))
qed

end
