(* ===== verification/Exec.thy ===== *)
theory Exec
  imports Syscall
begin

text \<open>
  \<open>exec\<close>, \<open>exec.c\<close>, with the ELF headers of \<open>elf.h\<close> as the bytes of the file. The
  arguments are the strings that the pointers in \<open>argv\<close> point to.
\<close>

definition ELF_MAGIC :: uint where [simp]: "ELF_MAGIC = 0x464C457F"
definition ELF_PROG_LOAD :: uint where [simp]: "ELF_PROG_LOAD = 1"
definition MAXARG :: nat where [simp]: "MAXARG = 32"

record elfhdr =
  magic :: uint
  elf_entry :: uint
  phoff :: uint
  phnum :: ushort

record proghdr =
  ph_type :: uint
  ph_off :: uint
  vaddr :: uint
  filesz :: uint
  memsz :: uint

text \<open>\<open>struct elfhdr\<close> has 52 bytes, \<open>struct proghdr\<close> 32.\<close>

definition ELF_SIZE :: uint where [simp]: "ELF_SIZE = 52"
definition PH_SIZE :: uint where [simp]: "PH_SIZE = 32"

definition at_list :: "byte list \<Rightarrow> memory" where
  "at_list bs = (\<lambda>i. if unat i < length bs then bs ! unat i else 0)"

definition get_elf :: "byte list \<Rightarrow> elfhdr" where
  "get_elf bs = \<lparr>magic = load32 (at_list bs) 0, elf_entry = load32 (at_list bs) 24,
     phoff = load32 (at_list bs) 28, phnum = load16 (at_list bs) 44\<rparr>"

definition get_ph :: "byte list \<Rightarrow> proghdr" where
  "get_ph bs = \<lparr>ph_type = load32 (at_list bs) 0, ph_off = load32 (at_list bs) 4, vaddr = load32 (at_list bs) 8,
     filesz = load32 (at_list bs) 16, memsz = load32 (at_list bs) 20\<rparr>"

text \<open>\<open>readi\<close> into kernel memory, as \<open>loaduvm\<close> calls it.\<close>

definition readi_to :: "'z fstate_scheme dev_read \<Rightarrow> nat \<Rightarrow> uint \<Rightarrow> uint \<Rightarrow> uint \<Rightarrow> 'z fstate_scheme \<Rightarrow> (int \<times> 'z fstate_scheme) res" where
  "readi_to devsw ip dst off n s =
     bindE (readi devsw ip off n s) (\<lambda>((r, bs), s). Ok (r, s\<lparr>mem := put (mem s) dst bs\<rparr>))"

section \<open>Loading\<close>

text \<open>The loop over the program headers: the size of the image, \<open>None\<close> for \<open>goto bad\<close>.\<close>

fun load_segments :: "'z fstate_scheme dev_read \<Rightarrow> nat \<Rightarrow> nat \<Rightarrow> uint \<Rightarrow> uint \<Rightarrow> uint \<Rightarrow> 'z fstate_scheme
    \<Rightarrow> (uint option \<times> 'z fstate_scheme) res" where
  "load_segments devsw 0 ip off d z s = Ok (Some z, s)"
| "load_segments devsw (Suc k) ip off d z s =
     bindE (readi devsw ip off PH_SIZE s) (\<lambda>((r, bs), s).
     if r \<noteq> uint PH_SIZE then Ok (None, s)
     else
       let ph = get_ph bs in
       if ph_type ph \<noteq> ELF_PROG_LOAD then load_segments devsw k ip (off + PH_SIZE) d z s
       else if memsz ph < filesz ph then Ok (None, s)
       else if vaddr ph + memsz ph < vaddr ph then Ok (None, s)
       else
         bindE (allocuvm d z (vaddr ph + memsz ph) s) (\<lambda>(z, s).
         if z = 0 then Ok (None, s)
         else if vaddr ph mod PGSIZE \<noteq> 0 then Ok (None, s)
         else
           bindE (loaduvm (readi_to devsw ip) d (vaddr ph) (ph_off ph) (filesz ph) s) (\<lambda>(r, s).
           if r < 0 then Ok (None, s)
           else load_segments devsw k ip (off + PH_SIZE) d z s)))"

section \<open>The stack\<close>

text \<open>Argument strings are pushed in order; the result is the stack pointer and the addresses
  in order, \<open>None\<close> for \<open>goto bad\<close>.\<close>

fun push_args :: "nat \<Rightarrow> byte list list \<Rightarrow> uint \<Rightarrow> uint \<Rightarrow> 'z kstate_scheme
    \<Rightarrow> ((uint \<times> uint list) option \<times> 'z kstate_scheme) res" where
  "push_args argc [] d sp s = Ok (Some (sp, []), s)"
| "push_args argc (a # as) d sp s =
     (if argc \<ge> MAXARG then Ok (None, s)
      else
        let sp = (sp - (of_nat (length a) + 1)) AND NOT 3 in
        bindE (copyout d sp (a @ [0]) s) (\<lambda>(r, s).
        if r < 0 then Ok (None, s)
        else
          bindE (push_args (Suc argc) as d sp s) (\<lambda>(r, s).
          Ok (map_option (\<lambda>(sp', us). (sp', sp # us)) r, s))))"

definition ustack :: "uint \<Rightarrow> uint list \<Rightarrow> uint list" where
  "ustack sp us = [0xFFFFFFFF, of_nat (length us), sp - (of_nat (length us) + 1) * 4] @ us @ [0]"

definition last_elem :: "byte list \<Rightarrow> byte list" where
  "last_elem path = rev (takeWhile (\<lambda>c. c \<noteq> slash) (rev path))"

section \<open>exec\<close>

text \<open>The label \<open>bad\<close>, with \<open>pgdir\<close> and \<open>ip\<close> as they are when it is reached.\<close>

definition exec_bad :: "uint \<Rightarrow> nat option \<Rightarrow> 'z fstate_scheme \<Rightarrow> (int \<times> 'z fstate_scheme) res" where
  "exec_bad d ip s =
     bindE (whenE (d \<noteq> 0) (freevm d) s) (\<lambda>s.
     case ip of
       None \<Rightarrow> Ok (-1, s)
     | Some i \<Rightarrow> bindE (iunlockput i s) (\<lambda>s. bindE (end_op s) (\<lambda>s. Ok (-1, s))))"

definition exec_commit :: "byte list \<Rightarrow> uint \<Rightarrow> uint \<Rightarrow> uint \<Rightarrow> uint \<Rightarrow> 'z pstate_scheme
    \<Rightarrow> (int \<times> 'z pstate_scheme) res" where
  "exec_commit path d z sp ent s =
     bindE (curproc s) (\<lambda>(p, s).
     let oldpgdir = pgdir (the_proc s p);
         s = upd_proc p (\<lambda>x. x\<lparr>pname := take 15 (last_elem path), pgdir := d, sz := z\<rparr>) s;
         t = tf (the_proc s p);
         s = s\<lparr>mem := store32 (store32 (mem s) (t + TF_EIP) ent) (t + TF_ESP) sp\<rparr>
     in
     bindE (switchuvm (Some p) s) (\<lambda>s.
     bindE (freevm oldpgdir s) (\<lambda>s. Ok (0, s))))"

definition exec_stack :: "byte list \<Rightarrow> byte list list \<Rightarrow> uint \<Rightarrow> uint \<Rightarrow> uint \<Rightarrow> 'z fstate_scheme
    \<Rightarrow> (int \<times> 'z fstate_scheme) res" where
  "exec_stack path argv d z ent s =
     (let z = PGROUNDUP z in
      bindE (allocuvm d z (z + 2 * PGSIZE) s) (\<lambda>(z, s).
      if z = 0 then exec_bad d None s
      else
        bindE (clearpteu d (z - 2 * PGSIZE) s) (\<lambda>s.
        bindE (push_args 0 argv d z s) (\<lambda>(r, s).
        case r of
          None \<Rightarrow> exec_bad d None s
        | Some (sp, us) \<Rightarrow>
            let u = ustack sp us;
                sp = sp - of_nat (length u) * 4
            in
            bindE (copyout d sp (concat (map bytes_of u)) s) (\<lambda>(r, s).
            if r < 0 then exec_bad d None s
            else exec_commit path d z sp ent s)))))"

definition exec :: "'z fstate_scheme dev_read \<Rightarrow> byte list \<Rightarrow> byte list list \<Rightarrow> 'z fstate_scheme \<Rightarrow> (int \<times> 'z fstate_scheme) res" where
  "exec devsw path argv s =
     bindE (begin_op s) (\<lambda>s.
     bindE (namei path s) (\<lambda>(r, s).
     case r of
       None \<Rightarrow> bindE (end_op s) (\<lambda>s. Ok (-1, cprintf_msg (''exec: fail'' @ [CHR 0x0A]) s))
     | Some ip \<Rightarrow>
         bindE (ilock ip s) (\<lambda>s.
         bindE (readi devsw ip 0 ELF_SIZE s) (\<lambda>((r, bs), s).
         let elf = get_elf bs in
         if r \<noteq> uint ELF_SIZE \<or> magic elf \<noteq> ELF_MAGIC then exec_bad 0 (Some ip) s
         else
           bindE (setupkvm s) (\<lambda>(d, s).
           if d = 0 then exec_bad 0 (Some ip) s
           else
             bindE (load_segments devsw (unat (phnum elf)) ip (phoff elf) d 0 s) (\<lambda>(r, s).
             case r of
               None \<Rightarrow> exec_bad d (Some ip) s
             | Some z \<Rightarrow>
                 bindE (iunlockput ip s) (\<lambda>s.
                 bindE (end_op s) (\<lambda>s.
                 exec_stack path argv d z (elf_entry elf) s))))))))"

end
