(* ===== verification/Sysfile.thy ===== *)
theory Sysfile
  imports Exec
begin

text \<open>
  The file system calls, \<open>sysfile.c\<close>. Their results are the integers that the code
  returns. The two device tables are arguments of the calls that read and write; they are
  filled in where the system call table is.
\<close>

definition O_RDONLY :: uint where [simp]: "O_RDONLY = 0x000"
definition O_WRONLY :: uint where [simp]: "O_WRONLY = 0x001"
definition O_RDWR :: uint where [simp]: "O_RDWR = 0x002"
definition O_CREATE :: uint where [simp]: "O_CREATE = 0x200"

section \<open>Descriptors\<close>

definition argfd :: "nat \<Rightarrow> 'z filestate_scheme \<Rightarrow> ((nat \<times> nat) option \<times> 'z filestate_scheme) res" where
  "argfd n s =
     bindE (argint n s) (\<lambda>(r, s).
     case r of
       None \<Rightarrow> Ok (None, s)
     | Some w \<Rightarrow>
         let fd = sint w in
         if fd < 0 \<or> fd \<ge> int NOFILE then Ok (None, s)
         else
           bindE (curproc s) (\<lambda>(p, s).
           case ofile (the_proc s p) ! nat fd of
             None \<Rightarrow> Ok (None, s)
           | Some f \<Rightarrow> Ok (Some (nat fd, f), s)))"

fun find_fd :: "nat \<Rightarrow> nat option list \<Rightarrow> nat option" where
  "find_fd i [] = None"
| "find_fd i (f # fs) = (if f = None then Some i else find_fd (Suc i) fs)"

definition fdalloc :: "nat \<Rightarrow> 'z filestate_scheme \<Rightarrow> (nat option \<times> 'z filestate_scheme) res" where
  "fdalloc f s =
     bindE (curproc s) (\<lambda>(p, s).
     case find_fd 0 (ofile (the_proc s p)) of
       None \<Rightarrow> Ok (None, s)
     | Some fd \<Rightarrow> Ok (Some fd, upd_proc p (\<lambda>x. x\<lparr>ofile := (ofile x)[fd := Some f]\<rparr>) s))"

definition sys_dup :: "'z filestate_scheme \<Rightarrow> (int \<times> 'z filestate_scheme) res" where
  "sys_dup s =
     orfail (argfd 0 s) (\<lambda>(_, f) s.
     orfail (fdalloc f s) (\<lambda>fd s.
     bindE (filedup f s) (\<lambda>(_, s). Ok (int fd, s))))"

text \<open>The bytes read go to user memory at the address \<open>argptr\<close> has checked.\<close>

definition sys_read :: "'z filestate_scheme dev_read \<Rightarrow> 'z filestate_scheme \<Rightarrow> (int \<times> 'z filestate_scheme) res" where
  "sys_read devsw s =
     orfail (argfd 0 s) (\<lambda>(_, f) s.
     orfail (argint 2 s) (\<lambda>n s.
     orfail (argptr 1 (sint n) s) (\<lambda>a s.
     bindE (fileread devsw f (sint n) s) (\<lambda>((r, bs), s).
     bindE (curproc s) (\<lambda>(p, s).
     bindE (ustores (pgdir (the_proc s p)) a bs s) (\<lambda>s. Ok (r, s)))))))"

definition sys_write :: "'z filestate_scheme dev_write \<Rightarrow> 'z filestate_scheme \<Rightarrow> (int \<times> 'z filestate_scheme) res" where
  "sys_write devsw s =
     orfail (argfd 0 s) (\<lambda>(_, f) s.
     orfail (argint 2 s) (\<lambda>n s.
     orfail (argptr 1 (sint n) s) (\<lambda>a s.
     bindE (curproc s) (\<lambda>(p, s).
     bindE (uloads (pgdir (the_proc s p)) a (nat (sint n)) s) (\<lambda>bs.
     filewrite devsw f bs s)))))"

definition sys_close :: "'z filestate_scheme \<Rightarrow> (int \<times> 'z filestate_scheme) res" where
  "sys_close s =
     orfail (argfd 0 s) (\<lambda>(fd, f) s.
     bindE (curproc s) (\<lambda>(p, s).
     let s = upd_proc p (\<lambda>x. x\<lparr>ofile := (ofile x)[fd := None]\<rparr>) s in
     bindE (fileclose f s) (\<lambda>s. Ok (0, s))))"

text \<open>\<open>struct stat\<close> has 20 bytes: type at 0, dev at 4, ino at 8, nlink at 12, size at 16. The
  padding bytes keep what they were; \<open>old\<close> are the bytes before.\<close>

definition put_stat :: "fstat \<Rightarrow> byte list \<Rightarrow> byte list" where
  "put_stat st old =
     [ucast (st_type st), ucast (drop_bit 8 (st_type st))] @ take 2 (drop 2 old) @ bytes_of (st_dev st)
     @ bytes_of (st_ino st) @ [ucast (st_nlink st), ucast (drop_bit 8 (st_nlink st))] @ take 2 (drop 14 old)
     @ bytes_of (st_size st)"

definition sys_fstat :: "'z filestate_scheme \<Rightarrow> (int \<times> 'z filestate_scheme) res" where
  "sys_fstat s =
     orfail (argfd 0 s) (\<lambda>(_, f) s.
     orfail (argptr 1 20 s) (\<lambda>a s.
     orfail (filestat f s) (\<lambda>st s.
     bindE (curproc s) (\<lambda>(p, s).
     let d = pgdir (the_proc s p) in
     bindE (uloads d a 20 s) (\<lambda>old.
     bindE (ustores d a (put_stat st old) s) (\<lambda>s. Ok (0, s)))))))"

section \<open>Links\<close>

text \<open>The label \<open>bad\<close> of \<open>sys_link\<close>.\<close>

definition link_bad :: "nat \<Rightarrow> 'z fstate_scheme \<Rightarrow> (int \<times> 'z fstate_scheme) res" where
  "link_bad ip s =
     bindE (ilock ip s) (\<lambda>s.
     bindE (iupdate ip (upd_inode ip (\<lambda>x. x\<lparr>nlink := nlink x - 1\<rparr>) s)) (\<lambda>s.
     bindE (iunlockput ip s) (\<lambda>s.
     bindE (end_op s) (\<lambda>s. Ok (-1, s)))))"

definition end_fail :: "'z lstate_scheme \<Rightarrow> (int \<times> 'z lstate_scheme) res" where
  "end_fail s = bindE (end_op s) (\<lambda>s. Ok (-1, s))"

definition sys_link :: "'z fstate_scheme \<Rightarrow> (int \<times> 'z fstate_scheme) res" where
  "sys_link s =
     orfail (argstr 0 s) (\<lambda>old s.
     orfail (argstr 1 s) (\<lambda>new s.
     bindE (begin_op s) (\<lambda>s.
     bindE (namei old s) (\<lambda>(r, s).
     case r of
       None \<Rightarrow> end_fail s
     | Some ip \<Rightarrow>
         bindE (ilock ip s) (\<lambda>s.
         if itype (the_inode s ip) = T_DIR then bindE (iunlockput ip s) end_fail
         else
           bindE (iupdate ip (upd_inode ip (\<lambda>x. x\<lparr>nlink := nlink x + 1\<rparr>) s)) (\<lambda>s.
           bindE (iunlock ip s) (\<lambda>s.
           bindE (nameiparent new s) (\<lambda>((r, name), s).
           case r of
             None \<Rightarrow> link_bad ip s
           | Some dp \<Rightarrow>
               bindE (ilock dp s) (\<lambda>s.
               bindE (if idev (the_inode s dp) \<noteq> idev (the_inode s ip) then Ok (-1, s)
                      else dirlink dp name (inum (the_inode s ip)) s) (\<lambda>(r, s).
               if r < 0 then bindE (iunlockput dp s) (link_bad ip)
               else
                 bindE (iunlockput dp s) (\<lambda>s.
                 bindE (iput ip s) (\<lambda>s.
                 bindE (end_op s) (\<lambda>s. Ok (0, s))))))))))))))"

fun empty_loop :: "nat \<Rightarrow> nat \<Rightarrow> uint \<Rightarrow> 'z fstate_scheme \<Rightarrow> (bool \<times> 'z fstate_scheme) res" where
  "empty_loop 0 dp off s = Inl Loops"
| "empty_loop (Suc k) dp off s =
     (if off < isize (the_inode s dp) then
        bindE (readi (\<lambda>_. None) dp off DE_SIZE s) (\<lambda>((r, de), s).
        if r \<noteq> uint DE_SIZE then panic ''isdirempty: readi''
        else if de_inum de \<noteq> 0 then Ok (False, s)
        else empty_loop k dp (off + DE_SIZE) s)
      else Ok (True, s))"

definition isdirempty :: "nat \<Rightarrow> 'z fstate_scheme \<Rightarrow> (bool \<times> 'z fstate_scheme) res" where
  "isdirempty dp s = empty_loop (Suc (unat (isize (the_inode s dp)))) dp (2 * DE_SIZE) s"

definition dot :: "byte list" where [simp]: "dot = [46]"
definition dotdot :: "byte list" where [simp]: "dotdot = [46, 46]"

definition sys_unlink :: "'z fstate_scheme \<Rightarrow> (int \<times> 'z fstate_scheme) res" where
  "sys_unlink s =
     orfail (argstr 0 s) (\<lambda>path s.
     bindE (begin_op s) (\<lambda>s.
     bindE (nameiparent path s) (\<lambda>((r, name), s).
     case r of
       None \<Rightarrow> end_fail s
     | Some dp \<Rightarrow>
         bindE (ilock dp s) (\<lambda>s.
         if namecmp name dot = 0 \<or> namecmp name dotdot = 0 then bindE (iunlockput dp s) end_fail
         else
           bindE (dirlookup dp name s) (\<lambda>(r, s).
           case r of
             None \<Rightarrow> bindE (iunlockput dp s) end_fail
           | Some (ip, off) \<Rightarrow>
               bindE (ilock ip s) (\<lambda>s.
               if sint (nlink (the_inode s ip)) < 1 then panic ''unlink: nlink < 1''
               else
                 bindE (if itype (the_inode s ip) = T_DIR then isdirempty ip s else Ok (True, s)) (\<lambda>(e, s).
                 if \<not> e then bindE (iunlockput ip s) (\<lambda>s. bindE (iunlockput dp s) end_fail)
                 else
                   bindE (writei (\<lambda>_. None) dp (replicate 16 0) off s) (\<lambda>(r, s).
                   if r \<noteq> uint DE_SIZE then panic ''unlink: writei''
                   else
                     bindE (whenE (itype (the_inode s ip) = T_DIR)
                              (\<lambda>s. iupdate dp (upd_inode dp (\<lambda>x. x\<lparr>nlink := nlink x - 1\<rparr>) s)) s) (\<lambda>s.
                     bindE (iunlockput dp s) (\<lambda>s.
                     bindE (iupdate ip (upd_inode ip (\<lambda>x. x\<lparr>nlink := nlink x - 1\<rparr>) s)) (\<lambda>s.
                     bindE (iunlockput ip s) (\<lambda>s.
                     bindE (end_op s) (\<lambda>s. Ok (0, s))))))))))))))"

section \<open>Creating and opening\<close>

definition create :: "byte list \<Rightarrow> ushort \<Rightarrow> ushort \<Rightarrow> ushort \<Rightarrow> 'z fstate_scheme
    \<Rightarrow> (nat option \<times> 'z fstate_scheme) res" where
  "create path ty mj mn s =
     bindE (nameiparent path s) (\<lambda>((r, name), s).
     case r of
       None \<Rightarrow> Ok (None, s)
     | Some dp \<Rightarrow>
         bindE (ilock dp s) (\<lambda>s.
         bindE (dirlookup dp name s) (\<lambda>(r, s).
         case r of
           Some (ip, _) \<Rightarrow>
             bindE (iunlockput dp s) (\<lambda>s.
             bindE (ilock ip s) (\<lambda>s.
             if ty = T_FILE \<and> itype (the_inode s ip) = T_FILE then Ok (Some ip, s)
             else bindE (iunlockput ip s) (\<lambda>s. Ok (None, s))))
         | None \<Rightarrow>
             bindE (ialloc (idev (the_inode s dp)) ty s) (\<lambda>(ip, s).
             bindE (ilock ip s) (\<lambda>s.
             bindE (iupdate ip (upd_inode ip (\<lambda>x. x\<lparr>major := mj, minor := mn, nlink := 1\<rparr>) s)) (\<lambda>s.
             bindE (if ty = T_DIR then
                      bindE (iupdate dp (upd_inode dp (\<lambda>x. x\<lparr>nlink := nlink x + 1\<rparr>) s)) (\<lambda>s.
                      bindE (dirlink ip dot (inum (the_inode s ip)) s) (\<lambda>(r, s).
                      if r < 0 then panic ''create dots''
                      else
                        bindE (dirlink ip dotdot (inum (the_inode s dp)) s) (\<lambda>(r, s).
                        if r < 0 then panic ''create dots'' else Ok s)))
                    else Ok s) (\<lambda>s.
             bindE (dirlink dp name (inum (the_inode s ip)) s) (\<lambda>(r, s).
             if r < 0 then panic ''create: dirlink''
             else bindE (iunlockput dp s) (\<lambda>s. Ok (Some ip, s))))))))))"

text \<open>No file, or no descriptor for it: everything taken so far is given back.\<close>

definition open_fail :: "nat option \<Rightarrow> nat \<Rightarrow> 'z filestate_scheme \<Rightarrow> (int \<times> 'z filestate_scheme) res" where
  "open_fail f ip s =
     bindE (close_opt f s) (\<lambda>s.
     bindE (iunlockput ip s) end_fail)"

definition open_file :: "uint \<Rightarrow> nat \<Rightarrow> 'z filestate_scheme \<Rightarrow> (int \<times> 'z filestate_scheme) res" where
  "open_file omode ip s =
     bindE (filealloc s) (\<lambda>(f, s).
     case f of
       None \<Rightarrow> open_fail None ip s
     | Some f \<Rightarrow>
         bindE (fdalloc f s) (\<lambda>(fd, s).
         case fd of
           None \<Rightarrow> open_fail (Some f) ip s
         | Some fd \<Rightarrow>
             bindE (iunlock ip s) (\<lambda>s.
             bindE (end_op s) (\<lambda>s.
             Ok (int fd, upd_file f (\<lambda>x. x\<lparr>ftype := FD_INODE, fip := ip, foff := 0,
                   freadable := (omode AND O_WRONLY = 0),
                   fwritable := (omode AND O_WRONLY \<noteq> 0 \<or> omode AND O_RDWR \<noteq> 0)\<rparr>) s)))))"

definition sys_open :: "'z filestate_scheme \<Rightarrow> (int \<times> 'z filestate_scheme) res" where
  "sys_open s =
     orfail (argstr 0 s) (\<lambda>path s.
     orfail (argint 1 s) (\<lambda>omode s.
     bindE (begin_op s) (\<lambda>s.
     if omode AND O_CREATE \<noteq> 0 then
       bindE (create path T_FILE 0 0 s) (\<lambda>(r, s).
       case r of None \<Rightarrow> end_fail s | Some ip \<Rightarrow> open_file omode ip s)
     else
       bindE (namei path s) (\<lambda>(r, s).
       case r of
         None \<Rightarrow> end_fail s
       | Some ip \<Rightarrow>
           bindE (ilock ip s) (\<lambda>s.
           if itype (the_inode s ip) = T_DIR \<and> omode \<noteq> O_RDONLY then bindE (iunlockput ip s) end_fail
           else open_file omode ip s)))))"

definition sys_mkdir :: "'z fstate_scheme \<Rightarrow> (int \<times> 'z fstate_scheme) res" where
  "sys_mkdir s =
     bindE (begin_op s) (\<lambda>s.
     bindE (argstr 0 s) (\<lambda>(path, s).
     bindE (case path of None \<Rightarrow> Ok (None, s) | Some path \<Rightarrow> create path T_DIR 0 0 s) (\<lambda>(r, s).
     case r of
       None \<Rightarrow> end_fail s
     | Some ip \<Rightarrow> bindE (iunlockput ip s) (\<lambda>s. bindE (end_op s) (\<lambda>s. Ok (0, s))))))"

definition sys_mknod :: "'z fstate_scheme \<Rightarrow> (int \<times> 'z fstate_scheme) res" where
  "sys_mknod s =
     bindE (begin_op s) (\<lambda>s.
     bindE (argstr 0 s) (\<lambda>(path, s).
     case path of
       None \<Rightarrow> end_fail s
     | Some path \<Rightarrow>
         bindE (argint 1 s) (\<lambda>(mj, s).
         case mj of
           None \<Rightarrow> end_fail s
         | Some mj \<Rightarrow>
             bindE (argint 2 s) (\<lambda>(mn, s).
             case mn of
               None \<Rightarrow> end_fail s
             | Some mn \<Rightarrow>
                 bindE (create path T_DEV (ucast mj) (ucast mn) s) (\<lambda>(r, s).
                 case r of
                   None \<Rightarrow> end_fail s
                 | Some ip \<Rightarrow> bindE (iunlockput ip s) (\<lambda>s. bindE (end_op s) (\<lambda>s. Ok (0, s))))))))"

definition sys_chdir :: "'z fstate_scheme \<Rightarrow> (int \<times> 'z fstate_scheme) res" where
  "sys_chdir s =
     bindE (curproc s) (\<lambda>(p, s).
     bindE (begin_op s) (\<lambda>s.
     bindE (argstr 0 s) (\<lambda>(path, s).
     bindE (case path of None \<Rightarrow> Ok (None, s) | Some path \<Rightarrow> namei path s) (\<lambda>(r, s).
     case r of
       None \<Rightarrow> end_fail s
     | Some ip \<Rightarrow>
         bindE (ilock ip s) (\<lambda>s.
         if itype (the_inode s ip) \<noteq> T_DIR then bindE (iunlockput ip s) end_fail
         else
           bindE (iunlock ip s) (\<lambda>s.
           case cwd (the_proc s p) of
             None \<Rightarrow> Inl Undef
           | Some c \<Rightarrow>
               bindE (iput c s) (\<lambda>s.
               bindE (end_op s) (\<lambda>s.
               Ok (0, upd_proc p (\<lambda>x. x\<lparr>cwd := Some ip\<rparr>) s)))))))))"

text \<open>The loop that collects the arguments of \<open>exec\<close>, from the \<open>i\<close>-th on.\<close>

fun arg_loop :: "nat \<Rightarrow> nat \<Rightarrow> uint \<Rightarrow> 'z pstate_scheme \<Rightarrow> (byte list list option \<times> 'z pstate_scheme) res" where
  "arg_loop 0 i uargv s = Ok (None, s)"
| "arg_loop (Suc k) i uargv s =
     bindE (fetchint (uargv + 4 * of_nat i) s) (\<lambda>(r, s).
     case r of
       None \<Rightarrow> Ok (None, s)
     | Some uarg \<Rightarrow>
         if uarg = 0 then Ok (Some [], s)
         else
           bindE (fetchstr uarg s) (\<lambda>(r, s).
           case r of
             None \<Rightarrow> Ok (None, s)
           | Some a \<Rightarrow>
               bindE (arg_loop k (Suc i) uargv s) (\<lambda>(r, s). Ok (map_option (\<lambda>as. a # as) r, s))))"

definition sys_exec :: "'z fstate_scheme dev_read \<Rightarrow> 'z fstate_scheme \<Rightarrow> (int \<times> 'z fstate_scheme) res" where
  "sys_exec devsw s =
     orfail (argstr 0 s) (\<lambda>path s.
     orfail (argint 1 s) (\<lambda>uargv s.
     orfail (arg_loop MAXARG 0 uargv s) (\<lambda>argv s.
     exec devsw path argv s)))"

definition sys_pipe :: "'z filestate_scheme \<Rightarrow> (int \<times> 'z filestate_scheme) res" where
  "sys_pipe s =
     orfail (argptr 0 8 s) (\<lambda>a s.
     orfail (pipealloc s) (\<lambda>(rf, wf) s.
     bindE (fdalloc rf s) (\<lambda>(fd0, s).
     bindE (case fd0 of None \<Rightarrow> Ok (None, s) | Some _ \<Rightarrow> fdalloc wf s) (\<lambda>(fd1, s).
     case (fd0, fd1) of
       (Some fd0, Some fd1) \<Rightarrow>
         bindE (curproc s) (\<lambda>(p, s).
         bindE (ustores (pgdir (the_proc s p)) a (bytes_of (of_nat fd0) @ bytes_of (of_nat fd1)) s) (\<lambda>s.
         Ok (0, s)))
     | _ \<Rightarrow>
         bindE (case fd0 of
                  None \<Rightarrow> Ok s
                | Some fd0 \<Rightarrow>
                    bindE (curproc s) (\<lambda>(p, s).
                    Ok (upd_proc p (\<lambda>x. x\<lparr>ofile := (ofile x)[fd0 := None]\<rparr>) s))) (\<lambda>s.
         bindE (fileclose rf s) (\<lambda>s.
         bindE (fileclose wf s) (\<lambda>s. Ok (-1, s))))))))"

end
