(* ===== verification/Console.thy ===== *)
theory Console
  imports Proc Ring
begin

text \<open>
  The console: formatted output and the screen (\<open>console.c\<close>), the serial port (\<open>uart.c\<close>)
  and the keyboard (\<open>kbd.c\<close>, \<open>kbd.h\<close>).

  The devices are part of the state: the text memory and the cursor registers of the screen,
  the bytes sent to and waiting at the serial port, the scan codes waiting at the keyboard.
  The bounded wait of \<open>uartputc\<close> for the transmitter has no effect on the state.

  The other theories record only the format strings of their messages (\<open>klog\<close>); \<open>cprintf\<close>
  here is what turns a format string and its arguments into characters.
\<close>

section \<open>State\<close>

record consst = procst +
  panicked :: bool
  locking :: bool
  ibuf :: "nat \<Rightarrow> byte"
  in_r :: uint
  in_w :: uint
  in_e :: uint
  crt :: "nat \<Rightarrow> ushort"
  crtpos :: ushort
  uart :: bool
  uartout :: "byte list"
  uartin :: "byte list"
  kbdin :: "byte list"
  kshift :: uint

definition BACKSPACE :: uint where [simp]: "BACKSPACE = 0x100"
definition INPUT_BUF :: uint where [simp]: "INPUT_BUF = 128"

section \<open>Output devices\<close>

definition uartputc :: "uint \<Rightarrow> 'z consst_scheme \<Rightarrow> 'z consst_scheme" where
  "uartputc c s = (if \<not> uart s then s else s\<lparr>uartout := uartout s @ [ucast c]\<rparr>)"

definition uartgetc :: "'z consst_scheme \<Rightarrow> int \<times> 'z consst_scheme" where
  "uartgetc s =
     (if \<not> uart s then (-1, s)
      else case uartin s of
        [] \<Rightarrow> (-1, s)
      | b # bs \<Rightarrow> (uint b, s\<lparr>uartin := bs\<rparr>))"

text \<open>The text memory after \<open>memmove\<close> by a line and \<open>memset\<close> from \<open>pos\<close> on.\<close>

definition scroll :: "nat \<Rightarrow> (nat \<Rightarrow> ushort) \<Rightarrow> nat \<Rightarrow> ushort" where
  "scroll pos m = (\<lambda>i.
     if pos \<le> i \<and> i < 24 * 80 then 0
     else if i < 23 * 80 then m (i + 80) else m i)"

text \<open>The cursor and the text memory after the character itself.\<close>

definition cga_put :: "uint \<Rightarrow> nat \<Rightarrow> (nat \<Rightarrow> ushort) \<Rightarrow> nat \<times> (nat \<Rightarrow> ushort)" where
  "cga_put c pos m =
     (if c = 10 then (pos + (80 - pos mod 80), m)
      else if c = BACKSPACE then (if pos > 0 then pos - 1 else pos, m)
      else (pos + 1, m(pos := ucast (c AND 0xff) OR 0x0700)))"

definition cgaputc :: "uint \<Rightarrow> 'z consst_scheme \<Rightarrow> 'z consst_scheme res" where
  "cgaputc c s =
     (let (pos, m) = cga_put c (unat (crtpos s)) (crt s) in
      if pos > 25 * 80 then panic ''pos under/overflow''
      else
        let (pos, m) = (if pos div 80 \<ge> 24 then (pos - 80, scroll (pos - 80) m) else (pos, m)) in
        Ok (s\<lparr>crtpos := of_nat pos, crt := m(pos := 0x20 OR 0x0700)\<rparr>))"

definition consputc :: "uint \<Rightarrow> 'z consst_scheme \<Rightarrow> 'z consst_scheme res" where
  "consputc c s =
     (if panicked s then Inl Loops
      else cgaputc c
        (if c = BACKSPACE then uartputc 8 (uartputc 32 (uartputc 8 s)) else uartputc c s))"

primrec consputs :: "byte list \<Rightarrow> 'z consst_scheme \<Rightarrow> 'z consst_scheme res" where
  "consputs [] s = Ok s"
| "consputs (b # bs) s = bindE (consputc (scast b) s) (consputs bs)"

section \<open>Formatted output\<close>

definition digit :: "uint \<Rightarrow> byte" where
  "digit d = (if d < 10 then ucast d + 48 else ucast d + 87)"

text \<open>The do-while loop of \<open>printint\<close>; \<open>k\<close> is the room left in its buffer, and writing past
  it is undefined. The digits come out in the order in which the buffer holds them.\<close>

fun digits_loop :: "nat \<Rightarrow> uint \<Rightarrow> uint \<Rightarrow> byte list res" where
  "digits_loop 0 base x = Inl Undef"
| "digits_loop (Suc k) base x =
     (let d = digit (x mod base); x = x div base in
      if x \<noteq> 0 then bindE (digits_loop k base x) (\<lambda>ds. Ok (d # ds)) else Ok [d])"

text \<open>The buffer of \<open>printint\<close>. The assignment \<open>x = -xx\<close> negates an \<open>int\<close>, which has no value for the least one.\<close>

definition printint_buf :: "uint \<Rightarrow> uint \<Rightarrow> bool \<Rightarrow> byte list res" where
  "printint_buf xx base sign =
     (let sign = (sign \<and> sint xx < 0); x = (if sign then - xx else xx) in
      if sign \<and> sint xx = - (2 ^ 31) then Inl Undef
      else
      bindE (digits_loop 16 base x) (\<lambda>ds.
      if sign then (if length ds < 16 then Ok (ds @ [45]) else Inl Undef) else Ok ds))"

definition printint :: "uint \<Rightarrow> uint \<Rightarrow> bool \<Rightarrow> 'z consst_scheme \<Rightarrow> 'z consst_scheme res" where
  "printint xx base sign s = bindE (printint_buf xx base sign) (\<lambda>ds. consputs (rev ds) s)"

text \<open>An argument of \<open>cprintf\<close>: a word, or a pointer to a string (\<open>None\<close> is null). Taking
  an argument that was not passed, or one of the wrong kind, is undefined.\<close>

datatype farg = AInt uint | AStr "byte list option"

definition null_str :: "byte list" where
  "null_str = [40, 110, 117, 108, 108, 41]"

fun fmt_loop :: "byte list \<Rightarrow> farg list \<Rightarrow> 'z consst_scheme \<Rightarrow> 'z consst_scheme res" where
  "fmt_loop [] args s = Ok s"
| "fmt_loop (c # cs) args s =
     (if c = 0 then Ok s
      else if c \<noteq> 37 then bindE (consputc (ucast c) s) (fmt_loop cs args)
      else case cs of
        [] \<Rightarrow> Ok s
      | d # cs \<Rightarrow>
          if d = 0 then Ok s
          else if d = 100 then
            (case args of
               AInt w # args \<Rightarrow> bindE (printint w 10 True s) (fmt_loop cs args)
             | _ \<Rightarrow> Inl Undef)
          else if d = 120 \<or> d = 112 then
            (case args of
               AInt w # args \<Rightarrow> bindE (printint w 16 False s) (fmt_loop cs args)
             | _ \<Rightarrow> Inl Undef)
          else if d = 115 then
            (case args of
               AStr p # args \<Rightarrow>
                 bindE (consputs (takeWhile (\<lambda>b. b \<noteq> 0) (case p of None \<Rightarrow> null_str | Some bs \<Rightarrow> bs)) s)
                   (fmt_loop cs args)
             | _ \<Rightarrow> Inl Undef)
          else if d = 37 then bindE (consputc 37 s) (fmt_loop cs args)
          else bindE (consputc 37 s) (\<lambda>s. bindE (consputc (ucast d) s) (fmt_loop cs args)))"

definition cprintf :: "byte list option \<Rightarrow> farg list \<Rightarrow> 'z consst_scheme \<Rightarrow> 'z consst_scheme res" where
  "cprintf fmt args s =
     (let l = locking s in
      bindE (whenE l (lock ConsLock) s) (\<lambda>s.
      case fmt of
        None \<Rightarrow> panic ''null fmt''
      | Some f \<Rightarrow> bindE (fmt_loop f args s) (whenE l (unlock ConsLock))))"

definition str :: "string \<Rightarrow> byte list" where
  "str cs = map (\<lambda>c. of_char c) cs"

primrec print_pcs :: "uint list \<Rightarrow> 'z consst_scheme \<Rightarrow> 'z consst_scheme res" where
  "print_pcs [] s = Ok s"
| "print_pcs (p # ps) s = bindE (cprintf (Some (str '' %p'')) [AInt p] s) (print_pcs ps)"

text \<open>\<open>panic\<close> up to its endless loop: what is on the screen when the machine stops, and that
  no other CPU can write to it any more. Elsewhere the outcome of a call of \<open>panic\<close> is the
  error value \<open>Panic\<close>.\<close>

definition panic_stop :: "byte list \<Rightarrow> 'z consst_scheme \<Rightarrow> 'z consst_scheme res" where
  "panic_stop msg s =
     (let s = s\<lparr>hw := cli (hw s), locking := False\<rparr> in
      bindE (cprintf (Some (str ''lapicid %d: panic: '')) [AInt (ucast (lapic (hw s) (me (hw s))))] s) (\<lambda>s.
      bindE (cprintf (Some msg) [] s) (\<lambda>s.
      bindE (cprintf (Some [10]) [] s) (\<lambda>s.
      bindE (print_pcs (getcallerpcs (mem s) (frame (hw s))) s) (\<lambda>s.
      Ok (s\<lparr>panicked := True\<rparr>))))))"

section \<open>Process listing\<close>

fun state_name :: "procstate \<Rightarrow> byte list" where
  "state_name UNUSED = str ''unused''"
| "state_name EMBRYO = str ''embryo''"
| "state_name SLEEPING = str ''sleep ''"
| "state_name RUNNABLE = str ''runble''"
| "state_name RUNNING = str ''run   ''"
| "state_name ZOMBIE = str ''zombie''"

primrec procdump_loop :: "proc list \<Rightarrow> 'z consst_scheme \<Rightarrow> 'z consst_scheme res" where
  "procdump_loop [] s = Ok s"
| "procdump_loop (p # ps) s =
     (if pstate p = UNUSED then procdump_loop ps s
      else
        bindE (cprintf (Some (str ''%d %s %s''))
                 [AInt (of_int (pid p)), AStr (Some (state_name (pstate p))), AStr (Some (pname p))] s) (\<lambda>s.
        bindE (if pstate p = SLEEPING
               then print_pcs (takeWhile (\<lambda>pc. pc \<noteq> 0) (getcallerpcs (mem s) (load32 (mem s) (ctxt p + CTX_EBP) + 8))) s
               else Ok s) (\<lambda>s.
        bindE (cprintf (Some [10]) [] s) (procdump_loop ps))))"

definition procdump :: "'z consst_scheme \<Rightarrow> 'z consst_scheme res" where
  "procdump s = procdump_loop (procs s) s"

section \<open>Input\<close>

definition in_at :: "uint \<Rightarrow> 'z consst_scheme \<Rightarrow> byte" where
  "in_at i s = ibuf s (unat (i mod INPUT_BUF))"

text \<open>Kill line; \<open>k\<close> bounds the iterations by the number of characters since the last line.\<close>

primrec kill_line :: "nat \<Rightarrow> 'z consst_scheme \<Rightarrow> 'z consst_scheme res" where
  "kill_line 0 s = Ok s"
| "kill_line (Suc k) s =
     (if in_e s \<noteq> in_w s \<and> in_at (in_e s - 1) s \<noteq> 10
      then bindE (consputc BACKSPACE (s\<lparr>in_e := in_e s - 1\<rparr>)) (kill_line k)
      else Ok s)"

text \<open>One character of \<open>consoleintr\<close>; the flag asks for a process listing.\<close>

definition cons_char :: "int \<Rightarrow> 'z consst_scheme \<Rightarrow> (bool \<times> 'z consst_scheme) res" where
  "cons_char c s =
     (if c = 16 then Ok (True, s)
      else if c = 21 then bindE (kill_line (unat (in_e s - in_w s)) s) (\<lambda>s. Ok (False, s))
      else if c = 8 \<or> c = 0x7f then
        (if in_e s \<noteq> in_w s
         then bindE (consputc BACKSPACE (s\<lparr>in_e := in_e s - 1\<rparr>)) (\<lambda>s. Ok (False, s))
         else Ok (False, s))
      else if c \<noteq> 0 \<and> in_e s - in_r s < INPUT_BUF then
        let c = (if c = 13 then 10 else c);
            s = s\<lparr>ibuf := (ibuf s)(unat (in_e s mod INPUT_BUF) := of_int c), in_e := in_e s + 1\<rparr>
        in
        bindE (consputc (of_int c) s) (\<lambda>s.
        if c = 10 \<or> c = 4 \<or> in_e s = in_r s + INPUT_BUF
        then bindE (wakeup ChInput (s\<lparr>in_w := in_e s\<rparr>)) (\<lambda>s. Ok (False, s))
        else Ok (False, s))
      else Ok (False, s))"

fun intr_loop :: "nat \<Rightarrow> ('z consst_scheme \<Rightarrow> int \<times> 'z consst_scheme) \<Rightarrow> bool \<Rightarrow> 'z consst_scheme
    \<Rightarrow> (bool \<times> 'z consst_scheme) res" where
  "intr_loop 0 getc dump s = Inl Loops"
| "intr_loop (Suc k) getc dump s =
     (let (c, s) = getc s in
      if c \<ge> 0 then bindE (cons_char c s) (\<lambda>(d, s). intr_loop k getc (dump \<or> d) s)
      else Ok (dump, s))"

definition consoleintr :: "('z consst_scheme \<Rightarrow> int \<times> 'z consst_scheme) \<Rightarrow> 'z consst_scheme \<Rightarrow> 'z consst_scheme res" where
  "consoleintr getc s =
     bindE (lock ConsLock s) (\<lambda>s.
     bindE (intr_loop (Suc (length (uartin s) + length (kbdin s))) getc False s) (\<lambda>(d, s).
     bindE (unlock ConsLock s) (whenE d procdump)))"

text \<open>The loop of \<open>consoleread\<close>, with \<open>n\<close> characters wanted out of \<open>target\<close>: the characters
  delivered, how many are still wanted, and how it ended.\<close>

datatype cend = CDone | CSleep | CKilled

fun cread_loop :: "nat \<Rightarrow> nat \<Rightarrow> 'z consst_scheme \<Rightarrow> (cend \<times> byte list \<times> 'z consst_scheme) res" where
  "cread_loop 0 target s = Ok (CDone, [], s)"
| "cread_loop (Suc n) target s =
     (if in_r s = in_w s then
        bindE (curproc s) (\<lambda>(p, s). Ok (if killed (the_proc s p) then CKilled else CSleep, [], s))
      else
        let c = in_at (in_r s) s; s = s\<lparr>in_r := in_r s + 1\<rparr> in
        if c = 4 then Ok (CDone, [], if Suc n < target then s\<lparr>in_r := in_r s - 1\<rparr> else s)
        else if c = 10 then Ok (CDone, [c], s)
        else bindE (cread_loop n target s) (\<lambda>(e, cs, s). Ok (e, c # cs, s)))"

text \<open>For \<open>n <= 0\<close> the loop does not run and the result is \<open>target - n\<close>, which is 0.\<close>

definition consoleread :: "nat \<Rightarrow> uint \<Rightarrow> 'z consst_scheme \<Rightarrow> ((int \<times> byte list) \<times> 'z consst_scheme) res" where
  "consoleread ip n s =
     bindE (iunlock ip s) (\<lambda>s.
     bindE (lock ConsLock s) (\<lambda>s.
     bindE (cread_loop (nat (sint n)) (nat (sint n)) s) (\<lambda>(e, cs, s).
     if e = CSleep then Inl Sleeps
     else
       bindE (unlock ConsLock s) (\<lambda>s.
       bindE (ilock ip s) (\<lambda>s.
       Ok ((if e = CKilled then -1 else int (length cs), cs), s))))))"

primrec write_chars :: "byte list \<Rightarrow> 'z consst_scheme \<Rightarrow> 'z consst_scheme res" where
  "write_chars [] s = Ok s"
| "write_chars (b # bs) s = bindE (consputc (ucast b) s) (write_chars bs)"

definition consolewrite :: "nat \<Rightarrow> byte list \<Rightarrow> 'z consst_scheme \<Rightarrow> (int \<times> 'z consst_scheme) res" where
  "consolewrite ip buf s =
     bindE (iunlock ip s) (\<lambda>s.
     bindE (lock ConsLock s) (\<lambda>s.
     bindE (write_chars buf s) (\<lambda>s.
     bindE (unlock ConsLock s) (\<lambda>s.
     bindE (ilock ip s) (\<lambda>s. Ok (int (length buf), s))))))"

definition CONSOLE :: int where [simp]: "CONSOLE = 1"

definition cons_read :: "'z consst_scheme dev_read" where
  "cons_read m = (if m = CONSOLE then Some consoleread else None)"

definition cons_write :: "'z consst_scheme dev_write" where
  "cons_write m = (if m = CONSOLE then Some consolewrite else None)"

definition consoleinit :: "'z consst_scheme \<Rightarrow> 'z consst_scheme" where
  "consoleinit s = s\<lparr>hw := initlock ConsLock ''console'' (hw s), locking := True\<rparr>"

definition uartinit :: "bool \<Rightarrow> 'z consst_scheme \<Rightarrow> 'z consst_scheme" where
  "uartinit here s =
     (if \<not> here then s
      else fold (\<lambda>b. uartputc (ucast b)) (str ''xv6...'' @ [10]) (s\<lparr>uart := True, uartin := drop 1 (uartin s)\<rparr>))"

definition uartintr :: "'z consst_scheme \<Rightarrow> 'z consst_scheme res" where
  "uartintr s = consoleintr uartgetc s"

section \<open>Keyboard\<close>

definition SHIFT :: uint where [simp]: "SHIFT = 1"
definition CTL :: uint where [simp]: "CTL = 2"
definition ALT :: uint where [simp]: "ALT = 4"
definition CAPSLOCK :: uint where [simp]: "CAPSLOCK = 8"
definition NUMLOCK :: uint where [simp]: "NUMLOCK = 16"
definition SCROLLLOCK :: uint where [simp]: "SCROLLLOCK = 32"
definition E0ESC :: uint where [simp]: "E0ESC = 64"

text \<open>A table of 256 bytes: its first entries, the designated ones, and 0 elsewhere.\<close>

definition keymap :: "byte list \<Rightarrow> (uint \<times> byte) list \<Rightarrow> uint \<Rightarrow> byte" where
  "keymap front des i =
     (case map_of des i of
        Some b \<Rightarrow> b
      | None \<Rightarrow> if unat i < length front then front ! unat i else 0)"

definition shiftcode :: "uint \<Rightarrow> byte" where
  "shiftcode = keymap [] [(0x1D, 2), (0x2A, 1), (0x36, 1), (0x38, 4), (0x9D, 2), (0xB8, 4)]"

definition togglecode :: "uint \<Rightarrow> byte" where
  "togglecode = keymap [] [(0x3A, 8), (0x45, 16), (0x46, 32)]"

definition normalmap :: "uint \<Rightarrow> byte" where
  "normalmap = keymap
    [0, 27, 49, 50, 51, 52, 53, 54, 55, 56, 57, 48, 45, 61, 8, 9,
     113, 119, 101, 114, 116, 121, 117, 105, 111, 112, 91, 93, 10, 0, 97, 115,
     100, 102, 103, 104, 106, 107, 108, 59, 39, 96, 0, 92, 122, 120, 99, 118,
     98, 110, 109, 44, 46, 47, 0, 42, 0, 32, 0, 0, 0, 0, 0, 0,
     0, 0, 0, 0, 0, 0, 0, 55, 56, 57, 45, 52, 53, 54, 43, 49,
     50, 51, 48, 46, 0, 0, 0, 0]
    [(0x9C, 10), (0xB5, 47), (0xC8, 226), (0xD0, 227), (0xC9, 230), (0xD1, 231), (0xCB, 228), (0xCD, 229), (0x97, 224), (0xCF, 225), (0xD2, 232), (0xD3, 233)]"

definition shiftmap :: "uint \<Rightarrow> byte" where
  "shiftmap = keymap
    [0, 27, 33, 64, 35, 36, 37, 94, 38, 42, 40, 41, 95, 43, 8, 9,
     81, 87, 69, 82, 84, 89, 85, 73, 79, 80, 123, 125, 10, 0, 65, 83,
     68, 70, 71, 72, 74, 75, 76, 58, 34, 126, 0, 124, 90, 88, 67, 86,
     66, 78, 77, 60, 62, 63, 0, 42, 0, 32, 0, 0, 0, 0, 0, 0,
     0, 0, 0, 0, 0, 0, 0, 55, 56, 57, 45, 52, 53, 54, 43, 49,
     50, 51, 48, 46, 0, 0, 0, 0]
    [(0x9C, 10), (0xB5, 47), (0xC8, 226), (0xD0, 227), (0xC9, 230), (0xD1, 231), (0xCB, 228), (0xCD, 229), (0x97, 224), (0xCF, 225), (0xD2, 232), (0xD3, 233)]"

definition ctlmap :: "uint \<Rightarrow> byte" where
  "ctlmap = keymap
    [0, 0, 0, 0, 0, 0, 0, 0, 0, 0, 0, 0, 0, 0, 0, 0,
     17, 23, 5, 18, 20, 25, 21, 9, 15, 16, 0, 0, 13, 0, 1, 19,
     4, 6, 7, 8, 10, 11, 12, 0, 0, 0, 0, 28, 26, 24, 3, 22,
     2, 14, 13, 0, 0, 239, 0, 0]
    [(0x9C, 13), (0xB5, 239), (0xC8, 226), (0xD0, 227), (0xC9, 230), (0xD1, 231), (0xCB, 228), (0xCD, 229), (0x97, 224), (0xCF, 225), (0xD2, 232), (0xD3, 233)]"

definition charcode :: "uint \<Rightarrow> uint \<Rightarrow> byte" where
  "charcode m = (if m = 0 then normalmap else if m = 1 then shiftmap else ctlmap)"

definition kbdgetc :: "'z consst_scheme \<Rightarrow> int \<times> 'z consst_scheme" where
  "kbdgetc s =
     (case kbdin s of
        [] \<Rightarrow> (-1, s)
      | b # bs \<Rightarrow>
          let s = s\<lparr>kbdin := bs\<rparr>; data = (ucast b :: uint); sh = kshift s in
          if data = 0xE0 then (0, s\<lparr>kshift := sh OR E0ESC\<rparr>)
          else if data AND 0x80 \<noteq> 0 then
            let data = (if sh AND E0ESC \<noteq> 0 then data else data AND 0x7F) in
            (0, s\<lparr>kshift := sh AND NOT (ucast (shiftcode data) OR E0ESC)\<rparr>)
          else
            let (data, sh) = (if sh AND E0ESC \<noteq> 0 then (data OR 0x80, sh AND NOT E0ESC) else (data, sh));
                sh = sh OR ucast (shiftcode data);
                sh = sh XOR ucast (togglecode data);
                c = (ucast (charcode (sh AND (CTL OR SHIFT)) data) :: uint);
                c = (if sh AND CAPSLOCK \<noteq> 0 then
                       if 97 \<le> c \<and> c \<le> 122 then c - 32
                       else if 65 \<le> c \<and> c \<le> 90 then c + 32 else c
                     else c)
            in (uint c, s\<lparr>kshift := sh\<rparr>))"

definition kbdintr :: "'z consst_scheme \<Rightarrow> 'z consst_scheme res" where
  "kbdintr s = consoleintr kbdgetc s"

section \<open>Numbers\<close>

text \<open>The value of a string of digits, the most significant first.\<close>

definition digit_val :: "byte \<Rightarrow> nat" where
  "digit_val b = (if b < 58 then unat b - 48 else unat b - 87)"

definition num_val :: "nat \<Rightarrow> byte list \<Rightarrow> nat" where
  "num_val base bs = fold (\<lambda>b v. v * base + digit_val b) bs 0"

definition read_int :: "byte list \<Rightarrow> int" where
  "read_int bs = (case bs of b # cs \<Rightarrow> if b = 45 then - int (num_val 10 cs) else int (num_val 10 bs) | [] \<Rightarrow> 0)"

lemma unat_ucast_byte: "unat (ucast d :: byte) = unat d mod 256" for d :: uint
  by (simp add: unsigned_ucast_eq take_bit_eq_mod)

lemma digit_unat: "d < 16 \<Longrightarrow> unat (digit d) = unat d + (if d < 10 then 48 else 87)"
  by (auto simp: digit_def unat_word_ariths unat_ucast_byte word_less_nat_alt)

lemma digit_val_digit: "d < 16 \<Longrightarrow> digit_val (digit d) = unat d"
  by (auto simp: digit_val_def digit_unat word_less_nat_alt)

lemma digit_not_minus: "d < 16 \<Longrightarrow> digit d \<noteq> 45"
  by (auto simp: word_unat_eq_iff digit_unat)

text \<open>The loop of \<open>printint\<close>: with room for \<open>k\<close> digits and at most \<open>n\<close> of them needed, it returns
  the digits of the number, the least significant first.\<close>

lemma digits_loop_spec:
  assumes "2 \<le> base" "base \<le> 16" "unat x < unat base ^ n" "0 < n" "n \<le> k"
  shows "\<exists>ds. digits_loop k base x = Ok ds \<and> ds \<noteq> [] \<and> length ds \<le> n \<and> num_val (unat base) (rev ds) = unat x
     \<and> (\<forall>d\<in>set ds. d \<noteq> 45)"
  using assms(3-5)
proof (induction n arbitrary: k x)
  case (Suc n)
  then obtain j where j: "k = Suc j" "n \<le> j" by (cases k) auto
  have b: "2 \<le> unat base" "unat base \<le> 16" using assms(1,2) by (simp_all add: word_le_nat_alt)
  have m: "x mod base < 16" using b by (simp add: word_less_nat_alt unat_mod_distrib) (meson mod_less_divisor less_le_trans zero_less_numeral order_less_le_trans)
  have dm: "unat x = unat (x div base) * unat base + unat (x mod base)"
    by (simp add: unat_div_distrib unat_mod_distrib)
  show ?case
  proof (cases "x div base = 0")
    case True
    then have "unat x = unat (x mod base)" using dm by simp
    with True j m show ?thesis by (simp add: num_val_def digit_val_digit digit_not_minus)
  next
    case False
    have lt: "unat (x div base) < unat base ^ n"
      using Suc.prems(1) b by (simp add: unat_div_distrib less_mult_imp_div_less mult.commute)
    with False have "0 < n" by (metis gr0I less_one power_0 unat_eq_zero)
    from Suc.IH [OF lt this j(2)] obtain ds where ds: "digits_loop j base (x div base) = Ok ds" "ds \<noteq> []"
      "length ds \<le> n" "num_val (unat base) (rev ds) = unat (x div base)" "\<forall>d\<in>set ds. d \<noteq> 45" by blast
    with False j m dm show ?thesis by (simp add: num_val_def digit_val_digit digit_not_minus)
  qed
qed simp

lemma unat_of_sint: "0 \<le> sint x \<Longrightarrow> int (unat x) = sint x" for x :: uint
  using uint_sint [of x] sint_lt [of x] by (simp add: take_bit_int_eq_self)

lemma unat_neg_sint: "sint x < 0 \<Longrightarrow> int (unat (- x)) = - sint x" for x :: uint
proof -
  assume neg: "sint x < 0"
  have "uint (word_of_int (- sint x) :: uint) = take_bit LENGTH(32) (- sint x)" by (rule uint_word_of_int_eq)
  then have "uint (- x) = take_bit 32 (- sint x)" by simp
  then show ?thesis using neg sint_ge [of x] by (simp add: take_bit_int_eq_self)
qed

lemma printint_buf_ok:
  shows printint_buf_dec: "sint xx \<noteq> - (2 ^ 31) \<Longrightarrow> \<exists>ds. printint_buf xx 10 True = Ok ds \<and> length ds \<le> 11 \<and> read_int (rev ds) = sint xx"
    and printint_buf_hex: "\<exists>ds. printint_buf xx 16 False = Ok ds \<and> length ds \<le> 8 \<and> num_val 16 (rev ds) = unat xx"
proof -
  have u: "unat x < 10 ^ 10" "unat x < 16 ^ 8" for x :: uint
  proof -
    have "unat x < 2 ^ LENGTH(32)" by (rule unsigned_less)
    then show "unat x < 10 ^ 10" "unat x < 16 ^ 8" by simp_all
  qed
  have dec: "\<exists>ds. digits_loop 16 10 x = Ok ds \<and> ds \<noteq> [] \<and> length ds \<le> 10 \<and> num_val 10 (rev ds) = unat x
      \<and> (\<forall>d\<in>set ds. d \<noteq> 45)" for x
    using digits_loop_spec [of 10 x 10 16] u(1) by simp
  show "\<exists>ds. printint_buf xx 10 True = Ok ds \<and> length ds \<le> 11 \<and> read_int (rev ds) = sint xx" if m: "sint xx \<noteq> - (2 ^ 31)"
  proof (cases "sint xx < 0")
    case True
    then show ?thesis using dec [of "- xx"] unat_neg_sint [OF True] m by (auto simp: printint_buf_def read_int_def)
  next
    case False
    obtain ds where ds: "digits_loop 16 10 xx = Ok ds" "ds \<noteq> []" "length ds \<le> 10" "num_val 10 (rev ds) = unat xx"
      "\<forall>d\<in>set ds. d \<noteq> 45" using dec [of xx] by blast
    then obtain d cs where dc: "rev ds = d # cs" by (metis list.exhaust rev_is_Nil_conv)
    then have "d \<noteq> 45" using ds(5) by (metis in_set_conv_decomp_first set_rev list.set_intros(1))
    with ds dc False unat_of_sint [of xx] show ?thesis by (auto simp: printint_buf_def read_int_def)
  qed
  show "\<exists>ds. printint_buf xx 16 False = Ok ds \<and> length ds \<le> 8 \<and> num_val 16 (rev ds) = unat xx"
    using digits_loop_spec [of 16 xx 8 16] u(2) [of xx] by (auto simp: printint_buf_def)
qed

section \<open>The screen\<close>

definition screen_ok :: "'z consst_scheme \<Rightarrow> bool" where
  "screen_ok s \<longleftrightarrow> \<not> panicked s \<and> unat (crtpos s) < 24 * 80"

lemma unat_of_nat_pos: "n < 2000 \<Longrightarrow> unat (of_nat n :: ushort) = n"
  by (simp add: unat_of_nat take_bit_nat_eq_self)

lemma cga_put_bound:
  assumes "cga_put c pos m = (pos', m')" "pos < 24 * 80"
  shows "pos' \<le> 24 * 80" and "\<forall>i \<ge> 24 * 80. m' i = m i"
proof -
  have "80 * q + r + (80 - r) = 80 * (q + 1)" if "r < 80" for q r :: nat using that by simp
  from this [of "pos mod 80" "pos div 80"] have "pos + (80 - pos mod 80) = 80 * (pos div 80 + 1)" by simp
  also have "\<dots> \<le> 80 * 24" using assms(2) by (intro mult_le_mono2) (simp add: less_mult_imp_div_less)
  finally have "pos + (80 - pos mod 80) \<le> 24 * 80" by simp
  then show "pos' \<le> 24 * 80" "\<forall>i \<ge> 24 * 80. m' i = m i"
    using assms by (auto simp: cga_put_def split: if_splits)
qed

lemma cgaputc_ok:
  assumes "unat (crtpos s) < 24 * 80"
  shows "\<exists>p m. cgaputc c s = Ok (s\<lparr>crtpos := p, crt := m\<rparr>) \<and> unat p < 24 * 80
     \<and> m (unat p) = 0x20 OR 0x0700 \<and> (\<forall>i \<ge> 24 * 80. m i = crt s i)"
proof -
  obtain pos m where e: "cga_put c (unat (crtpos s)) (crt s) = (pos, m)" by fastforce
  note pos = cga_put_bound [OF e assms]
  show ?thesis
  proof (cases "24 \<le> pos div 80")
    case True
    then have "24 * 80 \<le> pos" by (simp add: less_eq_div_iff_mult_less_eq)
    then have p: "pos = 24 * 80" using pos(1) by simp
    let ?m = "(scroll (pos - 80) m)(pos - 80 := 0x20 OR 0x0700)"
    have "cgaputc c s = Ok (s\<lparr>crtpos := of_nat (pos - 80), crt := ?m\<rparr>)"
      using e True p by (simp add: cgaputc_def)
    moreover have "\<forall>i \<ge> 24 * 80. ?m i = crt s i" using pos(2) p by (simp add: scroll_def)
    moreover have "unat (of_nat (pos - 80) :: ushort) = 1840" using p by (simp add: unat_of_nat_pos)
    ultimately show ?thesis using p by (intro exI [of _ "of_nat (pos - 80)"] exI [of _ ?m]) simp
  next
    case False
    then have p: "pos < 24 * 80" by (simp add: not_le less_mult_imp_div_less div_less_iff_less_mult)
    let ?m = "m(pos := 0x20 OR 0x0700)"
    have "cgaputc c s = Ok (s\<lparr>crtpos := of_nat pos, crt := ?m\<rparr>)"
      using e False p by (simp add: cgaputc_def)
    moreover have "\<forall>i \<ge> 24 * 80. ?m i = crt s i" using pos(2) p by simp
    moreover have "unat (of_nat pos :: ushort) = pos" using p by (simp add: unat_of_nat_pos)
    ultimately show ?thesis using p by (intro exI [of _ "of_nat pos"] exI [of _ ?m]) simp
  qed
qed

text \<open>What the serial port has sent after one more character.\<close>

definition sent :: "'z consst_scheme \<Rightarrow> uint \<Rightarrow> byte list" where
  "sent s c = (if uart s then uartout s @ (if c = BACKSPACE then [8, 32, 8] else [ucast c]) else uartout s)"

lemma consputc_ok:
  assumes "screen_ok s"
  shows "\<exists>p m. consputc c s = Ok (s\<lparr>uartout := sent s c,
       crtpos := p, crt := m\<rparr>) \<and> unat p < 24 * 80 \<and> (\<forall>i \<ge> 24 * 80. m i = crt s i)"
proof -
  let ?u = "s\<lparr>uartout := sent s c\<rparr>"
  have "consputc c s = cgaputc c ?u" using assms by (simp add: consputc_def screen_ok_def uartputc_def sent_def)
  moreover obtain p m where "cgaputc c ?u = Ok (?u\<lparr>crtpos := p, crt := m\<rparr>)" "unat p < 24 * 80" "\<forall>i \<ge> 24 * 80. m i = crt s i"
    using cgaputc_ok [of ?u c] assms by (auto simp: screen_ok_def)
  ultimately show ?thesis by (intro exI [of _ p] exI [of _ m]) simp
qed

lemma ucast_back [simp]: "ucast (ucast b :: uint) = b" for b :: byte
  by (rule bit_word_eqI) (auto simp: bit_simps)

text \<open>C34: writing to the console. Whatever is written, from any cursor position on the first 24
  lines, no panic happens, the cursor stays on those lines, no memory after them is
  written, and the serial port gets exactly the bytes written.\<close>

theorem write_chars_screen:
  assumes "screen_ok s"
  shows "\<exists>t. write_chars bs s = Ok t \<and> screen_ok t \<and> (\<forall>i \<ge> 24 * 80. crt t i = crt s i)
     \<and> uartout t = (if uart s then uartout s @ bs else uartout s) \<and> uart t = uart s"
  using assms
proof (induction bs arbitrary: s)
  case (Cons b bs)
  have "ucast b \<noteq> BACKSPACE"
  proof
    assume "ucast b = BACKSPACE"
    then have "unat (ucast b :: uint) = 256" by simp
    moreover have "unat b < 2 ^ LENGTH(8)" by (rule unsigned_less)
    ultimately show False by (simp add: unsigned_ucast_eq take_bit_nat_eq_self)
  qed
  then have sent: "sent s (ucast b) = (if uart s then uartout s @ [b] else uartout s)" by (simp add: sent_def)
  obtain p m where run: "consputc (ucast b) s = Ok (s\<lparr>uartout := (if uart s then uartout s @ [b] else uartout s),
      crtpos := p, crt := m\<rparr>)" "unat p < 24 * 80" "\<forall>i \<ge> 24 * 80. m i = crt s i"
    using consputc_ok [OF Cons.prems, of "ucast b"] unfolding sent by blast
  let ?t = "s\<lparr>uartout := (if uart s then uartout s @ [b] else uartout s), crtpos := p, crt := m\<rparr>"
  have "screen_ok ?t" using Cons.prems run(2) by (simp add: screen_ok_def)
  from Cons.IH [OF this] show ?case using run by auto
qed simp

lemma scast_char:
  "ucast (scast b :: uint) = b" "(scast b :: uint) \<noteq> BACKSPACE" for b :: byte
proof -
  have low: "(ucast (scast b :: uint) :: byte) = b" by (rule bit_word_eqI) (auto simp: bit_simps)
  then show "(ucast (scast b :: uint) :: byte) = b" .
  show "(scast b :: uint) \<noteq> BACKSPACE"
  proof
    assume e: "(scast b :: uint) = BACKSPACE"
    then have "b = 0" using low by simp
    with e show False by simp
  qed
qed

lemma consputs_ok:
  assumes "screen_ok s" "uart s"
  shows "\<exists>t. consputs bs s = Ok t \<and> screen_ok t \<and> uartout t = uartout s @ bs"
  using assms
proof (induction bs arbitrary: s)
  case (Cons b bs)
  obtain p m where run: "consputc (scast b) s = Ok (s\<lparr>uartout := uartout s @ [b], crtpos := p, crt := m\<rparr>)" "unat p < 24 * 80"
    using consputc_ok [OF Cons.prems(1), of "scast b"] Cons.prems(2) scast_char [of b] by (auto simp: sent_def)
  let ?t = "s\<lparr>uartout := uartout s @ [b], crtpos := p, crt := m\<rparr>"
  have "screen_ok ?t" "uart ?t" using Cons.prems run(2) by (simp_all add: screen_ok_def)
  from Cons.IH [OF this] show ?case using run by auto
qed simp

lemma printint_out:
  assumes "screen_ok s" "uart s" "printint_buf xx base sg = Ok ds"
  shows "\<exists>t. printint xx base sg s = Ok t \<and> screen_ok t \<and> uartout t = uartout s @ rev ds"
  using consputs_ok [OF assms(1,2), of "rev ds"] assms(3) by (simp add: printint_def)

text \<open>C33: \<open>printint\<close> prints the number. The characters that reach the serial port are, in this order, a decimal form that reads back
  as the signed number, in at most eleven characters, or a hexadecimal form that reads back as the unsigned one, in at most eight,
  so that the buffer of 16 characters is never overrun; the cursor stays on the screen. The least \<open>int\<close>, whose
  negation overflows, is left out of the decimal case.\<close>

theorem printint_roundtrip:
  assumes "screen_ok s" "uart s"
  shows "(sint xx \<noteq> - (2 ^ 31) \<longrightarrow>
      (\<exists>t cs. printint xx 10 True s = Ok t \<and> screen_ok t \<and> uartout t = uartout s @ cs \<and> length cs \<le> 11 \<and> read_int cs = sint xx))
    \<and> (\<exists>t cs. printint xx 16 False s = Ok t \<and> screen_ok t \<and> uartout t = uartout s @ cs \<and> length cs \<le> 8 \<and> num_val 16 cs = unat xx)"
proof (intro conjI impI)
  assume "sint xx \<noteq> - (2 ^ 31)"
  then obtain ds where "printint_buf xx 10 True = Ok ds" "length ds \<le> 11" "read_int (rev ds) = sint xx"
    using printint_buf_dec by blast
  then show "\<exists>t cs. printint xx 10 True s = Ok t \<and> screen_ok t \<and> uartout t = uartout s @ cs \<and> length cs \<le> 11 \<and> read_int cs = sint xx"
    using printint_out [OF assms] by (metis length_rev)
next
  obtain ds where "printint_buf xx 16 False = Ok ds" "length ds \<le> 8" "num_val 16 (rev ds) = unat xx"
    using printint_buf_hex by blast
  then show "\<exists>t cs. printint xx 16 False s = Ok t \<and> screen_ok t \<and> uartout t = uartout s @ cs \<and> length cs \<le> 8 \<and> num_val 16 cs = unat xx"
    using printint_out [OF assms] by (metis length_rev)
qed

section \<open>Line editing\<close>

interpretation in_ring: ring INPUT_BUF
  by unfold_locales simp

text \<open>The lines that are complete, which a reader gets, and the line being edited.\<close>

definition typed :: "'z consst_scheme \<Rightarrow> byte list" where
  "typed s = rlist INPUT_BUF (ibuf s) (in_r s) (in_w s)"

definition editing :: "'z consst_scheme \<Rightarrow> byte list" where
  "editing s = rlist INPUT_BUF (ibuf s) (in_w s) (in_e s)"

definition in_inv :: "'z consst_scheme \<Rightarrow> bool" where
  "in_inv s \<longleftrightarrow> unat (in_w s - in_r s) \<le> unat (in_e s - in_r s) \<and> unat (in_e s - in_r s) \<le> 128
     \<and> 10 \<notin> set (editing s)"

text \<open>What one character does to the two lists.\<close>

definition edit_char :: "int \<Rightarrow> byte list \<times> byte list \<Rightarrow> byte list \<times> byte list" where
  "edit_char c = (\<lambda>(ls, ed).
     if c = 16 then (ls, ed)
     else if c = 21 then (ls, [])
     else if c = 8 \<or> c = 0x7f then (ls, butlast ed)
     else if c \<noteq> 0 \<and> length ls + length ed < 128 then
       let c = (if c = 13 then 10 else c); ed = ed @ [of_int c] in
       if c = 10 \<or> c = 4 \<or> length ls + length ed = 128 then (ls @ ed, []) else (ls, ed)
     else (ls, ed))"

lemma in_lengths:
  assumes "unat (in_w s - in_r s) \<le> unat (in_e s - in_r s)"
  shows "length (typed s) + length (editing s) = unat (in_e s - in_r s)"
  using arg_cong [OF rlist_split [OF assms, of INPUT_BUF "ibuf s"], of length] by (simp add: typed_def editing_def)

lemma editing_last:
  assumes "in_e s \<noteq> in_w s"
  shows "editing s = editing (s\<lparr>in_e := in_e s - 1\<rparr>) @ [in_at (in_e s - 1) s]"
  using rlist_last [OF assms, of INPUT_BUF "ibuf s"] by (simp add: editing_def in_at_def)

text \<open>A step back of the edit index keeps the invariant.\<close>

lemma in_inv_back:
  assumes "in_inv s" "in_e s \<noteq> in_w s"
  shows "in_inv (s\<lparr>in_e := in_e s - 1\<rparr>)"
proof -
  let ?t = "s\<lparr>in_e := in_e s - 1\<rparr>"
  have "in_e s \<noteq> in_r s"
  proof
    assume "in_e s = in_r s"
    then have "unat (in_w s - in_r s) = 0" using assms(1) by (simp add: in_inv_def)
    then have "in_w s = in_r s" unfolding unat_diff_0 .
    with \<open>in_e s = in_r s\<close> assms(2) show False by simp
  qed
  then have e: "Suc (unat (in_e s - 1 - in_r s)) = unat (in_e s - in_r s)" by (rule unat_pred_diff)
  have "in_w s - in_r s \<noteq> in_e s - in_r s" using assms(2) by simp
  then have "unat (in_w s - in_r s) \<noteq> unat (in_e s - in_r s)" unfolding word_unat_eq_iff .
  then have "unat (in_w s - in_r s) \<le> unat (in_e s - 1 - in_r s)" using assms(1) e by (simp add: in_inv_def)
  moreover have "10 \<notin> set (editing ?t)" using assms editing_last [OF assms(2)] by (simp add: in_inv_def)
  ultimately show ?thesis using assms(1) e by (simp add: in_inv_def)
qed

text \<open>Output does not touch the input buffer.\<close>

lemma consputc_in:
  assumes "screen_ok s"
  shows "\<exists>t. consputc c s = Ok t \<and> screen_ok t \<and> hw t = hw s \<and> mem t = mem s \<and> procs t = procs s
     \<and> in_r t = in_r s \<and> in_w t = in_w s \<and> in_e t = in_e s \<and> ibuf t = ibuf s"
  using consputc_ok [OF assms, of c] assms by (auto simp: screen_ok_def)

lemma in_cong:
  assumes "in_r t = in_r s" "in_w t = in_w s" "in_e t = in_e s" "ibuf t = ibuf s"
  shows "typed t = typed s" and "editing t = editing s" and "in_inv t = in_inv s"
  using assms by (simp_all add: typed_def editing_def in_inv_def)

lemma kill_line_ok:
  "in_inv s \<Longrightarrow> screen_ok s \<Longrightarrow> k = unat (in_e s - in_w s) \<Longrightarrow>
   \<exists>t. kill_line k s = Ok t \<and> screen_ok t \<and> in_inv t \<and> hw t = hw s \<and> procs t = procs s
     \<and> typed t = typed s \<and> editing t = []"
proof (induction k arbitrary: s)
  case 0
  then have "in_e s = in_w s" by (metis unat_diff_0)
  with 0 show ?case by (simp add: editing_def)
next
  case (Suc k)
  then have ne: "in_e s \<noteq> in_w s" by auto
  let ?s = "s\<lparr>in_e := in_e s - 1\<rparr>"
  have nl: "in_at (in_e s - 1) s \<noteq> 10"
    using Suc.prems(1) editing_last [OF ne] by (auto simp: in_inv_def)
  have "screen_ok ?s" using Suc.prems(2) by (simp add: screen_ok_def)
  then obtain t where t: "consputc BACKSPACE ?s = Ok t" "screen_ok t" "hw t = hw s" "procs t = procs s"
    "in_r t = in_r s" "in_w t = in_w s" "in_e t = in_e s - 1" "ibuf t = ibuf s"
    using consputc_in [of ?s BACKSPACE] by auto
  have "k = unat (in_e t - in_w t)"
    using Suc.prems(3) unat_pred_diff [OF ne] t(6,7) by (metis Suc_inject)
  moreover have "in_inv t" using in_inv_back [OF Suc.prems(1) ne] t in_cong(3) [of t ?s] by simp
  ultimately obtain u where "kill_line k t = Ok u" "screen_ok u" "in_inv u" "hw u = hw t" "procs u = procs t"
    "typed u = typed t" "editing u = []" using Suc.IH [of t] t(2) by blast
  with t ne nl show ?case by (simp add: typed_def)
qed

text \<open>A character that fits is appended to the line.\<close>

lemma typed_append:
  fixes s :: "'z consst_scheme" and b :: byte
  assumes "in_inv s" "unat (in_e s - in_r s) < 128"
  defines "t \<equiv> s\<lparr>ibuf := (ibuf s)(unat (in_e s mod INPUT_BUF) := b), in_e := in_e s + 1\<rparr>"
  shows "typed t = typed s" and "editing t = editing s @ [b]" and "b \<noteq> 10 \<Longrightarrow> in_inv t"
    and "typed (t\<lparr>in_w := in_e s + 1\<rparr>) = typed s @ editing s @ [b]"
    and "editing (t\<lparr>in_w := in_e s + 1\<rparr>) = []" and "in_inv (t\<lparr>in_w := in_e s + 1\<rparr>)"
proof -
  let ?buf = "(ibuf s)(unat (in_e s mod INPUT_BUF) := b)"
  have le: "unat (in_w s - in_r s) \<le> unat (in_e s - in_r s)" using assms(1) by (simp add: in_inv_def)
  have lens: "length (typed s) + length (editing s) < 128" using in_lengths [OF le] assms(2) by simp
  have lt: "unat (in_e s - in_r s) < unat INPUT_BUF" "unat (in_e s - in_w s) < unat INPUT_BUF"
    using assms(2) lens by (simp_all add: editing_def)
  have all: "rlist INPUT_BUF ?buf (in_r s) (in_e s + 1) = typed s @ editing s @ [b]"
    using in_ring.put [OF lt(1)] rlist_split [OF le, of INPUT_BUF "ibuf s"] by (simp add: typed_def editing_def)
  have ed: "rlist INPUT_BUF ?buf (in_w s) (in_e s + 1) = editing s @ [b]"
    using in_ring.put [OF lt(2)] by (simp add: editing_def)
  have "unat (in_e s + 1 - in_r s) = Suc (unat (in_e s - in_r s))"
    using arg_cong [OF all, of length] in_lengths [OF le] by simp
  then have e: "unat (in_e s + 1 - in_r s) \<le> 128" "unat (in_w s - in_r s) \<le> unat (in_e s + 1 - in_r s)"
    using assms(2) le by simp_all
  have "rlist INPUT_BUF ?buf (in_r s) (in_w s) @ (editing s @ [b]) = typed s @ (editing s @ [b])"
    using all ed rlist_split [OF e(2), of INPUT_BUF ?buf] by simp
  then show "typed t = typed s" unfolding typed_def [of t] unfolding t_def by simp
  show ed': "editing t = editing s @ [b]" using ed unfolding editing_def [of t] unfolding t_def by simp
  show "typed (t\<lparr>in_w := in_e s + 1\<rparr>) = typed s @ editing s @ [b]" 
    using all unfolding typed_def [of "t\<lparr>in_w := in_e s + 1\<rparr>"] unfolding t_def by simp
  show em: "editing (t\<lparr>in_w := in_e s + 1\<rparr>) = []" by (simp add: editing_def t_def)
  show "in_inv t" if "b \<noteq> 10" using that e assms(1) ed' by (simp add: in_inv_def) (simp add: t_def)
  show "in_inv (t\<lparr>in_w := in_e s + 1\<rparr>)" using e em by (simp add: in_inv_def) (simp add: t_def)
qed

definition in_ready :: "'z consst_scheme \<Rightarrow> bool" where
  "in_ready s \<longleftrightarrow> in_inv s \<and> screen_ok s \<and> hw_ok (hw s) \<and> lock_free PtableLock (hw s)"


lemma wakeup_in:
  assumes "hw_ok (hw s)" "lock_free PtableLock (hw s)"
  shows "\<exists>t. wakeup c s = Ok t \<and> hw_same (hw s) (hw t) \<and> awake c t \<and> in_r t = in_r s \<and> in_w t = in_w s
     \<and> in_e t = in_e s \<and> ibuf t = ibuf s \<and> panicked t = panicked s \<and> crtpos t = crtpos s"
  using wakeup_ok [OF assms, of c] hw_same_cycled [OF assms, of "mem s"] by (auto simp: wakeup1_def awake_def)

lemma in_ready_cong:
  assumes "in_inv t" "screen_ok t" "hw_same (hw s) (hw t)" "in_ready s"
  shows "in_ready t"
  using assms hw_same_ok hw_same_free by (auto simp: in_ready_def)

lemma cons_char_insert:
  fixes s :: "'z consst_scheme"
  assumes "in_ready s" "0 \<le> c" "c < 256" and 4: "c \<notin> {16, 21, 8, 0x7f}" and True: "c \<noteq> 0 \<and> in_e s - in_r s < INPUT_BUF"
  shows "\<exists>t. cons_char c s = Ok (c = 16, t) \<and> in_ready t \<and> hw_same (hw s) (hw t)
     \<and> (typed t, editing t) = edit_char c (typed s, editing s)
     \<and> (typed t = typed s \<or> awake ChInput t)"
proof -
  have inv: "in_inv s" and scr: "screen_ok s" and ok: "hw_ok (hw s)" "lock_free PtableLock (hw s)"
    using assms(1) by (simp_all add: in_ready_def)
  have lens: "length (typed s) + length (editing s) = unat (in_e s - in_r s)"
    using in_lengths [of s] inv by (simp add: in_inv_def)
  have room: "unat (in_e s - in_r s) < 128" using True by (simp add: word_less_nat_alt)
  define d where "d = (if c = 13 then 10 else c)"
  define s' where "s' = s\<lparr>ibuf := (ibuf s)(unat (in_e s mod INPUT_BUF) := of_int d), in_e := in_e s + 1\<rparr>"
  have "screen_ok s'" using scr by (simp add: screen_ok_def s'_def)
  then obtain t where t: "consputc (of_int d) s' = Ok t" "screen_ok t" "hw t = hw s"
    "in_r t = in_r s" "in_w t = in_w s" "in_e t = in_e s + 1" "ibuf t = ibuf s'"
    using consputc_in [of s' "of_int d"] by (auto simp: s'_def)
  have d10: "(of_int d :: byte) = 10 \<longleftrightarrow> d = 10"
  proof -
    have "uint (of_int d :: byte) = d" using assms(2,3) by (simp add: d_def unsigned_of_int take_bit_int_eq_self)
    then show ?thesis by auto
  qed
  have e1: "unat (in_e s + 1 - in_r s) = Suc (unat (in_e s - in_r s))"
    using room by (intro unat_Suc_diff) (auto simp: unsigned_minus_1_eq_mask mask_eq_exp_minus_1)
  have "in_e s + 1 = in_r s + INPUT_BUF \<longleftrightarrow> in_e s + 1 - in_r s = 128" by (auto simp: diff_eq_eq add.commute)
  also have "\<dots> \<longleftrightarrow> length (typed s) + length (editing s @ [of_int d]) = 128"
    unfolding word_unat_eq_iff e1 using lens by simp
  finally have full: "in_e t = in_r t + INPUT_BUF \<longleftrightarrow> length (typed s) + length (editing s @ [of_int d]) = 128"
    using t(4,6) by simp
  define go where "go \<longleftrightarrow> d = 10 \<or> d = 4 \<or> length (typed s) + length (editing s @ [of_int d]) = 128"
  have run: "cons_char c s = (if go then bindE (wakeup ChInput (t\<lparr>in_w := in_e t\<rparr>)) (\<lambda>s. Ok (False, s)) else Ok (False, t))"
  proof -
    have "cons_char c s = bindE (consputc (of_int d) s') (\<lambda>s. if d = 10 \<or> d = 4 \<or> in_e s = in_r s + INPUT_BUF
        then bindE (wakeup ChInput (s\<lparr>in_w := in_e s\<rparr>)) (\<lambda>s. Ok (False, s)) else Ok (False, s))"
      using 4 True unfolding cons_char_def d_def s'_def by (simp add: Let_def)
    then show ?thesis using t(1) full by (simp add: go_def)
  qed
  have spec: "edit_char c (typed s, editing s) = (if go then (typed s @ editing s @ [of_int d], []) else (typed s, editing s @ [of_int d]))"
    using 4 True lens room unfolding edit_char_def d_def [symmetric] go_def by (auto simp: Let_def)
  show ?thesis
  proof (cases go)
    case go: True
    let ?t = "t\<lparr>in_w := in_e t\<rparr>"
    have ht: "hw_ok (hw ?t)" "lock_free PtableLock (hw ?t)" using ok t(3) by simp_all
    obtain u where u: "wakeup ChInput ?t = Ok u" "hw_same (hw ?t) (hw u)" "awake ChInput u" "in_r u = in_r ?t"
      "in_w u = in_w ?t" "in_e u = in_e ?t" "ibuf u = ibuf ?t" "panicked u = panicked ?t" "crtpos u = crtpos ?t"
      using wakeup_in [OF ht, of ChInput] by blast
    have "in_r u = in_r (s'\<lparr>in_w := in_e s + 1\<rparr>)" "in_w u = in_w (s'\<lparr>in_w := in_e s + 1\<rparr>)"
      "in_e u = in_e (s'\<lparr>in_w := in_e s + 1\<rparr>)" "ibuf u = ibuf (s'\<lparr>in_w := in_e s + 1\<rparr>)"
      using u t by (simp_all add: s'_def)
    note cong = in_cong [OF this]
    have "in_inv u" "typed u = typed s @ editing s @ [of_int d]" "editing u = []"
      using cong typed_append(4-6) [OF inv room, of "of_int d", folded s'_def] by simp_all
    moreover have "screen_ok u" using t(2) u(8,9) by (simp add: screen_ok_def)
    moreover have "hw_same (hw s) (hw u)" using u(2) t(3) by simp
    moreover have "cons_char c s = Ok (c = 16, u)" using run go u(1) 4 by simp
    ultimately show ?thesis using in_ready_cong [OF _ _ _ assms(1), of u] spec go u(3) by simp
  next
    case False
    have "in_r t = in_r s'" "in_w t = in_w s'" "in_e t = in_e s'" "ibuf t = ibuf s'"
      using t by (simp_all add: s'_def)
    note cong = in_cong [OF this]
    have "in_inv t" "typed t = typed s" "editing t = editing s @ [of_int d]"
      using cong typed_append(1-3) [OF inv room, of "of_int d", folded s'_def] d10 False by (simp_all add: go_def)
    moreover have "cons_char c s = Ok (c = 16, t)" using run False 4 by simp
    ultimately show ?thesis using in_ready_cong [OF _ t(2) _ assms(1)] t(3) spec False by simp
  qed
qed

text \<open>C35: editing a line. Each character from the keyboard or the serial port does to the
  buffer what \<open>edit_char\<close> says: it is appended, or erases the last one, or the whole line, and
  at the end of a line, at an end-of-file mark, or when the buffer is full the line becomes
  visible to readers, who are woken. No complete line is ever changed, the buffer of 128 bytes
  is never overrun, and the indices may wrap.\<close>

theorem cons_char_refines:
  assumes "in_ready s" "0 \<le> c" "c < 256"
  shows "\<exists>t. cons_char c s = Ok (c = 16, t) \<and> in_ready t \<and> hw_same (hw s) (hw t)
     \<and> (typed t, editing t) = edit_char c (typed s, editing s)
     \<and> (typed t = typed s \<or> awake ChInput t)"
proof -
  have inv: "in_inv s" and scr: "screen_ok s" and ok: "hw_ok (hw s)" "lock_free PtableLock (hw s)"
    using assms(1) by (simp_all add: in_ready_def)
  have lens: "length (typed s) + length (editing s) = unat (in_e s - in_r s)"
    using in_lengths [of s] inv by (simp add: in_inv_def)
  consider "c = 16" | "c = 21" | "c = 8 \<or> c = 0x7f" | "c \<notin> {16, 21, 8, 0x7f}" by blast
  then show ?thesis
  proof cases
    case 1
    with assms show ?thesis by (simp add: cons_char_def edit_char_def)
  next
    case 2
    with kill_line_ok [OF inv scr refl] assms(1) show ?thesis
      by (fastforce simp: cons_char_def edit_char_def in_ready_def)
  next
    case 3
    show ?thesis
    proof (cases "in_e s = in_w s")
      case True
      with 3 assms show ?thesis by (auto simp: cons_char_def edit_char_def editing_def)
    next
      case False
      let ?s = "s\<lparr>in_e := in_e s - 1\<rparr>"
      have "screen_ok ?s" using scr by (simp add: screen_ok_def)
      then obtain t where t: "consputc BACKSPACE ?s = Ok t" "screen_ok t" "hw t = hw s"
        "in_r t = in_r ?s" "in_w t = in_w ?s" "in_e t = in_e ?s" "ibuf t = ibuf ?s"
        using consputc_in [of ?s BACKSPACE] by auto
      note cong = in_cong [OF t(4-7)]
      have "typed ?s = typed s" by (simp add: typed_def)
      moreover have "editing ?s = butlast (editing s)" using editing_last [OF False] by simp
      moreover have "in_ready t" using in_inv_back [OF inv False] cong t assms(1) by (simp add: in_ready_def)
      moreover have "cons_char c s = Ok (c = 16, t)" using 3 False t(1) by (auto simp: cons_char_def)
      ultimately show ?thesis using 3 t(3) cong by (auto simp: edit_char_def)
    qed
  next
    case 4
    show ?thesis
    proof (cases "c \<noteq> 0 \<and> in_e s - in_r s < INPUT_BUF")
      case False
      then have "\<not> (c \<noteq> 0 \<and> length (typed s) + length (editing s) < 128)"
        using lens by (simp add: word_less_nat_alt)
      with False 4 assms(1) show ?thesis by (auto simp: cons_char_def edit_char_def)
    next
      case True
      show ?thesis using cons_char_insert [OF assms 4 True] .
    qed
  qed
qed

lemma in_inv_read:
  assumes "in_inv s" "in_r s \<noteq> in_w s"
  shows "in_inv (s\<lparr>in_r := in_r s + 1\<rparr>)" and "typed s = in_at (in_r s) s # typed (s\<lparr>in_r := in_r s + 1\<rparr>)"
    and "editing (s\<lparr>in_r := in_r s + 1\<rparr>) = editing s"
proof -
  let ?t = "s\<lparr>in_r := in_r s + 1\<rparr>"
  have le: "unat (in_w s - in_r s) \<le> unat (in_e s - in_r s)" using assms(1) by (simp add: in_inv_def)
  then have "in_e s \<noteq> in_r s" using assms(2) unat_diff_0 [of "in_w s" "in_r s"] by auto
  then have "Suc (unat (in_e s - (in_r s + 1))) = unat (in_e s - in_r s)"
    "Suc (unat (in_w s - (in_r s + 1))) = unat (in_w s - in_r s)"
    using unat_pred_diff [of "in_e s" "in_r s"] unat_pred_diff [of "in_w s" "in_r s"] assms(2)
    by (simp_all add: diff_diff_eq add.commute)
  then show "in_inv ?t" using assms(1) le by (simp add: in_inv_def editing_def)
  show "typed s = in_at (in_r s) s # typed ?t"
    using rlist_first [of "in_w s" "in_r s" INPUT_BUF "ibuf s"] assms(2) by (simp add: typed_def in_at_def)
  show "editing ?t = editing s" by (simp add: editing_def)
qed

lemma cread_loop_spec:
  assumes "in_inv s" "hw_ok (hw s)" "running s = Some p" "n \<le> target"
  shows "\<exists>e cs t. cread_loop n target s = Ok (e, cs, t) \<and> in_inv t \<and> editing t = editing s
     \<and> length cs \<le> n \<and> 4 \<notin> set cs \<and> 10 \<notin> set (butlast cs)
     \<and> (if e = CDone then
          (length cs = n \<or> cs \<noteq> [] \<and> last cs = 10) \<and> typed s = cs @ typed t
          \<or> (\<exists>r. typed s = cs @ 4 # r \<and> typed t = (if cs = [] \<and> n = target then r else 4 # r))
        else typed s = cs \<and> typed t = [] \<and> e = (if killed (the_proc s p) then CKilled else CSleep))"
  using assms
proof (induction n arbitrary: s)
  case 0
  then show ?case by auto
next
  case (Suc n)
  show ?case
  proof (cases "in_r s = in_w s")
    case True
    then have "cread_loop (Suc n) target s = Ok (if killed (the_proc s p) then CKilled else CSleep, [], s\<lparr>hw := peeked (hw s)\<rparr>)"
      using curproc_ok [OF Suc.prems(2)] Suc.prems(3) by simp
    moreover have "in_inv (s\<lparr>hw := peeked (hw s)\<rparr>)" using Suc.prems(1) in_cong(3) [of "s\<lparr>hw := peeked (hw s)\<rparr>" s] by simp
    ultimately show ?thesis using True by (auto simp: typed_def editing_def)
  next
    case False
    let ?t = "s\<lparr>in_r := in_r s + 1\<rparr>" and ?c = "in_at (in_r s) s"
    note rd = in_inv_read [OF Suc.prems(1) False]
    consider "?c = 4" | "?c = 10" | "?c \<noteq> 4" "?c \<noteq> 10" by blast
    then show ?thesis
    proof cases
      case 1
      then have run: "cread_loop (Suc n) target s = Ok (CDone, [], if Suc n < target then s else ?t)" using False by simp
      show ?thesis using run rd 1 Suc.prems by (cases "Suc n < target") auto
    next
      case 2
      then have run: "cread_loop (Suc n) target s = Ok (CDone, [?c], ?t)" using False by simp
      show ?thesis using run rd 2 by auto
    next
      case 3
      have "\<exists>e cs t. cread_loop n target ?t = Ok (e, cs, t) \<and> in_inv t \<and> editing t = editing ?t
         \<and> length cs \<le> n \<and> 4 \<notin> set cs \<and> 10 \<notin> set (butlast cs)
         \<and> (if e = CDone then
              (length cs = n \<or> cs \<noteq> [] \<and> last cs = 10) \<and> typed ?t = cs @ typed t
              \<or> (\<exists>r. typed ?t = cs @ 4 # r \<and> typed t = (if cs = [] \<and> n = target then r else 4 # r))
            else typed ?t = cs \<and> typed t = [] \<and> e = (if killed (the_proc ?t p) then CKilled else CSleep))"
        by (rule Suc.IH) (use rd(1) Suc.prems in simp_all)
      then obtain e cs t where t: "cread_loop n target ?t = Ok (e, cs, t)" "in_inv t" "editing t = editing ?t"
         "length cs \<le> n" "4 \<notin> set cs" "10 \<notin> set (butlast cs)"
         "if e = CDone then
            (length cs = n \<or> cs \<noteq> [] \<and> last cs = 10) \<and> typed ?t = cs @ typed t
            \<or> (\<exists>r. typed ?t = cs @ 4 # r \<and> typed t = (if cs = [] \<and> n = target then r else 4 # r))
          else typed ?t = cs \<and> typed t = [] \<and> e = (if killed (the_proc ?t p) then CKilled else CSleep)" by blast
      have run: "cread_loop (Suc n) target s = Ok (e, ?c # cs, t)" using False 3 t(1) by simp
      have "n \<noteq> target" using Suc.prems(4) by simp
      then show ?thesis using run rd 3 t(2-7)
        by (intro exI [of _ e] exI [of _ "?c # cs"] exI [of _ t]) (auto split: if_splits)
    qed
  qed
qed

text \<open>C36: reading from the console. A read gets the oldest characters of the complete lines, in
  order and without loss; it ends after the bytes asked for, after the end of a line, or at
  an end-of-file mark, which is consumed only by a read that got nothing else, so that the
  next read returns 0. Otherwise the reader sleeps, or fails when it was killed. The line
  being edited is never seen.\<close>

theorem cread_loop_lines:
  assumes "in_inv s" "hw_ok (hw s)" "running s = Some p"
  shows "\<exists>e cs t. cread_loop n n s = Ok (e, cs, t) \<and> in_inv t \<and> editing t = editing s
     \<and> length cs \<le> n \<and> 4 \<notin> set cs \<and> 10 \<notin> set (butlast cs)
     \<and> (if e = CDone then
          (length cs = n \<or> cs \<noteq> [] \<and> last cs = 10) \<and> typed s = cs @ typed t
          \<or> (\<exists>r. typed s = cs @ 4 # r \<and> typed t = (if cs = [] then r else 4 # r))
        else typed s = cs \<and> typed t = [] \<and> e = (if killed (the_proc s p) then CKilled else CSleep))"
  using cread_loop_spec [OF assms order_refl, of n] by (simp only: simp_thms)

section \<open>Examples\<close>

text \<open>A console whose indices are about to wrap.\<close>

definition demo_c :: consst where
  "demo_c = procst.extend (filestate.extend demo_file (procst.fields True 0 0))
     (consst.fields False True (\<lambda>_. 7) (-2) (-1) (-1) (\<lambda>_. 0) 0 True [] [] [] 0)"

lemma demo_c_sel [simp]:
  "hw demo_c = run_hw" "procs demo_c = demo_proc # replicate 63 idle_proc"
  "in_r demo_c = -2" "in_w demo_c = -1" "in_e demo_c = -1" "ibuf demo_c = (\<lambda>_. 7)" "panicked demo_c = False"
  "crtpos demo_c = 0" "uart demo_c = True" "uartout demo_c = []"
  using demo_file_sel by (simp_all add: demo_c_def filestate.defs procst.defs consst.defs)

lemma demo_in: "typed demo_c = [7]" "editing demo_c = []" "in_inv demo_c" "screen_ok demo_c" "in_ready demo_c"
proof -
  show t: "typed demo_c = [7]" "editing demo_c = []" by (simp_all add: typed_def editing_def rlist_def)
  show i: "in_inv demo_c" using t by (simp add: in_inv_def)
  show sc: "screen_ok demo_c" by (simp add: screen_ok_def)
  show "in_ready demo_c" using i sc run_hw_ok run_hw_free by (simp add: in_ready_def)
qed

theorem printint_roundtrip_witness:
  "screen_ok demo_c \<and> uart demo_c
   \<and> (\<exists>t cs. printint (- 42) 10 True demo_c = Ok t \<and> uartout t = cs \<and> read_int cs = - 42)
   \<and> (\<exists>t cs. printint (- 42) 16 False demo_c = Ok t \<and> uartout t = cs \<and> num_val 16 cs = 0xFFFFFFD6)"
  using printint_roundtrip [OF demo_in(4), of "- 42"] demo_in(4) by auto

theorem write_chars_screen_witness:
  "screen_ok demo_c \<and> (\<exists>t. write_chars [72, 105, 10] demo_c = Ok t \<and> screen_ok t \<and> uartout t = [72, 105, 10])"
  using write_chars_screen [OF demo_in(4), of "[72, 105, 10]"] demo_in(4) by auto

theorem cons_char_refines_witness:
  "in_ready demo_c \<and> (\<exists>t. cons_char 97 demo_c = Ok (False, t) \<and> typed t = [7] \<and> editing t = [97])"
  using cons_char_refines [OF demo_in(5), of 97] demo_in by (auto simp: edit_char_def)

theorem cread_loop_lines_witness:
  "in_inv demo_c \<and> (\<exists>t. cread_loop 1 1 demo_c = Ok (CDone, [7], t) \<and> typed t = [])"
proof -
  have "hw_ok (hw demo_c)" "running demo_c = Some 0" using run_hw_ok by simp_all
  then obtain e cs t where t: "cread_loop 1 1 demo_c = Ok (e, cs, t)"
    "if e = CDone then
       (length cs = 1 \<or> cs \<noteq> [] \<and> last cs = 10) \<and> typed demo_c = cs @ typed t
       \<or> (\<exists>r. typed demo_c = cs @ 4 # r \<and> typed t = (if cs = [] then r else 4 # r))
     else typed demo_c = cs \<and> typed t = [] \<and> e = (if killed (the_proc demo_c 0) then CKilled else CSleep)"
    using cread_loop_lines [OF demo_in(3), of 0 1] by blast
  have "cread_loop 1 1 demo_c = Ok (CDone, [7], demo_c\<lparr>in_r := -1\<rparr>)"
    by (simp add: in_at_def)
  with t demo_in(1,3) show ?thesis by (auto simp: Cons_eq_append_conv)
qed

end
