(* ===== verification/Trap.thy ===== *)
theory Trap
  imports Sysfile Console
begin

text \<open>
  The system calls of \<open>sysproc.c\<close>, the dispatch of \<open>syscall.c\<close> and the trap handler of
  \<open>trap.c\<close>.

  A call that gives up the CPU does not return to its caller at once. \<open>Asleep\<close> is a call that
  is about to sleep, \<open>Gone\<close> one that has run \<open>exit\<close>; \<open>Yields\<close> is a trap about to switch to
  the scheduler. \<open>sys_sleep_again\<close> and \<open>trap_resume\<close> are what a thread does when it runs again.
\<close>

datatype outcome = Ret int | Asleep | Gone | Yields bool

definition returns :: "(int \<times> 's) res \<Rightarrow> (outcome \<times> 's) res" where
  "returns r = bindE r (\<lambda>(v, s). Ok (Ret v, s))"

section \<open>System calls on processes\<close>

definition exit_call :: "'z procst_scheme \<Rightarrow> (outcome \<times> 'z procst_scheme) res" where
  "exit_call s = bindE (exit_out s) (\<lambda>(_, s). Ok (Gone, s))"

definition sys_fork :: "'z procst_scheme \<Rightarrow> (outcome \<times> 'z procst_scheme) res" where
  "sys_fork s = returns (fork s)"

definition sys_exit :: "'z procst_scheme \<Rightarrow> (outcome \<times> 'z procst_scheme) res" where
  "sys_exit s = exit_call s"

definition sys_wait :: "'z pstate_scheme \<Rightarrow> (outcome \<times> 'z pstate_scheme) res" where
  "sys_wait s =
     bindE (wait s) (\<lambda>(r, s). Ok (case r of WaitRet n \<Rightarrow> Ret n | WaitSleep \<Rightarrow> Asleep, s))"

definition sys_kill :: "'z pstate_scheme \<Rightarrow> (int \<times> 'z pstate_scheme) res" where
  "sys_kill s = orfail (argint 0 s) (\<lambda>w s. kill (sint w) s)"

definition sys_getpid :: "'z pstate_scheme \<Rightarrow> (int \<times> 'z pstate_scheme) res" where
  "sys_getpid s = bindE (curproc s) (\<lambda>(p, s). Ok (pid (the_proc s p), s))"

definition sys_sbrk :: "'z procst_scheme \<Rightarrow> (int \<times> 'z procst_scheme) res" where
  "sys_sbrk s =
     orfail (argint 0 s) (\<lambda>n s.
     bindE (curproc s) (\<lambda>(p, s).
     let addr = sint (sz (the_proc s p)) in
     bindE (growproc (sint n) s) (\<lambda>(r, s).
     if r < 0 then Ok (-1, s) else Ok (addr, s))))"

text \<open>The loop of \<open>sys_sleep\<close> with \<open>tickslock\<close> held. The comparison is unsigned.\<close>

definition sleep_check :: "uint \<Rightarrow> uint \<Rightarrow> 'z pstate_scheme \<Rightarrow> (outcome \<times> 'z pstate_scheme) res" where
  "sleep_check ticks0 n s =
     (if ticks s - ticks0 < n then
        bindE (curproc s) (\<lambda>(p, s).
        if killed (the_proc s p) then bindE (unlock TicksLock s) (\<lambda>s. Ok (Ret (-1), s))
        else bindE (sleep_out ChTicks (Some TicksLock) s) (\<lambda>(_, s). Ok (Asleep, s)))
      else bindE (unlock TicksLock s) (\<lambda>s. Ok (Ret 0, s)))"

definition sys_sleep :: "'z pstate_scheme \<Rightarrow> (outcome \<times> 'z pstate_scheme) res" where
  "sys_sleep s =
     bindE (argint 0 s) (\<lambda>(r, s).
     case r of
       None \<Rightarrow> Ok (Ret (-1), s)
     | Some n \<Rightarrow> bindE (lock TicksLock s) (\<lambda>s. sleep_check (ticks s) n s))"

definition sys_sleep_again :: "nat \<Rightarrow> bool \<Rightarrow> uint \<Rightarrow> uint \<Rightarrow> 'z pstate_scheme
    \<Rightarrow> (outcome \<times> 'z pstate_scheme) res" where
  "sys_sleep_again p ie ticks0 n s = bindE (sleep_in p TicksLock ie s) (sleep_check ticks0 n)"

definition sys_uptime :: "'z pstate_scheme \<Rightarrow> (int \<times> 'z pstate_scheme) res" where
  "sys_uptime s =
     bindE (lock TicksLock s) (\<lambda>s.
     let xticks = ticks s in
     bindE (unlock TicksLock s) (\<lambda>s. Ok (sint xticks, s)))"

definition sys_countfp :: "'z kstate_scheme \<Rightarrow> (int \<times> 'z kstate_scheme) res" where
  "sys_countfp s = bindE (countfp s) (\<lambda>(n, s). Ok (sint n, s))"

definition sys_countvp :: "'z pstate_scheme \<Rightarrow> (int \<times> 'z pstate_scheme) res" where
  "sys_countvp s = countvp s"

definition sys_countpp :: "'z pstate_scheme \<Rightarrow> (int \<times> 'z pstate_scheme) res" where
  "sys_countpp s = countpp s"

definition sys_countptp :: "'z pstate_scheme \<Rightarrow> (int \<times> 'z pstate_scheme) res" where
  "sys_countptp s = countptp s"

section \<open>Dispatch\<close>

text \<open>The table \<open>syscalls\<close> with the numbers of \<open>syscall.h\<close>.\<close>

definition syscalls :: "int \<Rightarrow> ('z consst_scheme \<Rightarrow> (outcome \<times> 'z consst_scheme) res) option" where
  "syscalls num =
     (if num = 1 then Some sys_fork
      else if num = 2 then Some sys_exit
      else if num = 3 then Some sys_wait
      else if num = 4 then Some (\<lambda>s. returns (sys_pipe s))
      else if num = 5 then Some (\<lambda>s. returns (sys_read cons_read s))
      else if num = 6 then Some (\<lambda>s. returns (sys_kill s))
      else if num = 7 then Some (\<lambda>s. returns (sys_exec cons_read s))
      else if num = 8 then Some (\<lambda>s. returns (sys_fstat s))
      else if num = 9 then Some (\<lambda>s. returns (sys_chdir s))
      else if num = 10 then Some (\<lambda>s. returns (sys_dup s))
      else if num = 11 then Some (\<lambda>s. returns (sys_getpid s))
      else if num = 12 then Some (\<lambda>s. returns (sys_sbrk s))
      else if num = 13 then Some sys_sleep
      else if num = 14 then Some (\<lambda>s. returns (sys_uptime s))
      else if num = 15 then Some (\<lambda>s. returns (sys_open s))
      else if num = 16 then Some (\<lambda>s. returns (sys_write cons_write s))
      else if num = 17 then Some (\<lambda>s. returns (sys_mknod s))
      else if num = 18 then Some (\<lambda>s. returns (sys_unlink s))
      else if num = 19 then Some (\<lambda>s. returns (sys_link s))
      else if num = 20 then Some (\<lambda>s. returns (sys_mkdir s))
      else if num = 21 then Some (\<lambda>s. returns (sys_close s))
      else if num = 22 then Some (\<lambda>s. returns (sys_countfp s))
      else if num = 23 then Some (\<lambda>s. returns (sys_countvp s))
      else if num = 24 then Some (\<lambda>s. returns (sys_countpp s))
      else if num = 25 then Some (\<lambda>s. returns (sys_countptp s))
      else None)"

text \<open>\<open>curproc->tf->eax = v\<close>. The frame pointer is read again after the call: \<open>curproc\<close> is
  the same process, and \<open>exec\<close> changes the frame in place.\<close>

definition set_eax :: "nat \<Rightarrow> int \<Rightarrow> 'z pstate_scheme \<Rightarrow> 'z pstate_scheme" where
  "set_eax p v s = s\<lparr>mem := store32 (mem s) (tf (the_proc s p) + TF_EAX) (of_int v)\<rparr>"

definition syscall :: "'z consst_scheme \<Rightarrow> (outcome \<times> 'z consst_scheme) res" where
  "syscall s =
     bindE (curproc s) (\<lambda>(p, s).
     let num = sint (load32 (mem s) (tf (the_proc s p) + TF_EAX)) in
     case syscalls num of
       Some f \<Rightarrow>
         bindE (f s) (\<lambda>(r, s).
         case r of
           Ret v \<Rightarrow> Ok (Ret v, set_eax p v s)
         | _ \<Rightarrow> Ok (r, s))
     | None \<Rightarrow>
         Ok (Ret (-1), set_eax p (-1) (cprintf_msg (''%d %s: unknown sys call %d'' @ [CHR 0x0A]) s)))"

section \<open>Traps\<close>

definition T_PGFLT :: uint where [simp]: "T_PGFLT = 14"
definition T_SYSCALL :: uint where [simp]: "T_SYSCALL = 64"
definition T_IRQ0 :: uint where [simp]: "T_IRQ0 = 32"
definition IRQ_TIMER :: uint where [simp]: "IRQ_TIMER = 0"
definition IRQ_KBD :: uint where [simp]: "IRQ_KBD = 1"
definition IRQ_COM1 :: uint where [simp]: "IRQ_COM1 = 4"
definition IRQ_IDE :: uint where [simp]: "IRQ_IDE = 14"
definition IRQ_SPURIOUS :: uint where [simp]: "IRQ_SPURIOUS = 31"

definition tvinit :: "'z machine_scheme \<Rightarrow> 'z machine_scheme" where
  "tvinit s = s\<lparr>hw := initlock TicksLock ''time'' (hw s)\<rparr>"

definition tick :: "'z pstate_scheme \<Rightarrow> 'z pstate_scheme res" where
  "tick s =
     bindE (lock TicksLock s) (\<lambda>s.
     bindE (wakeup ChTicks (s\<lparr>ticks := ticks s + 1\<rparr>)) (unlock TicksLock))"

text \<open>\<open>myproc() && myproc()->killed && (tf->cs&3) == DPL_USER\<close>.\<close>

definition must_exit :: "uint \<Rightarrow> 'z pstate_scheme \<Rightarrow> (bool \<times> 'z pstate_scheme) res" where
  "must_exit t s =
     bindE (myproc (hw s)) (\<lambda>(p, h).
     let s = s\<lparr>hw := h\<rparr> in
     Ok (case p of None \<Rightarrow> False | Some i \<Rightarrow> killed (the_proc s i) \<and> load16 (mem s) (t + TF_CS) AND 3 = DPL_USER, s))"

text \<open>The \<open>switch\<close> of \<open>trap\<close>. \<open>cr2\<close> is what \<open>rcr2\<close> reads; the interrupt of the disk is the
  argument \<open>ide\<close>. The flag of the result says that \<open>exit\<close> was called by \<open>CoW_handler\<close>.\<close>

definition trap_switch :: "('z consst_scheme \<Rightarrow> 'z consst_scheme res) \<Rightarrow> uint \<Rightarrow> uint \<Rightarrow> 'z consst_scheme
    \<Rightarrow> (bool \<times> 'z consst_scheme) res" where
  "trap_switch ide cr2 t s =
     (let n = load32 (mem s) (t + TF_TRAPNO); stay = (\<lambda>s. Ok (False, s)) in
      if n = T_IRQ0 + IRQ_TIMER then
        bindE (cpuid (hw s)) (\<lambda>c. if c = 0 then bindE (tick s) stay else stay s)
      else if n = T_IRQ0 + IRQ_IDE then bindE (ide s) stay
      else if n = T_IRQ0 + IRQ_IDE + 1 then stay s
      else if n = T_IRQ0 + IRQ_KBD then bindE (kbdintr s) stay
      else if n = T_IRQ0 + IRQ_COM1 then bindE (uartintr s) stay
      else if n = T_IRQ0 + 7 \<or> n = T_IRQ0 + IRQ_SPURIOUS then
        bindE (cpuid (hw s)) (\<lambda>_. stay (cprintf_msg (''cpu%d: spurious interrupt at %x:%x'' @ [CHR 0x0A]) s))
      else if n = T_PGFLT then
        bindE (curproc s) (\<lambda>(p, s). CoW_handler (pgdir (the_proc s p)) cr2 s)
      else
        bindE (myproc (hw s)) (\<lambda>(p, h).
        let s = s\<lparr>hw := h\<rparr> in
        if p = None \<or> load16 (mem s) (t + TF_CS) AND 3 = 0 then panic ''trap''
        else
          bindE (cpuid (hw s)) (\<lambda>_.
          stay (upd_proc (the p) (\<lambda>x. x\<lparr>killed := True\<rparr>)
            (cprintf_msg (''pid %d %s: trap %d err %d on cpu %d eip 0x%x addr 0x%x--kill proc'' @ [CHR 0x0A]) s)))))"

definition trap_resume :: "uint \<Rightarrow> bool \<Rightarrow> 'z procst_scheme \<Rightarrow> (outcome \<times> 'z procst_scheme) res" where
  "trap_resume t ie s =
     bindE (yield_in ie s) (\<lambda>s.
     bindE (must_exit t s) (\<lambda>(x, s). if x then exit_call s else Ok (Ret 0, s)))"

definition trap :: "('z consst_scheme \<Rightarrow> 'z consst_scheme res) \<Rightarrow> uint \<Rightarrow> uint \<Rightarrow> 'z consst_scheme
    \<Rightarrow> (outcome \<times> 'z consst_scheme) res" where
  "trap ide cr2 t s =
     (if load32 (mem s) (t + TF_TRAPNO) = T_SYSCALL then
        bindE (curproc s) (\<lambda>(p, s).
        if killed (the_proc s p) then exit_call s
        else
          bindE (syscall (upd_proc p (\<lambda>x. x\<lparr>tf := t\<rparr>) s)) (\<lambda>(r, s).
          case r of
            Ret v \<Rightarrow> bindE (curproc s) (\<lambda>(p, s). if killed (the_proc s p) then exit_call s else Ok (Ret v, s))
          | _ \<Rightarrow> Ok (r, s)))
      else
        bindE (trap_switch ide cr2 t s) (\<lambda>(gone, s).
        if gone then exit_call s
        else
          bindE (must_exit t s) (\<lambda>(x, s).
          if x then exit_call s
          else
            bindE (myproc (hw s)) (\<lambda>(p, h).
            let s = s\<lparr>hw := h\<rparr> in
            if p \<noteq> None \<and> pstate (the_proc s (the p)) = RUNNING
               \<and> load32 (mem s) (t + TF_TRAPNO) = T_IRQ0 + IRQ_TIMER
            then bindE (yield_out s) (\<lambda>(ie, s). Ok (Yields ie, s))
            else bindE (must_exit t s) (\<lambda>(x, s). if x then exit_call s else Ok (Ret 0, s))))))"

end
