(* ===== verification/Ulib.thy ===== *)
theory Ulib
  imports Cstr
begin

text \<open>
  The C library of the user programs: \<open>ulib.c\<close> and \<open>printf.c\<close>.

  A C string is the list of its characters up to the terminating zero, so that \<open>[]\<close> is the
  pointer to the terminator; \<open>memmove\<close> and \<open>strcpy\<close> write and work on memory. A routine that makes
  system calls takes them as parameters: \<open>rd n s\<close> is \<open>read\<close> with a buffer of \<open>n\<close> characters on an
  open file in state \<open>s\<close>, which delivers at most \<open>n\<close> characters and the next state.

  Shown are that \<open>strcmp\<close> decides the order of strings, that \<open>atoi\<close> reads back what \<open>printf\<close>
  prints for \<open>%d\<close>, and where the copy loop of \<open>memmove\<close>, unlike the kernel's, goes wrong.
\<close>

section \<open>Strings\<close>

definition NUL :: char where [simp]: "NUL = CHR 0x00"

definition NL :: char where [simp]: "NL = CHR 0x0A"

partial_function (option) strcpy :: "memory \<Rightarrow> uint \<Rightarrow> uint \<Rightarrow> memory option" where
  "strcpy m s t =
     (let m = m(s := m t) in if m s \<noteq> 0 then strcpy m (s + 1) (t + 1) else Some m)"

fun strcmp :: "string \<Rightarrow> string \<Rightarrow> int" where
  "strcmp [] [] = 0"
| "strcmp [] (d # q) = - int (of_char d)"
| "strcmp (c # p) [] = int (of_char c)"
| "strcmp (c # p) (d # q) = (if c = d then strcmp p q else int (of_char c) - int (of_char d))"

definition ustrlen :: "string \<Rightarrow> nat" where
  "ustrlen s = length s"

fun strchr :: "string \<Rightarrow> char \<Rightarrow> nat option" where
  "strchr [] c = None"
| "strchr (x # xs) c =
     (if x = NUL then None else if x = c then Some 0 else map_option Suc (strchr xs c))"

definition umemmove :: "memory \<Rightarrow> uint \<Rightarrow> uint \<Rightarrow> uint \<Rightarrow> memory" where
  "umemmove m vdst vsrc n = (if 0 < sint n then copy_fwd (unat n) m vdst vsrc else m)"

type_synonym 's rd = "nat \<Rightarrow> 's \<Rightarrow> string \<times> 's"

text \<open>\<open>n\<close> is the room left, \<open>max - 1 - i\<close>.\<close>

fun gets_loop :: "'s rd \<Rightarrow> nat \<Rightarrow> 's \<Rightarrow> string \<times> 's" where
  "gets_loop rd 0 s = ([], s)"
| "gets_loop rd (Suc n) s =
     (case rd 1 s of
        ([], s) \<Rightarrow> ([], s)
      | (c # _, s) \<Rightarrow>
          if c = NL \<or> c = CHR 0x0D then ([c], s)
          else let (cs, s) = gets_loop rd n s in (c # cs, s))"

definition gets :: "'s rd \<Rightarrow> nat \<Rightarrow> 's \<Rightarrow> string \<times> 's" where
  "gets rd mx s = gets_loop rd (mx - 1) s"

definition is_digit :: "char \<Rightarrow> bool" where
  "is_digit c \<longleftrightarrow> 48 \<le> (of_char c :: nat) \<and> (of_char c :: nat) \<le> 57"

fun atoi_loop :: "string \<Rightarrow> uint \<Rightarrow> uint" where
  "atoi_loop [] n = n"
| "atoi_loop (c # s) n = (if is_digit c then atoi_loop s (n * 10 + of_char c - 48) else n)"

definition atoi :: "string \<Rightarrow> uint" where
  "atoi s = atoi_loop s 0"

section \<open>Formatted output\<close>

definition udigits :: string where
  "udigits = ''0123456789ABCDEF''"

text \<open>The do-while loop of \<open>printint\<close>; \<open>k\<close> is the room left in its buffer, and writing past it is
  undefined.\<close>

fun uprintint_loop :: "nat \<Rightarrow> uint \<Rightarrow> uint \<Rightarrow> string res" where
  "uprintint_loop 0 base x = Inl Undef"
| "uprintint_loop (Suc k) base x =
     (let d = udigits ! unat (x mod base); x = x div base in
      if x \<noteq> 0 then bindE (uprintint_loop k base x) (\<lambda>ds. Ok (d # ds)) else Ok [d])"

text \<open>\<open>x = -xx\<close> negates an \<open>int\<close>, which has no value for the least one.\<close>

definition uprintint :: "uint \<Rightarrow> uint \<Rightarrow> bool \<Rightarrow> string res" where
  "uprintint xx base sg =
     (let neg = (sg \<and> sint xx < 0); x = (if neg then - xx else xx) in
      if neg \<and> sint xx = - (2 ^ 31) then Inl Undef
      else
      bindE (uprintint_loop 16 base x) (\<lambda>ds.
      let buf = (if neg then ds @ ''-'' else ds) in
      if length buf \<le> 16 then Ok (rev buf) else Inl Undef))"

text \<open>An argument is a word or a pointer to a string, \<open>None\<close> for null; taking one that was not
  passed, or one of the wrong kind, is undefined. The result is what is written to \<open>fd\<close>.\<close>

datatype uarg = UInt uint | UStr "string option"

fun printf_loop :: "string \<Rightarrow> uarg list \<Rightarrow> string res" where
  "printf_loop [] ap = Ok []"
| "printf_loop (c # fmt) ap =
     (if c \<noteq> CHR ''%'' then bindE (printf_loop fmt ap) (\<lambda>r. Ok (c # r))
      else
        (case fmt of
           [] \<Rightarrow> Ok []
         | d # fmt \<Rightarrow>
             if d = CHR ''d'' then
               (case ap of
                  UInt w # ap \<Rightarrow> bindE (uprintint w 10 True) (\<lambda>o1. bindE (printf_loop fmt ap) (\<lambda>r. Ok (o1 @ r)))
                | _ \<Rightarrow> Inl Undef)
             else if d = CHR ''x'' \<or> d = CHR ''p'' then
               (case ap of
                  UInt w # ap \<Rightarrow> bindE (uprintint w 16 False) (\<lambda>o1. bindE (printf_loop fmt ap) (\<lambda>r. Ok (o1 @ r)))
                | _ \<Rightarrow> Inl Undef)
             else if d = CHR ''s'' then
               (case ap of
                  UStr s # ap \<Rightarrow>
                    bindE (printf_loop fmt ap) (\<lambda>r. Ok ((case s of None \<Rightarrow> ''(null)'' | Some s \<Rightarrow> s) @ r))
                | _ \<Rightarrow> Inl Undef)
             else if d = CHR ''c'' then
               (case ap of
                  UInt w # ap \<Rightarrow> bindE (printf_loop fmt ap) (\<lambda>r. Ok (char_of (unat w) # r))
                | _ \<Rightarrow> Inl Undef)
             else if d = CHR ''%'' then bindE (printf_loop fmt ap) (\<lambda>r. Ok (d # r))
             else bindE (printf_loop fmt ap) (\<lambda>r. Ok (CHR ''%'' # d # r))))"

definition printf :: "string \<Rightarrow> uarg list \<Rightarrow> string res" where
  "printf fmt ap = printf_loop fmt ap"

section \<open>Facts\<close>

lemma strchr_less: "strchr p c = Some q \<Longrightarrow> q < length p"
  by (induction p arbitrary: q) (auto split: if_splits)

lemma strchr_mem: "NUL \<notin> set p \<Longrightarrow> c \<noteq> NUL \<Longrightarrow> strchr p c \<noteq> None \<longleftrightarrow> c \<in> set p"
  by (induction p) auto

lemma of_char_0: "(of_char c :: nat) = 0 \<longleftrightarrow> c = NUL"
  using of_char_eq_iff [where 'a = nat, of c "CHR 0x00"] by simp

lemma strcmp_0_iff: "NUL \<notin> set p \<Longrightarrow> NUL \<notin> set q \<Longrightarrow> strcmp p q = 0 \<longleftrightarrow> p = q"
proof (induction p q rule: strcmp.induct)
  case (4 c p d q)
  then show ?case using of_char_eq_iff [where 'a = nat, of c d] by auto
qed (use of_char_0 in \<open>auto simp del: NUL_def\<close>)

text \<open>The forward copy is right when the destination does not start inside the source, and wrong
  when it does: the byte it has just written is read again.\<close>

lemma umemmove_overlap: "umemmove m a (a - 1) 2 = m(a := m (a - 1), a + 1 := m (a - 1))"
proof -
  have "copy_fwd 2 m a (a - 1) = m(a := m (a - 1), a + 1 := m (a - 1))" by (simp add: numeral_2_eq_2)
  then show ?thesis by (simp add: umemmove_def)
qed

section \<open>Printing and reading numbers\<close>

lemma udigit_facts:
  assumes "x < 10"
  shows "is_digit (udigits ! unat x)" "(of_char (udigits ! unat x) :: uint) - 48 = x"
proof -
  have "unat x \<in> {0..<10}" using assms by (simp add: word_less_nat_alt)
  then have "unat x \<in> {0, 1, 2, 3, 4, 5, 6, 7, 8, 9}" by auto
  then have "is_digit (udigits ! unat x) \<and> (of_char (udigits ! unat x) :: nat) = 48 + unat x"
    by (auto simp: is_digit_def udigits_def)
  moreover have "(of_char c :: uint) = of_nat (of_char c)" for c by (simp add: of_nat_of_char)
  ultimately show "is_digit (udigits ! unat x)" "(of_char (udigits ! unat x) :: uint) - 48 = x" by simp_all
qed

text \<open>The digits, most significant first, bring \<open>atoi\<close> from 0 to the number.\<close>

lemma atoi_loop_digits:
  assumes "unat x < 10 ^ n" "0 < n" "n \<le> k"
  shows "\<exists>ds. uprintint_loop k 10 x = Ok ds \<and> length ds \<le> n \<and> (\<forall>cs. atoi_loop (rev ds @ cs) 0 = atoi_loop cs x)"
  using assms
proof (induction n arbitrary: k x)
  case (Suc n)
  then obtain j where j: "k = Suc j" "n \<le> j" by (cases k) auto
  have m: "x mod 10 < 10" by (simp add: word_mod_less_divisor)
  have dm: "x div 10 * 10 + x mod 10 = x" by (simp add: div_mult_mod_eq)
  note dg = udigit_facts [OF m]
  show ?case
  proof (cases "x div 10 = 0")
    case True
    then have "x mod 10 = x" using dm by simp
    then show ?thesis using True j dg by simp
  next
    case False
    have lt: "unat (x div 10) < 10 ^ n" using Suc.prems(1) by (simp add: unat_div_distrib less_mult_imp_div_less)
    with False have "0 < n" by (metis gr0I less_one power_0 unat_eq_zero)
    from Suc.IH [OF lt this j(2)] obtain ds where ds: "uprintint_loop j 10 (x div 10) = Ok ds" "length ds \<le> n"
      "\<And>cs. atoi_loop (rev ds @ cs) 0 = atoi_loop cs (x div 10)" by blast
    then show ?thesis using False j dg dm by (simp add: diff_eq_eq add_diff_eq [symmetric])
  qed
qed simp

text \<open>Reading back a printed number. For every number that is not negative, \<open>printf\<close> with \<open>%d\<close>
  writes at most ten characters, and \<open>atoi\<close> of them is the number.\<close>

theorem atoi_printf:
  assumes "0 \<le> sint x"
  shows "\<exists>out. printf ''%d'' [UInt x] = Ok out \<and> length out \<le> 10 \<and> atoi out = x"
proof -
  have "unat x < 2 ^ LENGTH(32)" by (rule unsigned_less)
  then have "unat x < 10 ^ 10" by simp
  then obtain ds where "uprintint_loop 16 10 x = Ok ds" "length ds \<le> 10" "\<And>cs. atoi_loop (rev ds @ cs) 0 = atoi_loop cs x"
    using atoi_loop_digits [of x 10 16] by auto
  moreover have "atoi_loop (rev ds) 0 = x" using calculation(3) [of "[]"] by simp
  ultimately show ?thesis using assms by (simp add: printf_def uprintint_def atoi_def)
qed

theorem atoi_printf_witness: "\<exists>out. printf ''%d'' [UInt 1024] = Ok out \<and> length out \<le> 10 \<and> atoi out = 1024"
  using atoi_printf [of 1024] by simp

end
