(* ===== verification/Grep.thy ===== *)
theory Grep
  imports Ulib
begin

text \<open>
  The program \<open>grep\<close>, \<open>grep.c\<close>: the pattern matcher of Kernighan and Pike, the loop that
  cuts the input into lines, and the main program.

  Strings and the system call \<open>read\<close> are as in \<open>Ulib\<close>. The buffer \<open>buf\<close> is the list of its \<open>m\<close> valid characters; what lies
  behind them is written before it is read.

  The matcher is shown equal to a definition of matching by decomposition of the text, and
  the line loop, on a file whose lines fit into the buffer, to print the matching lines.
\<close>

section \<open>The matcher\<close>

function (sequential) matchhere :: "string \<Rightarrow> string \<Rightarrow> bool"
  and matchstar :: "char \<Rightarrow> string \<Rightarrow> string \<Rightarrow> bool" where
  "matchhere re text =
     (case re of
        [] \<Rightarrow> True
      | c # re1 \<Rightarrow>
          if re1 \<noteq> [] \<and> hd re1 = CHR ''*'' then matchstar c (tl re1) text
          else if c = CHR ''$'' \<and> re1 = [] then text = []
          else
            (case text of
               [] \<Rightarrow> False
             | x # text1 \<Rightarrow> if c = CHR ''.'' \<or> c = x then matchhere re1 text1 else False))"
| "matchstar c re text =
     (if matchhere re text then True
      else
        (case text of
           [] \<Rightarrow> False
         | x # text1 \<Rightarrow> if x = c \<or> c = CHR ''.'' then matchstar c re text1 else False))"
  by pat_completeness auto

termination
  by (relation "measure (\<lambda>x. case x of Inl (re, text) \<Rightarrow> 2 * (length re + length text)
        | Inr (c, re, text) \<Rightarrow> 2 * (length re + length text) + 1)")
     (auto simp: neq_Nil_conv)

declare matchhere.simps [simp del] matchstar.simps [simp del]

fun match_from :: "string \<Rightarrow> string \<Rightarrow> bool" where
  "match_from re text =
     (if matchhere re text then True
      else (case text of [] \<Rightarrow> False | x # text1 \<Rightarrow> match_from re text1))"

declare match_from.simps [simp del]

definition match :: "string \<Rightarrow> string \<Rightarrow> bool" where
  "match re text =
     (if re \<noteq> [] \<and> hd re = CHR ''^'' then matchhere (tl re) text else match_from re text)"

section \<open>Cutting the input into lines\<close>

text \<open>The inner loop: what is written, and the rest of the buffer from \<open>p\<close> on.\<close>

function grep_lines :: "string \<Rightarrow> string \<Rightarrow> string \<times> string" where
  "grep_lines pattern p =
     (case strchr p NL of
        None \<Rightarrow> ([], p)
      | Some q \<Rightarrow>
          let (out, r) = grep_lines pattern (drop (Suc q) p) in
          ((if match pattern (take q p) then take (Suc q) p else []) @ out, r))"
  by auto

termination
  by (relation "measure (\<lambda>(pattern, p). length p)") (auto dest: strchr_less)

declare grep_lines.simps [simp del]

definition BUFSIZE :: nat where [simp]: "BUFSIZE = 1024"

fun grep :: "nat \<Rightarrow> 's rd \<Rightarrow> string \<Rightarrow> string \<Rightarrow> 's \<Rightarrow> (string \<times> 's) res" where
  "grep 0 rd pattern buf s = Inl Loops"
| "grep (Suc k) rd pattern buf s =
     (let (chunk, s) = rd (BUFSIZE - length buf - 1) s in
      if chunk = [] then Ok ([], s)
      else
        let buf = buf @ chunk;
            (out, p) = grep_lines pattern buf;
            buf = (if length p = length buf then [] else p)
        in bindE (grep k rd pattern buf s) (\<lambda>(out', s). Ok (out @ out', s)))"

text \<open>The main program. \<open>opn\<close> is the system call \<open>open\<close>, whose result is the state of the open
  file; the result is the sequence of writes, each with its file descriptor.\<close>

fun grep_files :: "nat \<Rightarrow> 's rd \<Rightarrow> (string \<Rightarrow> 's option) \<Rightarrow> string \<Rightarrow> string list \<Rightarrow> (nat \<times> string) list res" where
  "grep_files k rd opn pattern [] = Ok []"
| "grep_files k rd opn pattern (f # fs) =
     (case opn f of
        None \<Rightarrow> Ok [(1, ''grep: cannot open '' @ f @ [NL])]
      | Some s \<Rightarrow>
          bindE (grep k rd pattern [] s) (\<lambda>(out, _).
          bindE (grep_files k rd opn pattern fs) (\<lambda>w. Ok ((1, out) # w))))"

definition grep_main :: "nat \<Rightarrow> 's rd \<Rightarrow> (string \<Rightarrow> 's option) \<Rightarrow> 's \<Rightarrow> string list \<Rightarrow> (nat \<times> string) list res" where
  "grep_main k rd opn stdin argv =
     (if length argv \<le> 1 then Ok [(2, ''usage: grep pattern [file ...]'' @ [NL])]
      else
        let pattern = argv ! 1 in
        if length argv \<le> 2 then bindE (grep k rd pattern [] stdin) (\<lambda>(out, _). Ok [(1, out)])
        else grep_files k rd opn pattern (drop 2 argv))"

section \<open>Matching, by decomposition\<close>

text \<open>A pattern is a sequence of items; \<open>One c\<close> matches one character and \<open>Rep c\<close> any number, and a
  final \<open>$\<close> asks for the end of the text.\<close>

datatype item = One char | Rep char

fun items :: "string \<Rightarrow> item list \<times> bool" where
  "items [] = ([], False)"
| "items [c] = (if c = CHR ''$'' then ([], True) else ([One c], False))"
| "items (c # d # r) =
     (if d = CHR ''*'' then (let (its, e) = items r in (Rep c # its, e))
      else (let (its, e) = items (d # r) in (One c # its, e)))"

definition fits :: "char \<Rightarrow> char \<Rightarrow> bool" where
  "fits c x \<longleftrightarrow> c = CHR ''.'' \<or> c = x"

fun piece :: "item \<Rightarrow> string set" where
  "piece (One c) = {[x] | x. fits c x}"
| "piece (Rep c) = {w. \<forall>x\<in>set w. fits c x}"

definition here :: "item list \<times> bool \<Rightarrow> string \<Rightarrow> bool" where
  "here p text \<longleftrightarrow> (\<exists>ws rest. list_all2 (\<lambda>w i. w \<in> piece i) ws (fst p) \<and> text = concat ws @ rest \<and> (snd p \<longrightarrow> rest = []))"

definition matches :: "string \<Rightarrow> string \<Rightarrow> bool" where
  "matches re text \<longleftrightarrow>
     (if re \<noteq> [] \<and> hd re = CHR ''^'' then here (items (tl re)) text
      else \<exists>pre post. text = pre @ post \<and> here (items re) post)"

lemma here_Nil [simp]: "here ([], e) text \<longleftrightarrow> (e \<longrightarrow> text = [])"
  by (auto simp: here_def)

lemma here_Cons: "here (i # its, e) text \<longleftrightarrow> (\<exists>w r. w \<in> piece i \<and> text = w @ r \<and> here (its, e) r)"
proof
  assume "here (i # its, e) text"
  then obtain w ws rest where "text = w @ concat ws @ rest" "w \<in> piece i" "list_all2 (\<lambda>w i. w \<in> piece i) ws its" "e \<longrightarrow> rest = []"
    by (auto simp: here_def list_all2_Cons2) (metis append_Nil2)
  then show "\<exists>w r. w \<in> piece i \<and> text = w @ r \<and> here (its, e) r"
    by (intro exI [of _ w] exI [of _ "concat ws @ rest"]) (auto simp: here_def)
next
  assume "\<exists>w r. w \<in> piece i \<and> text = w @ r \<and> here (its, e) r"
  then obtain w r ws rest where "w \<in> piece i" "text = w @ r" "list_all2 (\<lambda>w i. w \<in> piece i) ws its"
    "r = concat ws @ rest" "e \<longrightarrow> rest = []" by (auto simp: here_def)
  then show "here (i # its, e) text"
    unfolding here_def by (intro exI [of _ "w # ws"] exI [of _ rest]) simp
qed

lemma here_One: "here (One c # its, e) text \<longleftrightarrow> (case text of [] \<Rightarrow> False | x # r \<Rightarrow> fits c x \<and> here (its, e) r)"
  by (cases "text") (auto simp: here_Cons)

lemma here_Rep:
  "here (Rep c # its, e) text \<longleftrightarrow>
     here (its, e) text \<or> (case text of [] \<Rightarrow> False | x # r \<Rightarrow> fits c x \<and> here (Rep c # its, e) r)"
proof
  assume "here (Rep c # its, e) text"
  then obtain w r where w: "\<forall>x\<in>set w. fits c x" "text = w @ r" "here (its, e) r" by (auto simp: here_Cons)
  show "here (its, e) text \<or> (case text of [] \<Rightarrow> False | x # r \<Rightarrow> fits c x \<and> here (Rep c # its, e) r)"
    using w by (cases w) (auto simp: here_Cons)
next
  assume "here (its, e) text \<or> (case text of [] \<Rightarrow> False | x # r \<Rightarrow> fits c x \<and> here (Rep c # its, e) r)"
  then show "here (Rep c # its, e) text"
  proof
    assume "here (its, e) text"
    then show ?thesis unfolding here_Cons by (intro exI [of _ "[]"] exI [of _ "text"]) simp
  next
    assume "case text of [] \<Rightarrow> False | x # r \<Rightarrow> fits c x \<and> here (Rep c # its, e) r"
    then obtain x r w r' where "text = x # r" "fits c x" "w \<in> piece (Rep c)" "r = w @ r'" "here (its, e) r'"
      by (auto simp: here_Cons split: list.splits)
    then show ?thesis unfolding here_Cons by (intro exI [of _ "x # w"] exI [of _ r']) simp
  qed
qed

lemma matchhere_here:
  "matchhere re text \<longleftrightarrow> here (items re) text"
  "matchstar c re text \<longleftrightarrow> here (Rep c # fst (items re), snd (items re)) text"
proof (induction re "text" and c re "text" rule: matchhere_matchstar.induct)
  case (1 re tx)
  then show ?case
    by (subst matchhere.simps, cases re rule: items.cases; cases tx) (simp_all add: here_One fits_def split_beta)
next
  case (2 c re tx)
  then show ?case
    by (subst matchstar.simps, subst here_Rep) (auto simp: fits_def split: list.splits)
qed

lemma match_from_iff: "match_from re text \<longleftrightarrow> (\<exists>pre post. text = pre @ post \<and> matchhere re post)"
proof (induction "text")
  case Nil
  then show ?case by (simp add: match_from.simps)
next
  case (Cons x tx)
  then show ?case by (simp add: match_from.simps [of re "x # tx"]) (metis append_Cons append_Nil list.exhaust list.sel(3))
qed

lemma match_iff: "match re text \<longleftrightarrow> matches re text"
  by (simp add: match_def matches_def match_from_iff matchhere_here)

text \<open>C18: The matcher of grep is correct and complete for its patterns: \<open>match\<close> says yes exactly
  when the text can be cut into pieces that the items of the pattern match in turn.\<close>

theorem match_matches: "match re text \<longleftrightarrow> matches re text"
  by (rule match_iff)

section \<open>Lines\<close>

text \<open>The lines of an input that end in a newline, and what follows the last newline.\<close>

lemma after_line: "c \<in> set s \<Longrightarrow> length (dropWhile P s) - Suc 0 < length s"
  using length_dropWhile_le [of P s] by (cases s) auto

function lines :: "string \<Rightarrow> string list" where
  "lines s = (if NL \<in> set s then takeWhile (\<lambda>x. x \<noteq> NL) s # lines (tl (dropWhile (\<lambda>x. x \<noteq> NL) s)) else [])"
  by auto

termination
  by (relation "measure length") (auto dest: after_line)

function tail :: "string \<Rightarrow> string" where
  "tail s = (if NL \<in> set s then tail (tl (dropWhile (\<lambda>x. x \<noteq> NL) s)) else s)"
  by auto

termination
  by (relation "measure length") (auto dest: after_line)

declare lines.simps [simp del] tail.simps [simp del]

lemma lines_line: "NL \<notin> set l \<Longrightarrow> lines (l @ NL # r) = l # lines r" "NL \<notin> set l \<Longrightarrow> tail (l @ NL # r) = tail r"
proof -
  assume l: "NL \<notin> set l"
  then have "takeWhile (\<lambda>x. x \<noteq> NL) (l @ NL # r) = l" "dropWhile (\<lambda>x. x \<noteq> NL) (l @ NL # r) = NL # r"
    by (auto simp: takeWhile_append dropWhile_append)
  then show "lines (l @ NL # r) = l # lines r" "tail (l @ NL # r) = tail r"
    by (simp_all add: lines.simps [of "l @ NL # r"] tail.simps [of "l @ NL # r"] del: NL_def)
qed

lemma lines_none: "NL \<notin> set s \<Longrightarrow> lines s = []" "NL \<notin> set s \<Longrightarrow> tail s = s"
  by (simp_all add: lines.simps [of s] tail.simps [of s])

text \<open>Induction over the lines.\<close>

lemma line_induct [case_names none line]:
  assumes none: "\<And>s. NL \<notin> set s \<Longrightarrow> P s" and line: "\<And>l r. NL \<notin> set l \<Longrightarrow> P r \<Longrightarrow> P (l @ NL # r)"
  shows "P s"
proof (induction s rule: length_induct)
  case (1 s)
  show ?case
  proof (cases "NL \<in> set s")
    case True
    then obtain l r where "s = l @ NL # r" "NL \<notin> set l" by (meson split_list_first)
    then show ?thesis using line [of l r] 1 by simp
  qed (rule none)
qed

lemma lines_append: "lines (b @ r) = lines b @ lines (tail b @ r)"
  by (induction b rule: line_induct) (simp_all add: lines_none lines_line del: NL_def)

lemma tail_facts: "NL \<notin> set (tail b)" "length (tail b) \<le> length b" "NL \<in> set b \<Longrightarrow> length (tail b) < length b" "set (tail b) \<subseteq> set b"
  by (induction b rule: line_induct) (auto simp: lines_none lines_line simp del: NL_def)

definition selected :: "string \<Rightarrow> string \<Rightarrow> string" where
  "selected pattern s = concat (map (\<lambda>l. l @ [NL]) (filter (matches pattern) (lines s)))"

lemma strchr_line: "NL \<notin> set l \<Longrightarrow> NUL \<notin> set l \<Longrightarrow> strchr (l @ NL # r) NL = Some (length l)"
  by (induction l) auto

lemma strchr_none: "NL \<notin> set s \<Longrightarrow> strchr s NL = None"
  by (induction s) auto

lemma grep_lines_selected:
  "NUL \<notin> set b \<Longrightarrow> grep_lines pattern b = (selected pattern b, tail b)"
proof (induction b rule: line_induct)
  case (none s)
  then show ?case by (simp add: grep_lines.simps [of pattern s] strchr_none lines_none selected_def del: NL_def)
next
  case (line l r)
  then show ?case
    by (subst grep_lines.simps)
       (simp add: strchr_line lines_line selected_def match_iff del: NL_def NUL_def)
qed

section \<open>The loop on a file\<close>

definition file_rd :: "string rd" where
  "file_rd n s = (take n s, drop n s)"

lemma first_line_short:
  assumes "length b = n" "NL \<notin> set b" "\<forall>l\<in>set (lines (b @ r)). length l < n"
  shows "NL \<notin> set r"
proof
  assume "NL \<in> set r"
  then obtain l r' where "r = l @ NL # r'" "NL \<notin> set l" by (meson split_list_first)
  then have "lines (b @ r) = (b @ l) # lines r'" using lines_line(1) [of "b @ l" r'] assms(2) by simp
  then show False using assms(1,3) by simp
qed

lemma grep_loop:
  assumes "NL \<notin> set buf" "length buf < 1023" "NUL \<notin> set (buf @ s)" "\<forall>l\<in>set (lines (buf @ s)). length l < 1023" "length s < k"
  shows "grep k file_rd pattern buf s = Ok (selected pattern (buf @ s), [])"
  using assms
proof (induction k arbitrary: buf s)
  case (Suc k)
  show ?case
  proof (cases "s = []")
    case True
    then show ?thesis using Suc.prems(1) by (simp add: file_rd_def selected_def lines_none)
  next
    case False
    define c r where "c = take (1023 - length buf) s" and "r = drop (1023 - length buf) s"
    define b where "b = buf @ c"
    have s: "buf @ s = b @ r" "c \<noteq> []" "length b \<le> 1023" "length r < length s"
      using Suc.prems(2) False by (cases s; auto simp: b_def c_def r_def)+
    have nul: "NUL \<notin> set b" "NUL \<notin> set r" using Suc.prems(3) unfolding s(1) by auto
    let ?p = "if NL \<in> set b then tail b else []"
    have lb: "length buf + length c = length b" by (simp add: b_def)
    have same: "length (tail b) = length b \<longleftrightarrow> NL \<notin> set b" using tail_facts(3) [of b] lines_none(2) [of b] by auto
    have go: "grep (Suc k) file_rd pattern buf s = bindE (grep k file_rd pattern ?p r) (\<lambda>(out, s). Ok (selected pattern b @ out, s))"
      using s(2) nul(1) same lb
      by (simp add: file_rd_def c_def [symmetric] r_def [symmetric] b_def [symmetric] grep_lines_selected cong: if_cong)
    have sel: "selected pattern (b @ r) = selected pattern b @ selected pattern (?p @ r) \<and> (\<forall>l\<in>set (lines (?p @ r)). length l < 1023)"
    proof (cases "NL \<in> set b")
      case True
      then show ?thesis using Suc.prems(4) unfolding s(1) lines_append [of b] by (simp add: selected_def lines_append [of b])
    next
      case no: False
      have "r = [] \<or> length b = 1023" using Suc.prems(2) by (auto simp: b_def c_def r_def)
      then have "NL \<notin> set r" using first_line_short [of b 1023 r] no Suc.prems(4) unfolding s(1) by auto
      then show ?thesis using no by (simp add: selected_def lines_none)
    qed
    have nt: "NUL \<notin> set (tail b)" using tail_facts(4) [of b] nul(1) by blast
    have "grep k file_rd pattern ?p r = Ok (selected pattern (?p @ r), [])"
      using Suc.IH [of ?p r] sel nul s(3,4) Suc.prems(5) tail_facts [of b] nt by auto
    then show ?thesis unfolding go s(1) using sel by simp
  qed
qed simp

text \<open>C39: On a file without zero bytes whose lines fit into the buffer, grep ends and writes exactly
  the lines, with their newlines and in order, that the pattern matches.\<close>

theorem grep_selects:
  assumes "NUL \<notin> set s" "\<forall>l\<in>set (lines s). length l < 1023" "length s < k"
  shows "grep k file_rd pattern [] s = Ok (selected pattern s, [])"
  using grep_loop [of "[]" s k pattern] assms by simp

theorem grep_selects_witness:
  "grep 20 file_rd ''^a*.c$'' [] (''aabc'' @ [NL] @ ''xbc'' @ [NL] @ ''c'') = Ok (''aabc'' @ [NL], [])"
proof -
  let ?s = "''aabc'' @ [NL] @ ''xbc'' @ [NL] @ ''c''"
  have l: "lines ?s = [''aabc'', ''xbc'']" by (simp add: lines.simps)
  have "matches ''^a*.c$'' ''aabc''" "\<not> matches ''^a*.c$'' ''xbc''"
    by (simp_all add: match_iff [symmetric] match_def) (simp_all add: matchhere.simps matchstar.simps)
  then show ?thesis using grep_selects [of ?s 20 "''^a*.c$''"] unfolding selected_def l by simp
qed

text \<open>A read that delivers no newline is forgotten, also when the rest of its line is still to come.\<close>

lemma grep_drops_partial:
  assumes "rd 1023 s = (chunk, t)" "NL \<notin> set chunk" "chunk \<noteq> []"
  shows "grep (Suc k) rd pattern [] s = grep k rd pattern [] t"
proof -
  have "grep_lines pattern chunk = ([], chunk)" using assms(2) by (simp add: grep_lines.simps strchr_none del: NL_def)
  then show ?thesis using assms by (cases "grep k rd pattern [] t") auto
qed

end
