(* ===== verification/Sh.thy ===== *)
theory Sh
  imports Ulib
begin

text \<open>
  The shell, \<open>sh.c\<close>.

  The command line is the list of characters of \<open>buf\<close> up to its end, and a pointer into it is an
  index; reading at the end gives the terminating zero. A parsed command holds the two indices
  of each word, as the structures of the code hold \<open>q\<close> and \<open>eq\<close>. The recursive-descent parser
  takes a bound on the depth of its calls and loops; \<open>parsecmd\<close> passes one that is linear in the
  length of the line, and it is shown never to be used up. A call of \<open>panic\<close> is the outcome
  \<open>Panic\<close>. Memory for the nodes is taken to be available, as the code takes it.

  \<open>runcmd\<close> and the main loop are in \<open>Shrun\<close>.
\<close>

section \<open>Tokens\<close>

definition whitespace :: string where
  "whitespace = [CHR '' '', CHR 0x09, CHR 0x0D, CHR 0x0A, CHR 0x0B]"

definition symbols :: string where
  "symbols = ''<|>&;()''"

definition is_ws :: "char \<Rightarrow> bool" where
  "is_ws c \<longleftrightarrow> strchr whitespace c \<noteq> None"

definition is_sym :: "char \<Rightarrow> bool" where
  "is_sym c \<longleftrightarrow> strchr symbols c \<noteq> None"

definition chr_at :: "string \<Rightarrow> nat \<Rightarrow> char" where
  "chr_at b s = (if s < length b then b ! s else NUL)"

definition skip_ws :: "string \<Rightarrow> nat \<Rightarrow> nat" where
  "skip_ws b s = s + length (takeWhile is_ws (drop s b))"

definition gettoken :: "string \<Rightarrow> nat \<Rightarrow> char \<times> nat \<times> nat \<times> nat" where
  "gettoken b ps =
     (let q = skip_ws b ps;
          c = chr_at b q;
          (ret, eq) =
            (if c = NUL then (NUL, q)
             else if c \<in> {CHR ''|'', CHR ''('', CHR '')'', CHR '';'', CHR ''&'', CHR ''<''} then (c, q + 1)
             else if c = CHR ''>'' then
               (if chr_at b (q + 1) = CHR ''>'' then (CHR ''+'', q + 2) else (c, q + 1))
             else (CHR ''a'', q + length (takeWhile (\<lambda>x. \<not> is_ws x \<and> \<not> is_sym x) (drop q b))))
      in (ret, q, eq, skip_ws b eq))"

definition peek :: "string \<Rightarrow> nat \<Rightarrow> string \<Rightarrow> nat \<times> bool" where
  "peek b ps toks =
     (let s = skip_ws b ps in (s, chr_at b s \<noteq> NUL \<and> strchr toks (chr_at b s) \<noteq> None))"

definition after :: "string \<Rightarrow> nat \<Rightarrow> nat" where
  "after b ps = snd (snd (snd (gettoken b ps)))"

section \<open>The parser\<close>

definition MAXARGS :: nat where [simp]: "MAXARGS = 10"

definition O_RDONLY_sh :: uint where [simp]: "O_RDONLY_sh = 0"
definition O_WRONLY_sh :: uint where [simp]: "O_WRONLY_sh = 1"
definition O_CREATE_sh :: uint where [simp]: "O_CREATE_sh = 0x200"

type_synonym span = "nat \<times> nat"

datatype cmd =
    EXEC "span list"
  | REDIR cmd span uint nat
  | PIPE cmd cmd
  | LIST cmd cmd
  | BACK cmd

text \<open>A redirection that was read: the word, the mode and the descriptor.\<close>

type_synonym redir = "span \<times> uint \<times> nat"

definition redircmd :: "cmd \<Rightarrow> redir \<Rightarrow> cmd" where
  "redircmd c r = (case r of (w, mode, fd) \<Rightarrow> REDIR c w mode fd)"

definition redir_of :: "char \<Rightarrow> span \<Rightarrow> redir" where
  "redir_of tok w =
     (if tok = CHR ''<'' then (w, O_RDONLY_sh, 0)
      else if tok = CHR ''>'' then (w, O_WRONLY_sh OR O_CREATE_sh, 1)
      else (w, O_WRONLY_sh OR O_CREATE_sh, 1))"

fun parseredirs :: "nat \<Rightarrow> string \<Rightarrow> nat \<Rightarrow> (redir list \<times> nat) res" where
  "parseredirs 0 b ps = Inl Loops"
| "parseredirs (Suc n) b ps =
     (let (s, yes) = peek b ps ''<>'' in
      if yes then
        let (tok, _, _, s) = gettoken b s;
            (t, q, eq, s) = gettoken b s
        in
        if t \<noteq> CHR ''a'' then panic ''missing file for redirection''
        else bindE (parseredirs n b s) (\<lambda>(rs, s). Ok (redir_of tok (q, eq) # rs, s))
      else Ok ([], s))"

text \<open>The loop of \<open>parseexec\<close>. The code fills the node of the command while redirections are already
  wrapped around it; here the words and the redirections are collected and put together at
  the end. \<open>argc\<close> is the number of words so far.\<close>

fun exec_loop :: "nat \<Rightarrow> string \<Rightarrow> nat \<Rightarrow> nat \<Rightarrow> ((span list \<times> redir list) \<times> nat) res" where
  "exec_loop 0 b argc ps = Inl Loops"
| "exec_loop (Suc n) b argc ps =
     (let (s, yes) = peek b ps ''|)&;'' in
      if yes then Ok (([], []), s)
      else
        let (tok, q, eq, s) = gettoken b s in
        if tok = NUL then Ok (([], []), s)
        else if tok \<noteq> CHR ''a'' then panic ''syntax''
        else if argc + 1 \<ge> MAXARGS then panic ''too many args''
        else
          bindE (parseredirs n b s) (\<lambda>(rs, s).
          bindE (exec_loop n b (argc + 1) s) (\<lambda>((ws, rs'), s).
          Ok (((q, eq) # ws, rs @ rs'), s))))"

fun back_loop :: "nat \<Rightarrow> string \<Rightarrow> cmd \<Rightarrow> nat \<Rightarrow> (cmd \<times> nat) res" where
  "back_loop 0 b c ps = Inl Loops"
| "back_loop (Suc n) b c ps =
     (let (s, yes) = peek b ps ''&'' in
      if yes then back_loop n b (BACK c) (after b s) else Ok (c, s))"

fun parseline :: "nat \<Rightarrow> string \<Rightarrow> nat \<Rightarrow> (cmd \<times> nat) res"
  and parsepipe :: "nat \<Rightarrow> string \<Rightarrow> nat \<Rightarrow> (cmd \<times> nat) res"
  and parseexec :: "nat \<Rightarrow> string \<Rightarrow> nat \<Rightarrow> (cmd \<times> nat) res"
  and parseblock :: "nat \<Rightarrow> string \<Rightarrow> nat \<Rightarrow> (cmd \<times> nat) res" where
  "parseline 0 b ps = Inl Loops"
| "parseline (Suc n) b ps =
     bindE (parsepipe n b ps) (\<lambda>(c, s).
     bindE (back_loop n b c s) (\<lambda>(c, s).
     let (s, yes) = peek b s '';'' in
     if yes then bindE (parseline n b (after b s)) (\<lambda>(r, s). Ok (LIST c r, s))
     else Ok (c, s)))"
| "parsepipe 0 b ps = Inl Loops"
| "parsepipe (Suc n) b ps =
     bindE (parseexec n b ps) (\<lambda>(c, s).
     let (s, yes) = peek b s ''|'' in
     if yes then bindE (parsepipe n b (after b s)) (\<lambda>(r, s). Ok (PIPE c r, s))
     else Ok (c, s))"
| "parseexec 0 b ps = Inl Loops"
| "parseexec (Suc n) b ps =
     (let (s, yes) = peek b ps ''('' in
      if yes then parseblock n b s
      else
        bindE (parseredirs n b s) (\<lambda>(rs, s).
        bindE (exec_loop n b 0 s) (\<lambda>((ws, rs'), s).
        Ok (foldl redircmd (EXEC ws) (rs @ rs'), s))))"
| "parseblock 0 b ps = Inl Loops"
| "parseblock (Suc n) b ps =
     (let (s, yes) = peek b ps ''('' in
      if yes then
        bindE (parseline n b (after b s)) (\<lambda>(c, s).
        let (s, yes) = peek b s '')'' in
        if yes then bindE (parseredirs n b (after b s)) (\<lambda>(rs, s). Ok (foldl redircmd c rs, s))
        else panic ''syntax - missing )'')
      else panic ''parseblock'')"

primrec nulterminate :: "cmd \<Rightarrow> string \<Rightarrow> string" where
  "nulterminate (EXEC ws) b = fold (\<lambda>(q, eq) b. b[eq := NUL]) ws b"
| "nulterminate (REDIR c w mode fd) b = (nulterminate c b)[snd w := NUL]"
| "nulterminate (PIPE l r) b = nulterminate r (nulterminate l b)"
| "nulterminate (LIST l r) b = nulterminate r (nulterminate l b)"
| "nulterminate (BACK c) b = nulterminate c b"

definition depth_bound :: "string \<Rightarrow> nat" where
  "depth_bound b = 4 * length b + 4"

definition parsecmd :: "string \<Rightarrow> (cmd \<times> string) res" where
  "parsecmd b =
     bindE (parseline (depth_bound b) b 0) (\<lambda>(c, s).
     let (s, _) = peek b s '''' in
     if s \<noteq> length b then panic (''leftovers: '' @ drop s b @ [NL] @ ''syntax'') else Ok (c, nulterminate c b))"

end
