(* ===== verification/Shparse.thy ===== *)
theory Shparse
  imports Sh
begin

text \<open>
  The parser of the shell: it ends on every line, and it gives back the command of which a line is
  the text.
\<close>

section \<open>The parser ends\<close>

lemma skip_ws_bounds: "s \<le> skip_ws b s" "s \<le> length b \<Longrightarrow> skip_ws b s \<le> length b"
  using length_takeWhile_le [of is_ws "drop s b"] by (simp_all add: skip_ws_def)

lemma drop_skip_ws: "drop (skip_ws b s) b = dropWhile is_ws (drop s b)"
  by (simp add: skip_ws_def dropWhile_eq_drop add.commute)

lemma chr_at_skip: "chr_at b (skip_ws b s) \<noteq> NUL \<Longrightarrow> \<not> is_ws (chr_at b (skip_ws b s)) \<and> skip_ws b s < length b"
proof -
  assume "chr_at b (skip_ws b s) \<noteq> NUL"
  then have l: "skip_ws b s < length b" by (auto simp: chr_at_def split: if_splits)
  then have "hd (dropWhile is_ws (drop s b)) = b ! skip_ws b s" "dropWhile is_ws (drop s b) \<noteq> []"
    by (simp_all add: drop_skip_ws [symmetric] hd_drop_conv_nth)
  then show ?thesis using hd_dropWhile [of is_ws "drop s b"] l by (simp add: chr_at_def)
qed

lemma skip_ws_idem: "skip_ws b (skip_ws b s) = skip_ws b s"
proof -
  have "takeWhile is_ws (dropWhile is_ws xs) = []" for xs
    by (induction xs) auto
  then show ?thesis by (simp add: skip_ws_def [of b "skip_ws b s"] drop_skip_ws)
qed

lemma sym_chars: "is_sym c \<longleftrightarrow> c \<in> set symbols"
  using strchr_mem [of symbols c] by (cases "c = NUL") (auto simp: is_sym_def symbols_def)

lemma case_token: "(case x of (r, e) \<Rightarrow> (r, a, e, f e)) = (ret, q, eq, s) \<longleftrightarrow> q = a \<and> s = f eq \<and> x = (ret, eq)"
  by (cases x) auto

lemma gettoken_bounds:
  assumes "ps \<le> length b" "gettoken b ps = (ret, q, eq, s)"
  shows "ps \<le> q" "q \<le> eq" "eq \<le> s" "s \<le> length b" "ret \<noteq> NUL \<Longrightarrow> q < eq" "q = skip_ws b ps" "ret = NUL \<longleftrightarrow> chr_at b q = NUL"
proof -
  define c where "c = chr_at b (skip_ws b ps)"
  define one where "one \<longleftrightarrow> c \<in> {CHR ''|'', CHR ''('', CHR '')'', CHR '';'', CHR ''&'', CHR ''<''}"
  let ?w = "takeWhile (\<lambda>x. \<not> is_ws x \<and> \<not> is_sym x) (drop q b)"
  have q: "q = skip_ws b ps" and eq: "s = skip_ws b eq"
    and re: "(ret, eq) = (if c = NUL then (NUL, q) else if one then (c, q + 1)
       else if c = CHR ''>'' then (if chr_at b (q + 1) = CHR ''>'' then (CHR ''+'', q + 2) else (c, q + 1)) else (CHR ''a'', q + length ?w))"
    using assms(2) unfolding gettoken_def Let_def c_def [symmetric] one_def [symmetric] case_token by metis+
  note sk = skip_ws_bounds [of ps b] chr_at_skip [of b ps, folded q c_def]
  have w: "q + length ?w \<le> length b" using length_takeWhile_le [of _ "drop q b"] sk(2) assms(1) by (metis add_le_mono1 le_diff_conv2 length_drop q add.commute)
  have w1: "?w \<noteq> []" if "c \<noteq> NUL" "\<not> one" "c \<noteq> CHR ''>''"
  proof -
    have "drop q b = b ! q # drop (Suc q) b" using sk(3) that(1) by (simp add: Cons_nth_drop_Suc)
    moreover have "\<not> is_sym c" using that(2,3) by (simp add: sym_chars symbols_def one_def)
    moreover have "c = b ! q" using sk(3) that(1) by (simp add: c_def chr_at_def q)
    ultimately show ?thesis using sk(3) that(1) by simp
  qed
  have nx: "q + 2 \<le> length b" if "chr_at b (q + 1) = CHR ''>''" using that by (auto simp: chr_at_def split: if_splits)
  have b: "q \<le> eq \<and> eq \<le> length b \<and> (ret \<noteq> NUL \<longrightarrow> q < eq) \<and> (ret = NUL \<longleftrightarrow> c = NUL)"
    using re sk w w1 nx assms(1) q by (auto split: if_splits)
  then show "ps \<le> q" "q \<le> eq" "eq \<le> s" "s \<le> length b" "ret \<noteq> NUL \<Longrightarrow> q < eq" "q = skip_ws b ps" "ret = NUL \<longleftrightarrow> chr_at b q = NUL"
    using sk(1) q eq skip_ws_bounds [of eq b] by (auto simp: c_def)
qed

lemma peek_bounds:
  assumes "ps \<le> length b" "peek b ps toks = (s, yes)"
  shows "ps \<le> s" "s \<le> length b" "yes \<Longrightarrow> s < after b s \<and> after b s \<le> length b"
proof -
  have s: "s = skip_ws b ps" "yes \<Longrightarrow> chr_at b s \<noteq> NUL" using assms(2) by (auto simp: peek_def Let_def)
  then show le: "ps \<le> s" "s \<le> length b" using skip_ws_bounds [of ps b] assms(1) by auto
  obtain ret q eq r where g: "gettoken b s = (ret, q, eq, r)" by (metis prod_cases4)
  note gb = gettoken_bounds [OF le(2) g]
  assume yes
  then have "ret \<noteq> NUL" using gb(6,7) s skip_ws_idem by simp
  then show "s < after b s \<and> after b s \<le> length b" using gb g by (simp add: after_def)
qed

text \<open>A result that is not \<open>Loops\<close>, and with which the position has not gone back.\<close>

definition moves :: "string \<Rightarrow> nat \<Rightarrow> ('a \<times> nat) res \<Rightarrow> bool" where
  "moves b ps r \<longleftrightarrow> r \<noteq> Inl Loops \<and> (\<forall>x s. r = Ok (x, s) \<longrightarrow> ps \<le> s \<and> s \<le> length b)"

lemma moves_Ok [simp]: "moves b ps (Ok (x, s)) \<longleftrightarrow> ps \<le> s \<and> s \<le> length b" "moves b ps (panic m)"
  by (auto simp: moves_def)

lemma moves_mono: "moves b s r \<Longrightarrow> ps \<le> s \<Longrightarrow> moves b ps r"
  unfolding moves_def using order_trans by blast

lemma moves_bind:
  assumes "moves b s m" "ps \<le> s" "\<And>x s'. s \<le> s' \<Longrightarrow> s' \<le> length b \<Longrightarrow> moves b s' (f (x, s'))"
  shows "moves b ps (bindE m f)"
proof (cases m)
  case (Inr xs)
  then obtain x s' where m: "m = Ok (x, s')" by (cases xs) simp
  have sp: "s \<le> s'" "s' \<le> length b" using assms(1) by (simp_all add: m)
  show ?thesis using moves_mono [OF assms(3) [OF sp], of ps x] assms(2) sp(1) by (simp add: m)
qed (use assms(1) in \<open>simp add: moves_def\<close>)

lemma parseredirs_moves: "ps \<le> length b \<Longrightarrow> length b - ps < n \<Longrightarrow> moves b ps (parseredirs n b ps)"
proof (induction n arbitrary: ps)
  case (Suc n)
  obtain s yes where pk: "peek b ps ''<>'' = (s, yes)" by fastforce
  note pb = peek_bounds [OF Suc.prems(1) pk]
  show ?case
  proof (cases yes)
    case True
    obtain tok q1 e1 s1 where g: "gettoken b s = (tok, q1, e1, s1)" by (metis prod_cases4)
    obtain t q eq s2 where g2: "gettoken b s1 = (t, q, eq, s2)" by (metis prod_cases4)
    have s1: "s < s1" "s1 \<le> length b" using pb(3) [OF True] g by (simp_all add: after_def)
    note gb = gettoken_bounds [OF s1(2) g2]
    have "moves b s2 (parseredirs n b s2)" using Suc.IH [of s2] Suc.prems(2) s1 gb pb(1) by auto
    then have "moves b ps (bindE (parseredirs n b s2) (\<lambda>(rs, s). Ok (redir_of tok (q, eq) # rs, s)))"
      by (rule moves_bind) (use s1 gb pb(1) in auto)
    then show ?thesis using pk True g g2 by simp
  qed (use pk pb in simp)
qed simp

lemma exec_loop_moves: "ps \<le> length b \<Longrightarrow> length b - ps < n \<Longrightarrow> moves b ps (exec_loop n b argc ps)"
proof (induction n arbitrary: ps argc)
  case (Suc n)
  obtain s yes where pk: "peek b ps ''|)&;'' = (s, yes)" by fastforce
  note pb = peek_bounds [OF Suc.prems(1) pk]
  obtain tok q eq s1 where g: "gettoken b s = (tok, q, eq, s1)" by (metis prod_cases4)
  note gb = gettoken_bounds [OF pb(2) g]
  show ?case
  proof (cases "yes \<or> tok = NUL")
    case False
    have lt: "s < s1" using gb False by simp
    have "moves b s1 (parseredirs n b s1)" using parseredirs_moves [of s1 b n] Suc.prems(2) gb lt pb(1) by simp
    then have "moves b ps (bindE (parseredirs n b s1) (\<lambda>(rs, s). bindE (exec_loop n b (argc + 1) s) (\<lambda>((ws, rs'), s). Ok (((q, eq) # ws, rs @ rs'), s))))"
    proof (rule moves_bind)
      fix rs s' assume s': "s1 \<le> s'" "s' \<le> length b"
      then have "moves b s' (exec_loop n b (argc + 1) s')" using Suc.IH [of s' "argc + 1"] Suc.prems(2) lt pb(1) by simp
      then have "moves b s' (bindE (exec_loop n b (argc + 1) s') (\<lambda>((ws, rs'), s). Ok (((q, eq) # ws, rs @ rs'), s)))"
        by (rule moves_bind) auto
      then show "moves b s' (case (rs, s') of (rs, s) \<Rightarrow> bindE (exec_loop n b (argc + 1) s) (\<lambda>((ws, rs'), s). Ok (((q, eq) # ws, rs @ rs'), s)))"
        by simp
    qed (use lt pb(1) in simp)
    then show ?thesis using pk False g by simp
  qed (use pk pb g gb in auto)
qed simp

lemma back_loop_moves: "ps \<le> length b \<Longrightarrow> length b - ps < n \<Longrightarrow> moves b ps (back_loop n b c ps)"
proof (induction n arbitrary: ps c)
  case (Suc n)
  obtain s yes where pk: "peek b ps ''&'' = (s, yes)" by fastforce
  note pb = peek_bounds [OF Suc.prems(1) pk]
  show ?case
  proof (cases yes)
    case True
    then have "moves b (after b s) (back_loop n b (BACK c) (after b s))" using Suc.IH [of "after b s"] Suc.prems(2) pb by auto
    then show ?thesis using pk True pb by (auto intro: moves_mono)
  qed (use pk pb in simp)
qed simp

text \<open>A step that looks for a symbol and goes on behind it.\<close>

lemma moves_peek:
  assumes "ps \<le> length b" "\<And>s. ps \<le> s \<Longrightarrow> s \<le> length b \<Longrightarrow> moves b s (no s)"
    and "\<And>s. ps \<le> s \<Longrightarrow> s < after b s \<Longrightarrow> after b s \<le> length b \<Longrightarrow> moves b s (yes s)"
  shows "moves b ps (let (s, y) = peek b ps t in if y then yes s else no s)"
proof -
  obtain s y where pk: "peek b ps t = (s, y)" by fastforce
  note pb = peek_bounds [OF assms(1) pk]
  show ?thesis
  proof (cases y)
    case True
    then show ?thesis using moves_mono [OF assms(3) [of s] pb(1)] pb pk by simp
  next
    case False
    then show ?thesis using moves_mono [OF assms(2) [OF pb(1,2)] pb(1)] pk by simp
  qed
qed

lemma parse_moves:
  "ps \<le> length b \<Longrightarrow> 4 * (length b - ps) + 4 \<le> n \<Longrightarrow> moves b ps (parseline n b ps)"
  "ps \<le> length b \<Longrightarrow> 4 * (length b - ps) + 3 \<le> n \<Longrightarrow> moves b ps (parsepipe n b ps)"
  "ps \<le> length b \<Longrightarrow> 4 * (length b - ps) + 2 \<le> n \<Longrightarrow> moves b ps (parseexec n b ps)"
  "ps \<le> length b \<Longrightarrow> 4 * (length b - ps) + 1 \<le> n \<Longrightarrow> moves b ps (parseblock n b ps)"
proof (induction n arbitrary: ps)
  case (Suc n)
  { case 1
    have "moves b ps (parsepipe n b ps)" using Suc.IH(2) [of ps] 1 by simp
    then show ?case unfolding parseline.simps(2)
    proof (rule moves_bind [OF _ order_refl], simp only: prod.case)
      fix c s assume s: "ps \<le> s" "s \<le> length b"
      have "moves b s (back_loop n b c s)" using back_loop_moves [of s b n c] s 1 by simp
      then show "moves b s (bindE (back_loop n b c s) (\<lambda>(c, s).
          let (s, yes) = peek b s '';'' in if yes then bindE (parseline n b (after b s)) (\<lambda>(r, s). Ok (LIST c r, s)) else Ok (c, s)))"
      proof (rule moves_bind [OF _ order_refl], simp only: prod.case)
        fix c s' assume s': "s \<le> s'" "s' \<le> length b"
        show "moves b s' (let (s, yes) = peek b s' '';'' in if yes then bindE (parseline n b (after b s)) (\<lambda>(r, s). Ok (LIST c r, s)) else Ok (c, s))"
        proof (rule moves_peek)
          fix s2 assume s2: "s' \<le> s2" "s2 < after b s2" "after b s2 \<le> length b"
          then have "moves b (after b s2) (parseline n b (after b s2))" using Suc.IH(1) [of "after b s2"] 1 s s' by simp
          then show "moves b s2 (bindE (parseline n b (after b s2)) (\<lambda>(r, s). Ok (LIST c r, s)))"
            by (rule moves_bind) (use s2 in auto)
        qed (use s' in simp_all)
      qed
    qed
  next
    case 2
    have "moves b ps (parseexec n b ps)" using Suc.IH(3) [of ps] 2 by simp
    then show ?case unfolding parsepipe.simps(2)
    proof (rule moves_bind [OF _ order_refl], simp only: prod.case)
      fix c s' assume s': "ps \<le> s'" "s' \<le> length b"
      show "moves b s' (let (s, yes) = peek b s' ''|'' in if yes then bindE (parsepipe n b (after b s)) (\<lambda>(r, s). Ok (PIPE c r, s)) else Ok (c, s))"
      proof (rule moves_peek)
        fix s2 assume s2: "s' \<le> s2" "s2 < after b s2" "after b s2 \<le> length b"
        then have "moves b (after b s2) (parsepipe n b (after b s2))" using Suc.IH(2) [of "after b s2"] 2 s' by simp
        then show "moves b s2 (bindE (parsepipe n b (after b s2)) (\<lambda>(r, s). Ok (PIPE c r, s)))"
          by (rule moves_bind) (use s2 in auto)
      qed (use s' in simp_all)
    qed
  next
    case 3
    show ?case unfolding parseexec.simps(2)
    proof (rule moves_peek)
      fix s assume s: "ps \<le> s" "s < after b s" "after b s \<le> length b"
      then show "moves b s (parseblock n b s)" using Suc.IH(4) [of s] 3 by simp
    next
      fix s assume s: "ps \<le> s" "s \<le> length b"
      then have "moves b s (parseredirs n b s)" using parseredirs_moves [of s b n] 3 by simp
      then show "moves b s (bindE (parseredirs n b s) (\<lambda>(rs, s). bindE (exec_loop n b 0 s) (\<lambda>((ws, rs'), s). Ok (foldl redircmd (EXEC ws) (rs @ rs'), s))))"
      proof (rule moves_bind [OF _ order_refl], simp only: prod.case)
        fix rs s' assume s': "s \<le> s'" "s' \<le> length b"
        then have "moves b s' (exec_loop n b 0 s')" using exec_loop_moves [of s' b n 0] 3 s by simp
        then show "moves b s' (bindE (exec_loop n b 0 s') (\<lambda>((ws, rs'), s). Ok (foldl redircmd (EXEC ws) (rs @ rs'), s)))"
          by (rule moves_bind) auto
      qed
    qed (rule 3)
  next
    case 4
    show ?case unfolding parseblock.simps(2)
    proof (rule moves_peek)
      fix s assume s: "ps \<le> s" "s < after b s" "after b s \<le> length b"
      then have "moves b (after b s) (parseline n b (after b s))" using Suc.IH(1) [of "after b s"] 4 by simp
      then show "moves b s (bindE (parseline n b (after b s)) (\<lambda>(c, s).
          let (s, yes) = peek b s '')'' in
          if yes then bindE (parseredirs n b (after b s)) (\<lambda>(rs, s). Ok (foldl redircmd c rs, s)) else panic ''syntax - missing )''))"
      proof (rule moves_bind, simp_all only: prod.case)
        fix c s' assume s': "after b s \<le> s'" "s' \<le> length b"
        show "moves b s' (let (s, yes) = peek b s' '')'' in
            if yes then bindE (parseredirs n b (after b s)) (\<lambda>(rs, s). Ok (foldl redircmd c rs, s)) else panic ''syntax - missing )'')"
        proof (rule moves_peek)
          fix s2 assume s2: "s' \<le> s2" "s2 < after b s2" "after b s2 \<le> length b"
          then have "moves b (after b s2) (parseredirs n b (after b s2))" using parseredirs_moves [of "after b s2" b n] 4 s s' by simp
          then show "moves b s2 (bindE (parseredirs n b (after b s2)) (\<lambda>(rs, s). Ok (foldl redircmd c rs, s)))"
            by (rule moves_bind) (use s2 in auto)
        qed (use s' in simp_all)
      qed (use s in simp)
    qed (use 4 in simp_all)
  }
qed simp_all

text \<open>C20: The shell's parser ends on every input line: whatever the line is, the bound on the depth of
  its recursion and on its loops, which is linear in the length of the line, is not used up.\<close>

theorem parsecmd_ends: "parsecmd b \<noteq> Inl Loops"
proof -
  have "moves b 0 (parseline (depth_bound b) b 0)" using parse_moves(1) [of 0 b "depth_bound b"] by (simp add: depth_bound_def)
  then show ?thesis by (auto simp: parsecmd_def moves_def res_simps split: prod.splits if_splits)
qed

section \<open>Lines and their commands\<close>

text \<open>The syntax that the shell accepts, as trees. A simple command is redirections, then words with
  the redirections that follow each; a block is a line in parentheses with redirections. The
  number in a line counts its ampersands.\<close>

datatype rdr = Rdr char string

datatype simple = Simple "rdr list" "(string \<times> rdr list) list" | Block line "rdr list"
  and pipel = P1 simple | P2 simple pipel
  and line = L1 pipel nat | L2 pipel nat line

fun rdr_toks :: "rdr \<Rightarrow> string list" where
  "rdr_toks (Rdr c w) = [if c = CHR ''+'' then ''>>'' else [c], w]"

definition rdrs_toks :: "rdr list \<Rightarrow> string list" where
  "rdrs_toks rs = concat (map rdr_toks rs)"

definition words_toks :: "(string \<times> rdr list) list \<Rightarrow> string list" where
  "words_toks ws = concat (map (\<lambda>(w, rs). w # rdrs_toks rs) ws)"

primrec simple_toks :: "simple \<Rightarrow> string list"
  and pipel_toks :: "pipel \<Rightarrow> string list"
  and line_toks :: "line \<Rightarrow> string list" where
  "simple_toks (Simple rs ws) = rdrs_toks rs @ words_toks ws"
| "simple_toks (Block l rs) = ''('' # line_toks l @ '')'' # rdrs_toks rs"
| "pipel_toks (P1 c) = simple_toks c"
| "pipel_toks (P2 c p) = simple_toks c @ ''|'' # pipel_toks p"
| "line_toks (L1 p k) = pipel_toks p @ replicate k ''&''"
| "line_toks (L2 p k l) = pipel_toks p @ replicate k ''&'' @ '';'' # line_toks l"

definition unlex :: "string list \<Rightarrow> string" where
  "unlex ts = concat (map (\<lambda>t. CHR '' '' # t) ts)"

text \<open>Commands with their words as texts.\<close>

datatype acmd =
    AEXEC "string list"
  | AREDIR acmd string uint nat
  | APIPE acmd acmd
  | ALIST acmd acmd
  | ABACK acmd

fun rdr_val :: "rdr \<Rightarrow> string \<times> uint \<times> nat" where
  "rdr_val (Rdr c w) = (if c = CHR ''<'' then (w, 0, 0) else (w, 0x201, 1))"

definition aredir :: "acmd \<Rightarrow> string \<times> uint \<times> nat \<Rightarrow> acmd" where
  "aredir a r = (case r of (w, mode, fd) \<Rightarrow> AREDIR a w mode fd)"

primrec simple_cmd :: "simple \<Rightarrow> acmd"
  and pipel_cmd :: "pipel \<Rightarrow> acmd"
  and line_cmd :: "line \<Rightarrow> acmd" where
  "simple_cmd (Simple rs ws) = foldl aredir (AEXEC (map fst ws)) (map rdr_val (rs @ concat (map snd ws)))"
| "simple_cmd (Block l rs) = foldl aredir (line_cmd l) (map rdr_val rs)"
| "pipel_cmd (P1 c) = simple_cmd c"
| "pipel_cmd (P2 c p) = APIPE (simple_cmd c) (pipel_cmd p)"
| "line_cmd (L1 p k) = (ABACK ^^ k) (pipel_cmd p)"
| "line_cmd (L2 p k l) = ALIST ((ABACK ^^ k) (pipel_cmd p)) (line_cmd l)"

definition wchar :: "char \<Rightarrow> bool" where
  "wchar c \<longleftrightarrow> c \<noteq> NUL \<and> \<not> is_ws c \<and> \<not> is_sym c"

definition vword :: "string \<Rightarrow> bool" where
  "vword w \<longleftrightarrow> w \<noteq> [] \<and> (\<forall>c\<in>set w. wchar c)"

fun vrdr :: "rdr \<Rightarrow> bool" where
  "vrdr (Rdr c w) \<longleftrightarrow> c \<in> {CHR ''<'', CHR ''>'', CHR ''+''} \<and> vword w"

primrec vsimple :: "simple \<Rightarrow> bool" and vpipel :: "pipel \<Rightarrow> bool" and vline :: "line \<Rightarrow> bool" where
  "vsimple (Simple rs ws) \<longleftrightarrow> list_all vrdr rs \<and> list_all (\<lambda>(w, rs). vword w \<and> list_all vrdr rs) ws \<and> length ws < MAXARGS"
| "vsimple (Block l rs) \<longleftrightarrow> vline l \<and> list_all vrdr rs"
| "vpipel (P1 c) \<longleftrightarrow> vsimple c"
| "vpipel (P2 c p) \<longleftrightarrow> vsimple c \<and> vpipel p"
| "vline (L1 p k) \<longleftrightarrow> vpipel p"
| "vline (L2 p k l) \<longleftrightarrow> vpipel p \<and> vline l"

section \<open>Reading the words of a command\<close>

definition cstr_from :: "string \<Rightarrow> nat \<Rightarrow> string" where
  "cstr_from b q = takeWhile (\<lambda>c. c \<noteq> NUL) (drop q b)"

primrec cmd_text :: "string \<Rightarrow> cmd \<Rightarrow> acmd" where
  "cmd_text b (EXEC ws) = AEXEC (map (\<lambda>w. cstr_from b (fst w)) ws)"
| "cmd_text b (REDIR c w mode fd) = AREDIR (cmd_text b c) (cstr_from b (fst w)) mode fd"
| "cmd_text b (PIPE l r) = APIPE (cmd_text b l) (cmd_text b r)"
| "cmd_text b (LIST l r) = ALIST (cmd_text b l) (cmd_text b r)"
| "cmd_text b (BACK c) = ABACK (cmd_text b c)"

text \<open>\<open>tspan b (q, eq) w\<close>: between \<open>q\<close> and \<open>eq\<close> lies the word \<open>w\<close>, and no word continues at \<open>eq\<close>.\<close>

definition tspan :: "string \<Rightarrow> span \<Rightarrow> string \<Rightarrow> bool" where
  "tspan b sp w \<longleftrightarrow> (case sp of (q, eq) \<Rightarrow> eq = q + length w \<and> vword w \<and> eq \<le> length b \<and> take (length w) (drop q b) = w
     \<and> (eq < length b \<longrightarrow> \<not> wchar (b ! eq)))"

fun reads :: "string \<Rightarrow> cmd \<Rightarrow> acmd \<Rightarrow> bool" where
  "reads b (EXEC sps) (AEXEC ws) \<longleftrightarrow> list_all2 (tspan b) sps ws"
| "reads b (REDIR c sp m fd) (AREDIR a w m' fd') \<longleftrightarrow> reads b c a \<and> tspan b sp w \<and> m = m' \<and> fd = fd'"
| "reads b (PIPE l r) (APIPE l' r') \<longleftrightarrow> reads b l l' \<and> reads b r r'"
| "reads b (LIST l r) (ALIST l' r') \<longleftrightarrow> reads b l l' \<and> reads b r r'"
| "reads b (BACK c) (ABACK a) \<longleftrightarrow> reads b c a"
| "reads b _ _ \<longleftrightarrow> False"

primrec ends :: "cmd \<Rightarrow> nat set" where
  "ends (EXEC ws) = snd ` set ws"
| "ends (REDIR c w mode fd) = insert (snd w) (ends c)"
| "ends (PIPE l r) = ends l \<union> ends r"
| "ends (LIST l r) = ends l \<union> ends r"
| "ends (BACK c) = ends c"

lemma upd_nth: "j < length xs \<Longrightarrow> xs[k := x] ! j = (if k = j then x else xs ! j)"
  by (cases "k < length xs") (auto simp: nth_list_update)

lemma nul_fold:
  "length (fold (\<lambda>(q, eq) b. b[eq := NUL]) ws b) = length b
   \<and> (\<forall>i < length b. fold (\<lambda>(q, eq) b. b[eq := NUL]) ws b ! i = (if i \<in> snd ` set ws then NUL else b ! i))"
proof (induction ws arbitrary: b)
  case (Cons w ws)
  obtain q eq where w: "w = (q, eq)" by fastforce
  show ?case unfolding w using Cons.IH [of "b[eq := NUL]"] by (simp add: upd_nth del: NUL_def)
qed simp

lemma nulterminate_nth:
  "length (nulterminate c b) = length b
   \<and> (\<forall>i < length b. nulterminate c b ! i = (if i \<in> ends c then NUL else b ! i))"
proof (induction c arbitrary: b)
  case (EXEC ws)
  show ?case using nul_fold [of ws b] by (simp del: NUL_def)
next
  case (REDIR c w mode fd)
  show ?case using REDIR [of b] by (cases w) (simp add: upd_nth del: NUL_def)
qed (simp_all del: NUL_def)

lemma reads_ends: "reads b c a \<Longrightarrow> i \<in> ends c \<Longrightarrow> i < length b \<Longrightarrow> \<not> wchar (b ! i)"
proof (induction b c a rule: reads.induct)
  case (1 b sps ws)
  then obtain q where "(q, i) \<in> set sps" by auto
  then obtain w where "tspan b (q, i) w" using 1(1) by (auto simp: list_all2_conv_all_nth in_set_conv_nth)
  then show ?case using 1(3) by (auto simp: tspan_def)
qed (auto simp: tspan_def)

lemma cstr_from_span:
  assumes sp: "tspan b (q, eq) w" and e: "\<And>i. i < length b \<Longrightarrow> i \<in> E \<Longrightarrow> \<not> wchar (b ! i)" "eq \<in> E"
    and b': "length b' = length b" "\<And>i. i < length b \<Longrightarrow> b' ! i = (if i \<in> E then NUL else b ! i)"
  shows "cstr_from b' q = w"
proof -
  have s: "eq = q + length w" "vword w" "eq \<le> length b" "take (length w) (drop q b) = w" using sp by (simp_all add: tspan_def)
  have at: "b ! (q + i) = w ! i" if "i < length w" for i
    using that s(1,3,4) by (metis add_leD1 nth_drop nth_take)
  have same: "b' ! (q + i) = w ! i \<and> w ! i \<noteq> NUL" if "i < length w" for i
  proof -
    have "wchar (w ! i)" using s(2) that by (simp add: vword_def)
    then show ?thesis using e(1) [of "q + i"] b'(2) [of "q + i"] at [OF that] that s(1,3) by (auto simp: wchar_def)
  qed
  have "drop q b' = w @ drop eq b'"
  proof (rule nth_equalityI)
    show "length (drop q b') = length (w @ drop eq b')" using s(1,3) b'(1) by simp
    show "drop q b' ! i = (w @ drop eq b') ! i" if "i < length (drop q b')" for i
      using same [of i] that s(1,3) b'(1) by (cases "i < length w") (auto simp: nth_append)
  qed
  moreover have "\<forall>c\<in>set w. c \<noteq> NUL" using same by (metis in_set_conv_nth)
  moreover have "takeWhile (\<lambda>c. c \<noteq> NUL) (drop eq b') = []"
    using b' e(2) by (cases "eq < length b") (simp_all add: Cons_nth_drop_Suc [symmetric] del: NUL_def)
  ultimately show ?thesis by (simp add: cstr_from_def takeWhile_append2 del: NUL_def)
qed

lemma reads_text:
  assumes "reads b c a" and "ends c \<subseteq> E" and e: "\<And>i. i < length b \<Longrightarrow> i \<in> E \<Longrightarrow> \<not> wchar (b ! i)"
    and b': "length b' = length b" "\<And>i. i < length b \<Longrightarrow> b' ! i = (if i \<in> E then NUL else b ! i)"
  shows "cmd_text b' c = a"
proof -
  have sp: "cstr_from b' (fst sp) = w" if "tspan b sp w" "snd sp \<in> E" for sp w
    using cstr_from_span [of b "fst sp" "snd sp" w E b'] that e b' by simp
  show ?thesis using assms(1,2) sp
  proof (induction b c a rule: reads.induct)
    case (1 b sps ws)
    have "cstr_from b' (fst (sps ! i)) = ws ! i" if "i < length sps" for i
    proof (rule 1(3))
      show "tspan b (sps ! i) (ws ! i)" using 1(1) that by (simp add: list_all2_conv_all_nth)
      show "snd (sps ! i) \<in> E" using 1(2) nth_mem [OF that] by auto
    qed
    then have "map (\<lambda>w. cstr_from b' (fst w)) sps = ws"
      using 1(1) by (intro nth_equalityI) (auto simp: list_all2_lengthD)
    then show ?case by simp
  qed auto
qed

section \<open>Tokens of a text\<close>

definition rest :: "string \<Rightarrow> nat \<Rightarrow> string" where
  "rest b ps = drop (skip_ws b ps) b"

text \<open>Behind \<open>ps\<close> come, after white space, the tokens \<open>ts\<close>.\<close>

definition at_toks :: "string \<Rightarrow> nat \<Rightarrow> string list \<Rightarrow> bool" where
  "at_toks b ps ts \<longleftrightarrow> ps \<le> length b \<and> rest b ps = dropWhile is_ws (unlex ts)"

definition starts :: "string list \<Rightarrow> string \<Rightarrow> bool" where
  "starts ts cs \<longleftrightarrow> ts \<noteq> [] \<and> hd (hd ts) \<in> set cs"

text \<open>A token: it is not empty, and its first character is neither zero nor white space.\<close>

definition tok :: "string \<Rightarrow> bool" where
  "tok t \<longleftrightarrow> t \<noteq> [] \<and> hd t \<noteq> NUL \<and> \<not> is_ws (hd t)"

lemma ws_facts [simp]: "is_ws CHR '' ''" "\<not> wchar CHR '' ''" "\<not> wchar NUL" "\<not> is_ws NUL"
  by (simp_all add: is_ws_def whitespace_def wchar_def)

lemma rest_simps: "rest b ps = dropWhile is_ws (drop ps b)" "rest b (skip_ws b ps) = rest b ps"
  by (simp_all add: rest_def drop_skip_ws skip_ws_idem)

lemma unlex_Nil [simp]: "unlex [] = []" and unlex_Cons: "unlex (t # ts) = CHR '' '' # t @ unlex ts"
  and unlex_append: "unlex (ts @ us) = unlex ts @ unlex us"
  by (simp_all add: unlex_def)

lemma at_toks_Cons: "tok t \<Longrightarrow> at_toks b ps (t # ts) \<longleftrightarrow> ps \<le> length b \<and> drop (skip_ws b ps) b = t @ unlex ts"
  by (cases t) (simp_all add: at_toks_def rest_def unlex_Cons tok_def)

lemma at_toks_skip: "at_toks b ps ts \<Longrightarrow> at_toks b (skip_ws b ps) ts"
  using skip_ws_bounds(2) [of ps b] by (simp add: at_toks_def rest_simps(2))

lemma chr_at_rest: "chr_at b (skip_ws b ps) = (case rest b ps of [] \<Rightarrow> NUL | c # _ \<Rightarrow> c)"
proof (cases "skip_ws b ps < length b")
  case True
  then show ?thesis by (simp add: chr_at_def rest_def Cons_nth_drop_Suc [symmetric])
qed (simp add: chr_at_def rest_def)

lemma at_toks_chr:
  assumes "at_toks b ps ts" "list_all tok ts"
  shows "chr_at b (skip_ws b ps) = (if ts = [] then NUL else hd (hd ts))"
proof (cases ts)
  case Nil
  then show ?thesis using assms(1) by (simp add: chr_at_rest at_toks_def)
next
  case (Cons t us)
  then have "rest b ps = t @ unlex us" "t \<noteq> []" using assms at_toks_Cons [of t b ps us] by (simp_all add: rest_def tok_def)
  then show ?thesis using Cons by (cases t) (simp_all add: chr_at_rest)
qed

lemma peek_toks:
  assumes "at_toks b ps ts" "list_all tok ts" "NUL \<notin> set cs"
  shows "\<exists>s. peek b ps cs = (s, starts ts cs) \<and> at_toks b s ts \<and> skip_ws b s = s"
proof (intro exI conjI)
  have "hd (hd ts) \<noteq> NUL" if "ts \<noteq> []" using assms(2) that by (cases ts) (simp_all add: tok_def)
  then show "peek b ps cs = (skip_ws b ps, starts ts cs)"
    using at_toks_chr [OF assms(1,2)] strchr_mem [OF assms(3), of "hd (hd ts)"] by (auto simp: peek_def starts_def)
  show "at_toks b (skip_ws b ps) ts" using at_toks_skip [OF assms(1)] .
  show "skip_ws b (skip_ws b ps) = skip_ws b ps" by (rule skip_ws_idem)
qed

text \<open>What follows a token.\<close>

lemma after_tok:
  assumes "drop q b = t @ unlex ts" "q \<le> length b"
  shows "at_toks b (skip_ws b (q + length t)) ts" "take (length t) (drop q b) = t" "q + length t \<le> length b"
    "q + length t < length b \<Longrightarrow> b ! (q + length t) = CHR '' ''"
proof -
  show le: "q + length t \<le> length b" using arg_cong [OF assms(1), of length] assms(2) by simp
  have d: "drop (q + length t) b = unlex ts" using assms(1) by (metis add.commute append_eq_conv_conj drop_drop)
  then have "at_toks b (q + length t) ts" using le by (simp add: at_toks_def rest_simps(1))
  then show "at_toks b (skip_ws b (q + length t)) ts" by (rule at_toks_skip)
  show "take (length t) (drop q b) = t" using assms(1) by simp
  assume lt: "q + length t < length b"
  then have "unlex ts \<noteq> []" "hd (unlex ts) = b ! (q + length t)" using d by (auto simp flip: d simp: hd_drop_conv_nth)
  then show "b ! (q + length t) = CHR '' ''" by (cases ts) (simp_all add: unlex_Cons)
qed

lemma gettoken_word:
  assumes "at_toks b ps (w # ts)" "vword w"
  shows "\<exists>q eq s. gettoken b ps = (CHR ''a'', q, eq, s) \<and> tspan b (q, eq) w \<and> at_toks b s ts"
proof -
  let ?q = "skip_ws b ps"
  have t: "tok w" using assms(2) by (cases w) (simp_all add: vword_def tok_def wchar_def)
  have d: "drop ?q b = w @ unlex ts" and le: "?q \<le> length b"
    using assms(1) at_toks_Cons [OF t] skip_ws_bounds(2) [of ps b] by auto
  note a = after_tok [OF d le]
  have c: "chr_at b ?q = hd w" using d t by (cases w) (simp_all add: chr_at_rest rest_def tok_def)
  have wc: "wchar (hd w)" using assms(2) by (cases w) (simp_all add: vword_def)
  then have ns: "hd w \<notin> set symbols" "hd w \<noteq> NUL" by (simp_all add: wchar_def sym_chars)
  have "takeWhile (\<lambda>x. \<not> is_ws x \<and> \<not> is_sym x) (w @ unlex ts) = w"
  proof -
    have "takeWhile (\<lambda>x. \<not> is_ws x \<and> \<not> is_sym x) (unlex ts) = []" by (cases ts) (simp_all add: unlex_Cons)
    moreover have "\<forall>x\<in>set w. \<not> is_ws x \<and> \<not> is_sym x" using assms(2) by (simp add: vword_def wchar_def)
    ultimately show ?thesis by (simp add: takeWhile_append2)
  qed
  then have "gettoken b ps = (CHR ''a'', ?q, ?q + length w, skip_ws b (?q + length w))"
    using c ns d by (simp add: gettoken_def symbols_def Let_def)
  moreover have "tspan b (?q, ?q + length w) w"
    using a(2-4) assms(2) by (auto simp: tspan_def)
  ultimately show ?thesis using a(1) by blast
qed

lemma gettoken_sym:
  assumes "at_toks b ps ([c] # ts)" "c \<in> {CHR ''|'', CHR ''('', CHR '')'', CHR '';'', CHR ''&'', CHR ''<'', CHR ''>''}"
  shows "\<exists>q eq s. gettoken b ps = (c, q, eq, s) \<and> at_toks b s ts"
proof -
  let ?q = "skip_ws b ps"
  have t: "tok [c]" using assms(2) by (auto simp: tok_def is_ws_def whitespace_def)
  have d: "drop ?q b = [c] @ unlex ts" and le: "?q \<le> length b"
    using assms(1) at_toks_Cons [OF t] skip_ws_bounds(2) [of ps b] by auto
  note a = after_tok [OF d le, simplified]
  have c: "chr_at b ?q = c" using d by (simp add: chr_at_rest rest_def)
  have nx: "chr_at b (Suc ?q) \<noteq> CHR ''>''" using a(4) by (simp add: chr_at_def)
  have c0: "c \<noteq> NUL" using assms(2) by auto
  have "gettoken b ps = (c, ?q, Suc ?q, skip_ws b (Suc ?q))"
  proof (cases "c = CHR ''>''")
    case True
    then show ?thesis using c nx by (simp add: gettoken_def Let_def)
  next
    case False
    then have "c \<in> {CHR ''|'', CHR ''('', CHR '')'', CHR '';'', CHR ''&'', CHR ''<''}" using assms(2) by blast
    then show ?thesis unfolding gettoken_def Let_def c using c0 by simp
  qed
  then show ?thesis using a(1) by simp
qed

lemma gettoken_append:
  assumes "at_toks b ps (''>>'' # ts)"
  shows "\<exists>q eq s. gettoken b ps = (CHR ''+'', q, eq, s) \<and> at_toks b s ts"
proof -
  let ?q = "skip_ws b ps"
  have t: "tok ''>>''" by (simp add: tok_def is_ws_def whitespace_def)
  have d: "drop ?q b = ''>>'' @ unlex ts" and le: "?q \<le> length b"
    using assms(1) at_toks_Cons [OF t] skip_ws_bounds(2) [of ps b] by auto
  note a = after_tok [OF d le, simplified]
  have c: "chr_at b ?q = CHR ''>''" using d by (simp add: chr_at_rest rest_def)
  have "b ! (?q + 1) = CHR ''>''" using d a(3) by (metis One_nat_def append_Cons nth_Cons_0 nth_Cons_Suc nth_drop le)
  then have "chr_at b (Suc ?q) = CHR ''>''" using a(3) by (simp add: chr_at_def)
  then have "gettoken b ps = (CHR ''+'', ?q, Suc (Suc ?q), skip_ws b (Suc (Suc ?q)))" using c by (simp add: gettoken_def Let_def)
  then show ?thesis using a(1) by simp
qed

lemma gettoken_rdr:
  assumes "at_toks b ps (rdr_toks (Rdr c w) @ ts)" "vrdr (Rdr c w)"
  shows "\<exists>q eq s q' eq' s'. gettoken b ps = (c, q, eq, s) \<and> gettoken b s = (CHR ''a'', q', eq', s') \<and> tspan b (q', eq') w \<and> at_toks b s' ts"
proof -
  have "\<exists>q eq s. gettoken b ps = (c, q, eq, s) \<and> at_toks b s (w # ts)"
    using assms gettoken_append [of b ps "w # ts"] gettoken_sym [of b ps c "w # ts"] by (cases "c = CHR ''+''") auto
  then obtain q eq s where g: "gettoken b ps = (c, q, eq, s)" "at_toks b s (w # ts)" by blast
  then show ?thesis using gettoken_word [OF g(2)] assms(2) by auto
qed

lemma after_sym:
  assumes "at_toks b ps ([c] # ts)" "c \<in> {CHR ''|'', CHR ''('', CHR '')'', CHR '';'', CHR ''&''}"
  shows "at_toks b (after b ps) ts"
  using gettoken_sym [OF assms(1)] assms(2) by (auto simp: after_def)

section \<open>The parser gives back the command\<close>

lemma tok_facts:
  "vword w \<Longrightarrow> tok w" "vrdr r \<Longrightarrow> list_all tok (rdr_toks r)" "tok ''|''" "tok ''(''" "tok '')''" "tok '';''" "tok ''&''"
proof -
  show w: "vword w \<Longrightarrow> tok w" for w by (cases w) (simp_all add: vword_def tok_def wchar_def)
  show "vrdr r \<Longrightarrow> list_all tok (rdr_toks r)" using w by (cases r) (auto simp: tok_def is_ws_def whitespace_def)
qed (simp_all add: tok_def is_ws_def whitespace_def)

lemma rdrs_tok: "list_all vrdr rs \<Longrightarrow> list_all tok (rdrs_toks rs)"
  by (induction rs) (simp_all add: rdrs_toks_def tok_facts)

lemma words_tok: "list_all (\<lambda>(w, rs). vword w \<and> list_all vrdr rs) ws \<Longrightarrow> list_all tok (words_toks ws)"
  by (induction ws) (auto simp: words_toks_def tok_facts rdrs_tok)

definition rreads :: "string \<Rightarrow> redir \<Rightarrow> rdr \<Rightarrow> bool" where
  "rreads b r d \<longleftrightarrow> (case (r, rdr_val d) of ((sp, m, fd), (w, m', fd')) \<Rightarrow> tspan b sp w \<and> m = m' \<and> fd = fd')"

lemma rreads_of: "tspan b sp w \<Longrightarrow> vrdr (Rdr c w) \<Longrightarrow> rreads b (redir_of c sp) (Rdr c w)"
  by (auto simp: rreads_def redir_of_def)

lemma reads_foldl:
  "list_all2 (rreads b) rr rs \<Longrightarrow> reads b c a \<Longrightarrow> reads b (foldl redircmd c rr) (foldl aredir a (map rdr_val rs))"
proof (induction rr rs arbitrary: c a rule: list_all2_induct)
  case (Cons r rr d rs)
  have "reads b (redircmd c r) (aredir a (rdr_val d))"
    using Cons(1,4) by (auto simp: rreads_def redircmd_def aredir_def split: prod.splits)
  then show ?case using Cons(3) by simp
qed simp

lemma starts_rdr: "vrdr r \<Longrightarrow> starts (rdr_toks r @ ts) ''<>''"
  by (cases r) (auto simp: starts_def)

lemma parseredirs_toks:
  assumes "at_toks b ps (rdrs_toks rs @ us)" "list_all vrdr rs" "list_all tok us" "\<not> starts us ''<>''" "length rs < n"
  shows "\<exists>rr s. parseredirs n b ps = Ok (rr, s) \<and> list_all2 (rreads b) rr rs \<and> at_toks b s us"
  using assms
proof (induction rs arbitrary: n ps)
  case Nil
  then obtain m where n: "n = Suc m" by (cases n) auto
  obtain s where "peek b ps ''<>'' = (s, False)" "at_toks b s us"
    using peek_toks [of b ps us "''<>''"] Nil by (auto simp: rdrs_toks_def)
  then show ?case by (simp add: n)
next
  case (Cons r rs)
  obtain c w where r: "r = Rdr c w" by (cases r)
  obtain m where n: "n = Suc m" "length rs < m" using Cons.prems(5) by (cases n) auto
  have at: "at_toks b ps (rdr_toks r @ rdrs_toks rs @ us)" using Cons.prems(1) by (simp add: rdrs_toks_def)
  have tk: "list_all tok (rdr_toks r @ rdrs_toks rs @ us)" using Cons.prems(2,3) by (simp add: tok_facts rdrs_tok)
  obtain s0 where pk: "peek b ps ''<>'' = (s0, True)" "at_toks b s0 (rdr_toks r @ rdrs_toks rs @ us)"
    using peek_toks [OF at tk, of "''<>''"] starts_rdr [of r] Cons.prems(2) by auto
  obtain q eq s q' eq' s' where g: "gettoken b s0 = (c, q, eq, s)" "gettoken b s = (CHR ''a'', q', eq', s')"
      "tspan b (q', eq') w" "at_toks b s' (rdrs_toks rs @ us)"
    using gettoken_rdr [OF pk(2) [unfolded r]] Cons.prems(2) r by auto
  obtain rr s2 where "parseredirs m b s' = Ok (rr, s2)" "list_all2 (rreads b) rr rs" "at_toks b s2 us"
    using Cons.IH [OF g(4) _ Cons.prems(3,4) n(2)] Cons.prems(2) by auto
  then show ?case using n(1) pk(1) g(1-3) r rreads_of [OF g(3)] Cons.prems(2) by auto
qed

lemma starts_word: "vword w \<Longrightarrow> set cs \<subseteq> set symbols \<Longrightarrow> \<not> starts (w # ts) cs"
  by (cases w) (auto simp: starts_def vword_def wchar_def sym_chars)

lemma rdrs_length: "length rs \<le> length (rdrs_toks rs)"
proof (induction rs)
  case (Cons r rs)
  then show ?case by (cases r) (simp add: rdrs_toks_def)
qed (simp add: rdrs_toks_def)

lemma exec_loop_toks:
  assumes "at_toks b ps (words_toks ws @ us)" "list_all (\<lambda>(w, rs). vword w \<and> list_all vrdr rs) ws" "list_all tok us"
    "us = [] \<or> starts us ''|)&;''" "argc + length ws < MAXARGS" "length (words_toks ws) < n"
  shows "\<exists>sps rr s. exec_loop n b argc ps = Ok ((sps, rr), s) \<and> list_all2 (tspan b) sps (map fst ws)
     \<and> list_all2 (rreads b) rr (concat (map snd ws)) \<and> at_toks b s us"
  using assms
proof (induction ws arbitrary: n ps argc)
  case Nil
  then obtain m where n: "n = Suc m" by (cases n) auto
  obtain s where pk: "peek b ps ''|)&;'' = (s, starts us ''|)&;'')" "at_toks b s us" "skip_ws b s = s"
    using peek_toks [of b ps us "''|)&;''"] Nil by (auto simp: words_toks_def)
  show ?case
  proof (cases "us = []")
    case True
    then have "chr_at b s = NUL" using at_toks_chr [OF pk(2)] pk(3) by simp
    then have "gettoken b s = (NUL, s, s, s)" using pk(3) by (simp add: gettoken_def)
    then show ?thesis using pk True by (simp add: n starts_def)
  next
    case False
    then show ?thesis using pk Nil(4) by (simp add: n)
  qed
next
  case (Cons x ws)
  obtain w rs where x: "x = (w, rs)" by fastforce
  obtain m where n: "n = Suc m" "length (words_toks ws) < m" "length rs < m"
    using Cons.prems(6) x rdrs_length [of rs] by (cases n) (auto simp: words_toks_def)
  have v: "vword w" "list_all vrdr rs" "list_all (\<lambda>(w, rs). vword w \<and> list_all vrdr rs) ws" using Cons.prems(2) x by auto
  let ?us = "words_toks ws @ us"
  have tk: "list_all tok ?us" using words_tok [OF v(3)] Cons.prems(3) by simp
  have at: "at_toks b ps (w # rdrs_toks rs @ ?us)" using Cons.prems(1) x by (simp add: words_toks_def)
  have sw: "\<not> starts (w # rdrs_toks rs @ ?us) ''|)&;''" using starts_word [OF v(1)] by (auto simp: symbols_def)
  obtain s0 where pk: "peek b ps ''|)&;'' = (s0, False)" "at_toks b s0 (w # rdrs_toks rs @ ?us)"
    using peek_toks [OF at, of "''|)&;''"] tk rdrs_tok [OF v(2)] tok_facts(1) [OF v(1)] sw by auto
  obtain q eq s1 where g: "gettoken b s0 = (CHR ''a'', q, eq, s1)" "tspan b (q, eq) w" "at_toks b s1 (rdrs_toks rs @ ?us)"
    using gettoken_word [OF pk(2) v(1)] by blast
  have nr: "\<not> starts ?us ''<>''"
  proof (cases ws)
    case Nil
    then show ?thesis using Cons.prems(4) by (auto simp: starts_def words_toks_def)
  next
    case (Cons y ys)
    then show ?thesis using v(3) starts_word [of "fst y" "''<>''"] by (auto simp: words_toks_def symbols_def split_beta)
  qed
  obtain rr1 s2 where r: "parseredirs m b s1 = Ok (rr1, s2)" "list_all2 (rreads b) rr1 rs" "at_toks b s2 ?us"
    using parseredirs_toks [OF g(3) v(2) tk nr n(3)] by blast
  obtain sps rr s where e: "exec_loop m b (argc + 1) s2 = Ok ((sps, rr), s)" "list_all2 (tspan b) sps (map fst ws)"
      "list_all2 (rreads b) rr (concat (map snd ws))" "at_toks b s us"
    using Cons.IH [OF r(3) v(3) Cons.prems(3,4) _ n(2), of "argc + 1"] Cons.prems(5) by auto
  have "exec_loop n b argc ps = Ok (((q, eq) # sps, rr1 @ rr), s)"
    using n(1) pk(1) g(1) r(1) e(1) Cons.prems(5) by simp
  then show ?case using g(2) r(2) e(2-4) x by (auto intro: list_all2_appendI)
qed

lemma toks_amp: "list_all tok (replicate k ''&'')"
  by (induction k) (simp_all add: tok_facts)

lemma back_loop_toks:
  assumes "at_toks b ps (replicate k ''&'' @ us)" "list_all tok us" "\<not> starts us ''&''" "k < n"
  shows "\<exists>s. back_loop n b c ps = Ok ((BACK ^^ k) c, s) \<and> at_toks b s us"
  using assms
proof (induction k arbitrary: n ps c)
  case 0
  then obtain m where n: "n = Suc m" by (cases n) auto
  obtain s where "peek b ps ''&'' = (s, False)" "at_toks b s us" using peek_toks [of b ps us "''&''"] 0 by auto
  then show ?case by (simp add: n)
next
  case (Suc k)
  obtain m where n: "n = Suc m" "k < m" using Suc.prems(4) by (cases n) auto
  have tk: "list_all tok (replicate (Suc k) ''&'' @ us)" using Suc.prems(2) toks_amp [of "Suc k"] by simp
  obtain s where pk: "peek b ps ''&'' = (s, True)" "at_toks b s (replicate (Suc k) ''&'' @ us)"
    using peek_toks [OF Suc.prems(1) tk, of "''&''"] by (auto simp: starts_def)
  have "at_toks b (after b s) (replicate k ''&'' @ us)" using after_sym [of b s "CHR ''&''"] pk(2) by simp
  from Suc.IH [OF this Suc.prems(2,3) n(2), of "BACK c"] show ?case using pk(1) n(1) by (auto simp: funpow_swap1)
qed

lemma reads_back: "reads b c a \<Longrightarrow> reads b ((BACK ^^ k) c) ((ABACK ^^ k) a)"
  by (induction k) simp_all

lemma toks_tok:
  "vsimple c \<Longrightarrow> list_all tok (simple_toks c)" "vpipel p \<Longrightarrow> list_all tok (pipel_toks p)" "vline l \<Longrightarrow> list_all tok (line_toks l)"
  by (induction c and p and l) (simp_all add: rdrs_tok words_tok tok_facts toks_amp)

definition follow :: "string list \<Rightarrow> string \<Rightarrow> bool" where
  "follow us cs \<longleftrightarrow> list_all tok us \<and> (us = [] \<or> starts us cs)"

lemma follow_not: "follow us cs \<Longrightarrow> set cs \<inter> set ds = {} \<Longrightarrow> \<not> starts us ds"
  by (auto simp: follow_def starts_def)

lemma follow_mono: "follow us cs \<Longrightarrow> set cs \<subseteq> set ds \<Longrightarrow> follow us ds"
  by (auto simp: follow_def starts_def)

lemma follow_Cons: "tok [c] \<Longrightarrow> list_all tok us \<Longrightarrow> c \<in> set cs \<Longrightarrow> follow ([c] # us) cs"
  by (simp add: follow_def starts_def)

text \<open>Looking for one of the symbols \<open>cs\<close> where the tokens \<open>ts\<close> come next.\<close>

lemma peek_sym:
  assumes "at_toks b ps ([c] # us)" "list_all tok us" "c \<in> {CHR ''|'', CHR ''('', CHR '')'', CHR '';'', CHR ''&''}"
  shows "\<exists>s. peek b ps [c] = (s, True) \<and> at_toks b s ([c] # us) \<and> at_toks b (after b s) us"
proof -
  have t: "list_all tok ([c] # us)" using assms(2,3) tok_facts(3-7) by auto
  have "NUL \<notin> set [c]" using assms(3) by auto
  then obtain s where s: "peek b ps [c] = (s, True)" "at_toks b s ([c] # us)"
    using peek_toks [OF assms(1) t, of "[c]"] by (auto simp: starts_def)
  then show ?thesis using after_sym [OF s(2) assms(3)] by blast
qed

lemma peek_other:
  assumes "at_toks b ps us" "follow us cs" "c \<notin> set cs" "c \<noteq> NUL"
  shows "\<exists>s. peek b ps [c] = (s, False) \<and> at_toks b s us"
proof -
  have "NUL \<notin> set [c]" using assms(4) by simp
  then obtain s where "peek b ps [c] = (s, starts us [c])" "at_toks b s us"
    using peek_toks [OF assms(1), of "[c]"] assms(2) by (auto simp: follow_def)
  then show ?thesis using follow_not [OF assms(2), of "[c]"] assms(3) by auto
qed

lemma starts_simple:
  assumes "list_all vrdr rs" "list_all (\<lambda>(w, rs). vword w \<and> list_all vrdr rs) ws" "follow us ''|)&;''"
  shows "\<not> starts (rdrs_toks rs @ words_toks ws @ us) ''(''"
proof (cases rs)
  case (Cons r rs')
  then show ?thesis using assms(1) by (cases r) (auto simp: starts_def rdrs_toks_def)
next
  case Nil
  note rs = Nil
  show ?thesis
  proof (cases ws)
    case Nil
    then show ?thesis using rs follow_not [OF assms(3), of "''(''"] by (simp add: rdrs_toks_def words_toks_def)
  next
    case (Cons x ws')
    then show ?thesis using rs assms(2) starts_word [of "fst x" "''(''"] by (auto simp: rdrs_toks_def words_toks_def symbols_def split_beta)
  qed
qed

lemma parse_simple:
  assumes "at_toks b ps (simple_toks (Simple rs ws) @ us)" "vsimple (Simple rs ws)" "follow us ''|)&;''"
    "4 * length (simple_toks (Simple rs ws)) + 2 \<le> n"
  shows "\<exists>k s. parseexec n b ps = Ok (k, s) \<and> reads b k (simple_cmd (Simple rs ws)) \<and> at_toks b s us"
proof -
  obtain m where n: "n = Suc m" "length rs < m" "length (words_toks ws) < m"
    using assms(4) rdrs_length [of rs] by (cases n) auto
  have v: "list_all vrdr rs" "list_all (\<lambda>(w, rs). vword w \<and> list_all vrdr rs) ws" "length ws < MAXARGS" using assms(2) by simp_all
  have tu: "list_all tok us" using assms(3) by (simp add: follow_def)
  have at: "at_toks b ps (rdrs_toks rs @ words_toks ws @ us)" using assms(1) by simp
  obtain s0 where pk: "peek b ps ''('' = (s0, False)" "at_toks b s0 (rdrs_toks rs @ words_toks ws @ us)"
    using peek_toks [OF at, of "''(''"] starts_simple [OF v(1,2) assms(3)] rdrs_tok [OF v(1)] words_tok [OF v(2)] tu by auto
  have nr: "\<not> starts (words_toks ws @ us) ''<>''"
  proof (cases ws)
    case Nil
    then show ?thesis using follow_not [OF assms(3), of "''<>''"] by (simp add: words_toks_def)
  next
    case (Cons y ys)
    then show ?thesis using v(2) starts_word [of "fst y" "''<>''"] by (auto simp: words_toks_def symbols_def split_beta)
  qed
  obtain rr1 s1 where r: "parseredirs m b s0 = Ok (rr1, s1)" "list_all2 (rreads b) rr1 rs" "at_toks b s1 (words_toks ws @ us)"
    using parseredirs_toks [OF pk(2) v(1) _ nr n(2)] words_tok [OF v(2)] tu by auto
  obtain sps rr s where e: "exec_loop m b 0 s1 = Ok ((sps, rr), s)" "list_all2 (tspan b) sps (map fst ws)"
      "list_all2 (rreads b) rr (concat (map snd ws))" "at_toks b s us"
    using exec_loop_toks [OF r(3) v(2) tu _ _ n(3), of 0] assms(3) v(3) by (auto simp: follow_def)
  have "reads b (foldl redircmd (EXEC sps) (rr1 @ rr)) (simple_cmd (Simple rs ws))"
    using reads_foldl [OF list_all2_appendI [OF r(2) e(3)], of "EXEC sps" "AEXEC (map fst ws)"] e(2) by simp
  then show ?thesis using n(1) pk(1) r(1) e(1,4) by simp
qed

lemma parse_toks:
  "at_toks b ps (simple_toks c @ us) \<Longrightarrow> vsimple c \<Longrightarrow> follow us ''|)&;'' \<Longrightarrow> 4 * length (simple_toks c) + 2 \<le> n \<Longrightarrow>
     \<exists>k s. parseexec n b ps = Ok (k, s) \<and> reads b k (simple_cmd c) \<and> at_toks b s us"
  "at_toks b ps (pipel_toks p @ us) \<Longrightarrow> vpipel p \<Longrightarrow> follow us '')&;'' \<Longrightarrow> 4 * length (pipel_toks p) + 3 \<le> n \<Longrightarrow>
     \<exists>k s. parsepipe n b ps = Ok (k, s) \<and> reads b k (pipel_cmd p) \<and> at_toks b s us"
  "at_toks b ps (line_toks l @ us) \<Longrightarrow> vline l \<Longrightarrow> follow us '')'' \<Longrightarrow> 4 * length (line_toks l) + 4 \<le> n \<Longrightarrow>
     \<exists>k s. parseline n b ps = Ok (k, s) \<and> reads b k (line_cmd l) \<and> at_toks b s us"
proof (induction c and p and l arbitrary: n ps us and n ps us and n ps us)
  case (Simple rs ws)
  then show ?case by (rule parse_simple)
next
  case (Block l rs)
  obtain m where n: "n = Suc (Suc m)" "4 * length (line_toks l) + 4 \<le> m" "length rs < m"
    using Block.prems(4) rdrs_length [of rs] by (cases n; cases "n - 1") auto
  let ?us = "rdrs_toks rs @ us"
  have tk: "list_all tok ?us" "list_all tok us" using Block.prems(2,3) by (simp_all add: rdrs_tok follow_def)
  have at: "at_toks b ps (''('' # line_toks l @ '')'' # ?us)" using Block.prems(1) by simp
  have tl: "list_all tok (line_toks l @ '')'' # ?us)" using tk Block.prems(2) by (simp add: toks_tok tok_facts)
  obtain s0 where s0: "peek b ps ''('' = (s0, True)" "at_toks b s0 (''('' # line_toks l @ '')'' # ?us)" using peek_sym [OF at tl] by auto
  obtain s1 where s1: "peek b s0 ''('' = (s1, True)" "at_toks b (after b s1) (line_toks l @ '')'' # ?us)" using peek_sym [OF s0(2) tl] by auto
  have fl: "follow ('')'' # ?us) '')''" using tk(1) tok_facts(5) by (intro follow_Cons) auto
  obtain k s2 where k: "parseline m b (after b s1) = Ok (k, s2)" "reads b k (line_cmd l)" "at_toks b s2 ('')'' # ?us)"
    using Block.IH [OF s1(2) _ fl n(2)] Block.prems(2) by auto
  obtain s3 where s3: "peek b s2 '')'' = (s3, True)" "at_toks b (after b s3) ?us" using peek_sym [OF k(3) tk(1)] by auto
  obtain rr s where r: "parseredirs m b (after b s3) = Ok (rr, s)" "list_all2 (rreads b) rr rs" "at_toks b s us"
    using parseredirs_toks [OF s3(2) _ tk(2) follow_not [OF Block.prems(3)] n(3)] Block.prems(2) by auto
  have "parseexec n b ps = Ok (foldl redircmd k rr, s)" using n(1) s0(1) s1(1) k(1) s3(1) r(1) by simp
  then show ?case using reads_foldl [OF r(2) k(2)] r(3) by simp
next
  case (P1 c)
  obtain m where n: "n = Suc m" "4 * length (simple_toks c) + 2 \<le> m" using P1.prems(4) by (cases n) auto
  obtain k s where k: "parseexec m b ps = Ok (k, s)" "reads b k (simple_cmd c)" "at_toks b s us"
    using P1.IH [of ps us m] P1.prems n(2) follow_mono [OF P1.prems(3), of "''|)&;''"] by auto
  obtain s' where "peek b s ''|'' = (s', False)" "at_toks b s' us" using peek_other [OF k(3) P1.prems(3), of "CHR ''|''"] by auto
  then show ?case using n(1) k by simp
next
  case (P2 c p)
  obtain m where n: "n = Suc m" "4 * length (simple_toks c) + 2 \<le> m" "4 * length (pipel_toks p) + 3 \<le> m" using P2.prems(4) by (cases n) auto
  have tk: "list_all tok (pipel_toks p @ us)" using P2.prems(2,3) by (simp add: toks_tok follow_def)
  have f: "follow (''|'' # pipel_toks p @ us) ''|)&;''" using tk tok_facts(3) by (intro follow_Cons) auto
  obtain k s where k: "parseexec m b ps = Ok (k, s)" "reads b k (simple_cmd c)" "at_toks b s (''|'' # pipel_toks p @ us)"
    using P2.IH(1) [OF _ _ f n(2), of ps] P2.prems(1,2) by auto
  obtain s' where s': "peek b s ''|'' = (s', True)" "at_toks b (after b s') (pipel_toks p @ us)" using peek_sym [OF k(3) tk] by auto
  obtain k2 s2 where "parsepipe m b (after b s') = Ok (k2, s2)" "reads b k2 (pipel_cmd p)" "at_toks b s2 us"
    using P2.IH(2) [OF s'(2) _ P2.prems(3) n(3)] P2.prems(2) by auto
  then show ?case using n(1) k(1,2) s'(1) by simp
next
  case (L1 p k)
  obtain m where n: "n = Suc m" "4 * length (pipel_toks p) + 3 \<le> m" "k < m" using L1.prems(4) by (cases n) auto
  have tu: "list_all tok us" using L1.prems(3) by (simp add: follow_def)
  have f: "follow (replicate k ''&'' @ us) '')&;''"
    using tu toks_amp [of k] L1.prems(3) by (cases k) (auto simp: follow_def starts_def)
  obtain c s where c: "parsepipe m b ps = Ok (c, s)" "reads b c (pipel_cmd p)" "at_toks b s (replicate k ''&'' @ us)"
    using L1.IH [OF _ _ f n(2), of ps] L1.prems(1,2) by auto
  obtain s1 where s1: "back_loop m b c s = Ok ((BACK ^^ k) c, s1)" "at_toks b s1 us"
    using back_loop_toks [OF c(3) tu follow_not [OF L1.prems(3)] n(3)] by auto
  obtain s2 where "peek b s1 '';'' = (s2, False)" "at_toks b s2 us" using peek_other [OF s1(2) L1.prems(3), of "CHR '';''"] by auto
  then show ?case using n(1) c(1) s1(1) reads_back [OF c(2), of k] by simp
next
  case (L2 p k l)
  obtain m where n: "n = Suc m" "4 * length (pipel_toks p) + 3 \<le> m" "k < m" "4 * length (line_toks l) + 4 \<le> m" using L2.prems(4) by (cases n) auto
  let ?us = "'';'' # line_toks l @ us"
  have tk: "list_all tok (line_toks l @ us)" using L2.prems(2,3) by (simp add: toks_tok follow_def)
  have tu: "list_all tok ?us" using tk tok_facts(6) by simp
  have f: "follow (replicate k ''&'' @ ?us) '')&;''"
    using tu toks_amp [of k] by (cases k) (auto simp: follow_def starts_def)
  obtain c s where c: "parsepipe m b ps = Ok (c, s)" "reads b c (pipel_cmd p)" "at_toks b s (replicate k ''&'' @ ?us)"
    using L2.IH(1) [OF _ _ f n(2), of ps] L2.prems(1,2) by auto
  obtain s1 where s1: "back_loop m b c s = Ok ((BACK ^^ k) c, s1)" "at_toks b s1 ?us"
    using back_loop_toks [OF c(3) tu _ n(3)] by (auto simp: starts_def)
  obtain s2 where s2: "peek b s1 '';'' = (s2, True)" "at_toks b (after b s2) (line_toks l @ us)" using peek_sym [OF s1(2) tk] by auto
  obtain r s3 where "parseline m b (after b s2) = Ok (r, s3)" "reads b r (line_cmd l)" "at_toks b s3 us"
    using L2.IH(2) [OF s2(2) _ L2.prems(3) n(4)] L2.prems(2) by auto
  then show ?case using n(1) c(1) s1(1) s2(1) reads_back [OF c(2), of k] by simp
qed

lemma unlex_length: "list_all tok ts \<Longrightarrow> length ts \<le> length (unlex ts)"
  by (induction ts) (simp_all add: unlex_Cons)

lemma parsecmd_ok:
  assumes "vline l"
  shows "\<exists>c b'. parsecmd (unlex (line_toks l)) = Ok (c, b') \<and> cmd_text b' c = line_cmd l"
proof -
  define b where "b = unlex (line_toks l)"
  have n: "4 * length (line_toks l) + 4 \<le> depth_bound b"
    using unlex_length [OF toks_tok(3) [OF assms]] by (simp add: depth_bound_def b_def)
  have at: "at_toks b 0 (line_toks l @ [])" by (simp add: at_toks_def rest_simps(1) b_def)
  have f: "follow [] '')''" by (simp add: follow_def)
  obtain c s where c: "parseline (depth_bound b) b 0 = Ok (c, s)" "reads b c (line_cmd l)" "at_toks b s []"
    using parse_toks(3) [OF at assms f n] by blast
  have "skip_ws b s = length b"
    using c(3) skip_ws_bounds(2) [of s b] by (simp add: at_toks_def rest_def)
  then have "parsecmd b = Ok (c, nulterminate c b)" using c(1) by (simp add: parsecmd_def peek_def Let_def)
  moreover have "cmd_text (nulterminate c b) c = line_cmd l"
    using reads_text [OF c(2) order_refl] reads_ends [OF c(2)] nulterminate_nth [of c b] by simp
  ultimately show ?thesis unfolding b_def by blast
qed

text \<open>C19: The shell understands what is written: the text of a command line, with every construct of
  the shell's syntax and at most nine words in a simple command, parses, and the command that
  results, its words read as zero-terminated strings from the line as \<open>nulterminate\<close> leaves it, is
  the one the line stands for.\<close>

theorem parsecmd_roundtrip:
  assumes "vline l"
  shows "\<exists>c b'. parsecmd (unlex (line_toks l)) = Ok (c, b') \<and> cmd_text b' c = line_cmd l"
  using assms by (rule parsecmd_ok)

theorem parsecmd_roundtrip_witness:
  "\<exists>c b'. parsecmd '' ls | wc > out & ; ( echo x )'' = Ok (c, b')
     \<and> cmd_text b' c = ALIST (ABACK (APIPE (AEXEC [''ls'']) (AREDIR (AEXEC [''wc'']) ''out'' 0x201 1))) (AEXEC [''echo'', ''x''])"
proof -
  let ?l = "L2 (P2 (Simple [] [(''ls'', [])]) (P1 (Simple [] [(''wc'', [Rdr (CHR ''>'') ''out''])]))) 1
     (L1 (P1 (Block (L1 (P1 (Simple [] [(''echo'', []), (''x'', [])])) 0) [])) 0)"
  have w: "wchar CHR ''l''" "wchar CHR ''s''" "wchar CHR ''w''" "wchar CHR ''c''" "wchar CHR ''o''" "wchar CHR ''u''" "wchar CHR ''t''"
    "wchar CHR ''e''" "wchar CHR ''h''" "wchar CHR ''x''"
    by (simp_all add: wchar_def is_ws_def is_sym_def whitespace_def symbols_def)
  have v: "vline ?l" using w by (simp add: vword_def)
  have t: "unlex (line_toks ?l) = '' ls | wc > out & ; ( echo x )''" by (simp add: unlex_def words_toks_def rdrs_toks_def)
  have k: "line_cmd ?l = ALIST (ABACK (APIPE (AEXEC [''ls'']) (AREDIR (AEXEC [''wc'']) ''out'' 0x201 1))) (AEXEC [''echo'', ''x''])"
    by (simp add: aredir_def)
  show ?thesis using parsecmd_roundtrip [OF v] unfolding t k .
qed

end
