(* ===== verification/Usys.thy ===== *)
theory Usys
  imports Ulib
begin

text \<open>
  User processes as trees of system calls. A program makes calls one after the other and goes on
  according to their results; after \<open>fork\<close> the result tells parent and child apart. The tree of a
  program therefore contains all its runs, whatever the kernel answers. \<open>printf\<close> counts as one
  \<open>write\<close> of the text it formats.
\<close>

datatype sys =
    SClose nat | SDup nat | SOpen string uint | SPipe | SFork | SWait
  | SExec string "string list" | SWrite nat string | SChdir string
  | SRead nat nat | SFstat nat | SKill uint | SLink string string | SMkdir string | SUnlink string
  | SMknod string nat nat | SSleep nat | SSbrk nat | SCountfp | SCountvp | SCountpp | SCountptp

text \<open>The results of a call: its value, the two descriptors that \<open>pipe\<close> stores, the characters that
  \<open>read\<close> stores, and type, inode number and size as \<open>fstat\<close> stores them.\<close>

datatype ret = Ret (rv: int) (fd0: nat) (fd1: nat) (dat: string) (sta: "uint \<times> uint \<times> uint")

abbreviation R :: "int \<Rightarrow> ret" where
  "R v \<equiv> Ret v 0 0 [] (0, 0, 0)"

text \<open>\<open>SExit\<close> is the end by \<open>exit\<close>, \<open>SUndef\<close> an access C leaves undefined, and \<open>SLoops\<close> a loop that has
  used up the bound the model gives it.\<close>

datatype script = SExit | SUndef | SLoops | Call sys "ret \<Rightarrow> script"

definition say :: "nat \<Rightarrow> string \<Rightarrow> uarg list \<Rightarrow> script \<Rightarrow> script" where
  "say fd fmt ap k = (case printf fmt ap of Inl _ \<Rightarrow> SUndef | Inr s \<Rightarrow> Call (SWrite fd s) (\<lambda>_. k))"

end
