(* ===== verification/Shrun.thy ===== *)
theory Shrun
  imports Shparse Usys
begin

text \<open>
  Running commands: \<open>runcmd\<close>, \<open>fork1\<close>, \<open>panic\<close>, \<open>getcmd\<close> and \<open>main\<close> of \<open>sh.c\<close>.

  A process is the tree of its system calls, as in \<open>Usys\<close>. The words of a command are read from the
  line that \<open>nulterminate\<close> left. \<open>main\<close> takes a bound on the number of lines, as it may read for ever.

  To say what such a tree does, \<open>procs\<close> runs it on a table of descriptors when every call succeeds, and gives the tree of
  the processes that come to be: which process forks which and waits for a child, and which file each process executes, with which
  arguments and descriptors. The theorem is that a command line gives the processes, programs and plumbing that
  the command denotes.
\<close>

section \<open>Running a command\<close>

definition sh_panic :: "string \<Rightarrow> script" where
  "sh_panic s = Call (SWrite 2 (s @ [NL])) (\<lambda>_. SExit)"

definition fork1 :: "(int \<Rightarrow> script) \<Rightarrow> script" where
  "fork1 k = Call SFork (\<lambda>r. if rv r = - 1 then sh_panic ''fork'' else k (rv r))"

primrec runcmd :: "string \<Rightarrow> cmd \<Rightarrow> script" where
  "runcmd b (EXEC ws) =
     (if ws = [] then SExit
      else
        let argv = map (\<lambda>w. cstr_from b (fst w)) ws in
        Call (SExec (hd argv) argv) (\<lambda>_.
        Call (SWrite 2 (''exec '' @ hd argv @ '' failed'' @ [NL])) (\<lambda>_. SExit)))"
| "runcmd b (REDIR c w mode fd) =
     Call (SClose fd) (\<lambda>_.
     Call (SOpen (cstr_from b (fst w)) mode) (\<lambda>r.
     if rv r < 0 then Call (SWrite 2 (''open '' @ cstr_from b (fst w) @ '' failed'' @ [NL])) (\<lambda>_. SExit)
     else runcmd b c))"
| "runcmd b (LIST l r) =
     fork1 (\<lambda>pid. if pid = 0 then runcmd b l else Call SWait (\<lambda>_. runcmd b r))"
| "runcmd b (PIPE l r) =
     Call SPipe (\<lambda>p.
     if rv p < 0 then sh_panic ''pipe''
     else
       fork1 (\<lambda>pid.
       if pid = 0 then
         Call (SClose 1) (\<lambda>_. Call (SDup (fd1 p)) (\<lambda>_.
         Call (SClose (fd0 p)) (\<lambda>_. Call (SClose (fd1 p)) (\<lambda>_. runcmd b l))))
       else
         fork1 (\<lambda>pid.
         if pid = 0 then
           Call (SClose 0) (\<lambda>_. Call (SDup (fd0 p)) (\<lambda>_.
           Call (SClose (fd0 p)) (\<lambda>_. Call (SClose (fd1 p)) (\<lambda>_. runcmd b r))))
         else
           Call (SClose (fd0 p)) (\<lambda>_. Call (SClose (fd1 p)) (\<lambda>_.
           Call SWait (\<lambda>_. Call SWait (\<lambda>_. SExit)))))))"
| "runcmd b (BACK c) = fork1 (\<lambda>pid. if pid = 0 then runcmd b c else SExit)"

section \<open>The main loop\<close>

definition sh_child :: "string \<Rightarrow> script" where
  "sh_child b =
     (case parsecmd b of
        Inr (c, b') \<Rightarrow> runcmd b' c
      | Inl (Panic msg) \<Rightarrow> sh_panic msg
      | Inl _ \<Rightarrow> SLoops)"

definition getcmd :: "'s rd \<Rightarrow> nat \<Rightarrow> 's \<Rightarrow> (string \<times> 's \<Rightarrow> script) \<Rightarrow> script" where
  "getcmd rd nbuf s k =
     Call (SWrite 2 ''$ '') (\<lambda>_. let (buf, s) = gets rd nbuf s in k (takeWhile (\<lambda>c. c \<noteq> NUL) buf, s))"

primrec sh_loop :: "nat \<Rightarrow> 's rd \<Rightarrow> 's \<Rightarrow> script" where
  "sh_loop 0 rd s = SLoops"
| "sh_loop (Suc n) rd s =
     getcmd rd 100 s (\<lambda>(buf, s).
     if buf = [] then SExit
     else if take 3 buf = ''cd '' then
       let dir = drop 3 (butlast buf) in
       Call (SChdir dir) (\<lambda>r.
       if rv r < 0 then Call (SWrite 2 (''cannot cd '' @ dir @ [NL])) (\<lambda>_. sh_loop n rd s)
       else sh_loop n rd s)
     else
       fork1 (\<lambda>pid. if pid = 0 then sh_child buf else Call SWait (\<lambda>_. sh_loop n rd s)))"

primrec open_console :: "nat \<Rightarrow> script \<Rightarrow> script" where
  "open_console 0 k = SLoops"
| "open_console (Suc n) k =
     Call (SOpen ''console'' 2) (\<lambda>r.
     if rv r < 0 then k
     else if rv r \<ge> 3 then Call (SClose (nat (rv r))) (\<lambda>_. k)
     else open_console n k)"

definition sh_main :: "nat \<Rightarrow> 's rd \<Rightarrow> 's \<Rightarrow> script" where
  "sh_main n rd s = open_console 4 (sh_loop n rd s)"

section \<open>What a process executes\<close>

text \<open>Open files; a pipe is named by the choices at the forks before it was made.\<close>

datatype fobj = Console | FileOf string uint | PipeR "bool list" | PipeW "bool list"

type_synonym ftab = "nat \<Rightarrow> fobj option"

definition low :: "ftab \<Rightarrow> nat" where
  "low ft = (case find (\<lambda>i. ft i = None) [0..<16] of Some i \<Rightarrow> i | None \<Rightarrow> 16)"

text \<open>What a process does, in order: it ends, becomes the program in a file, forks a child and goes on, or waits for a child
  to end and goes on.\<close>

datatype ptree = PEnd | PProg string "string list" ftab | PFork ptree ptree | PWait ptree

primrec procs :: "script \<Rightarrow> ftab \<Rightarrow> bool list \<Rightarrow> ptree" where
  "procs SExit ft p = PEnd"
| "procs SUndef ft p = PEnd"
| "procs SLoops ft p = PEnd"
| "procs (Call c k) ft p =
     (case c of
        SFork \<Rightarrow> PFork (procs (k (R 0)) ft (True # p)) (procs (k (R 1)) ft (False # p))
      | SWait \<Rightarrow> PWait (procs (k (R 1)) ft p)
      | SExec f argv \<Rightarrow> PProg f argv ft
      | SClose fd \<Rightarrow> procs (k (R 0)) (ft(fd := None)) p
      | SDup fd \<Rightarrow> procs (k (R (int (low ft)))) (ft(low ft := ft fd)) p
      | SOpen f mode \<Rightarrow> procs (k (R (int (low ft)))) (ft(low ft \<mapsto> FileOf f mode)) p
      | SPipe \<Rightarrow>
          let a = low ft; ft = ft(a \<mapsto> PipeR p); b = low ft in
          procs (k (Ret 0 a b [] (0, 0, 0))) (ft(b \<mapsto> PipeW p)) p
      | SWrite fd s \<Rightarrow> procs (k (R (int (length s)))) ft p
      | _ \<Rightarrow> procs (k (R 0)) ft p)"

text \<open>What a command means. A program is the file named by the first word. The two sides of a pipe run at the same time and
  are both waited for; the right side of a list starts when the left side has ended; nobody waits for a background command.\<close>

primrec den :: "acmd \<Rightarrow> ftab \<Rightarrow> bool list \<Rightarrow> ptree" where
  "den (AEXEC argv) ft p = (if argv = [] then PEnd else PProg (hd argv) argv ft)"
| "den (AREDIR a f mode fd) ft p = den a (ft(fd \<mapsto> FileOf f mode)) p"
| "den (APIPE l r) ft p =
     PFork (den l (ft(1 \<mapsto> PipeW p)) (True # p))
       (PFork (den r (ft(0 \<mapsto> PipeR p)) (True # False # p)) (PWait (PWait PEnd)))"
| "den (ALIST l r) ft p = PFork (den l ft (True # p)) (PWait (den r ft (False # p)))"
| "den (ABACK a) ft p = PFork (den a ft (True # p)) PEnd"

primrec std_fds :: "acmd \<Rightarrow> bool" where
  "std_fds (AEXEC argv) \<longleftrightarrow> True"
| "std_fds (AREDIR a f mode fd) \<longleftrightarrow> fd < 2 \<and> std_fds a"
| "std_fds (ALIST l r) \<longleftrightarrow> std_fds l \<and> std_fds r"
| "std_fds (APIPE l r) \<longleftrightarrow> std_fds l \<and> std_fds r"
| "std_fds (ABACK a) \<longleftrightarrow> std_fds a"

text \<open>Standard input and output are open, and two descriptors are free.\<close>

definition ready_fds :: "ftab \<Rightarrow> bool" where
  "ready_fds ft \<longleftrightarrow> ft 0 \<noteq> None \<and> ft 1 \<noteq> None \<and> low ft < 16 \<and> low (ft(low ft := Some Console)) < 16"

lemma low_least:
  assumes "n < 16" "ft n = None" "\<And>i. i < n \<Longrightarrow> ft i \<noteq> None"
  shows "low ft = n"
proof -
  have "find (\<lambda>i. ft i = None) [0..<16] = Some n"
    unfolding find_Some_iff using assms by (intro exI [of _ n]) auto
  then show ?thesis by (simp add: low_def)
qed

lemma low_cong: "(\<And>i. (ft i = None) = (gt i = None)) \<Longrightarrow> low ft = low gt"
  by (simp add: low_def)

lemma low_free: "low ft < 16 \<Longrightarrow> ft (low ft) = None"
proof -
  assume l: "low ft < 16"
  then obtain i where i: "find (\<lambda>i. ft i = None) [0..<16] = Some i"
    by (cases "find (\<lambda>i. ft i = None) [0..<16]") (simp_all add: low_def)
  then have "ft i = None" by (auto simp: find_Some_iff)
  then show ?thesis by (simp add: low_def i)
qed

lemma ready_upd: "ready_fds ft \<Longrightarrow> ft fd \<noteq> None \<Longrightarrow> ready_fds (ft(fd \<mapsto> x))"
proof -
  assume r: "ready_fds ft" and f: "ft fd \<noteq> None"
  have l: "low (ft(fd \<mapsto> x)) = low ft" by (rule low_cong) (use f in auto)
  have "low ((ft(fd \<mapsto> x))(low ft \<mapsto> Console)) = low (ft(low ft \<mapsto> Console))" by (rule low_cong) (use f in auto)
  then show ?thesis using r f l by (auto simp: ready_fds_def)
qed

lemma low_close: "ready_fds ft \<Longrightarrow> fd < 2 \<Longrightarrow> low (ft(fd := None)) = fd"
  by (rule low_least) (auto simp: ready_fds_def less_2_cases_iff)

lemma procs_fork1: "procs (fork1 k) ft p = PFork (procs (k 0) ft (True # p)) (procs (k 1) ft (False # p))"
  by (simp add: fork1_def)

text \<open>The two ends of a fresh pipe, and the tables of the two children.\<close>

lemma pipe_ends:
  fixes p :: "bool list"
  assumes "ready_fds ft"
  defines "a \<equiv> low ft"
  defines "b \<equiv> low (ft(a \<mapsto> PipeR p))"
  defines "gt \<equiv> ft(a \<mapsto> PipeR p, b \<mapsto> PipeW p)"
  shows "low (gt(1 := None)) = 1" "low (gt(0 := None)) = 0"
    and "(gt(1 := None, 1 := (gt(1 := None)) b, a := None, b := None)) = ft(1 \<mapsto> PipeW p)"
    and "(gt(0 := None, 0 := (gt(0 := None)) a, a := None, b := None)) = ft(0 \<mapsto> PipeR p)"
proof -
  have r: "ft 0 \<noteq> None" "ft 1 \<noteq> None" "a < 16" using assms(1) by (auto simp: ready_fds_def a_def)
  have "low (ft(a \<mapsto> Console)) = b" unfolding b_def by (rule low_cong) auto
  then have b: "b < 16" using assms(1) by (simp add: ready_fds_def a_def)
  have f: "ft a = None" "(ft(a \<mapsto> PipeR p)) b = None" using low_free [of ft] low_free [of "ft(a \<mapsto> PipeR p)"] r(3) b by (simp_all only: a_def b_def)
  then have ne: "a \<noteq> 0" "a \<noteq> 1" "b \<noteq> 0" "b \<noteq> 1" "a \<noteq> b" "ft b = None" using r by (metis fun_upd_apply option.distinct(1))+
  show "low (gt(1 := None)) = 1" "low (gt(0 := None)) = 0" using r ne by (auto intro!: low_least simp: gt_def)
  show "(gt(1 := None, 1 := (gt(1 := None)) b, a := None, b := None)) = ft(1 \<mapsto> PipeW p)"
    "(gt(0 := None, 0 := (gt(0 := None)) a, a := None, b := None)) = ft(0 \<mapsto> PipeR p)"
    using ne f(1) by (auto simp: gt_def fun_eq_iff)
qed

lemma runcmd_procs:
  "std_fds (cmd_text b c) \<Longrightarrow> ready_fds ft \<Longrightarrow> procs (runcmd b c) ft p = den (cmd_text b c) ft p"
proof (induction c arbitrary: ft p)
  case (EXEC ws)
  then show ?case by (simp add: Let_def)
next
  case (REDIR c w mode fd)
  have o: "ft fd \<noteq> None" using REDIR.prems by (auto simp: ready_fds_def less_2_cases_iff)
  have "low (ft(fd := None)) = fd" using low_close REDIR.prems by simp
  then show ?case using REDIR.IH [OF _ ready_upd [OF REDIR.prems(2) o, of "FileOf (cstr_from b (fst w)) mode"]] REDIR.prems(1)
    by (simp del: fun_upd_apply)
next
  case (PIPE l r)
  note pe = pipe_ends [OF PIPE.prems(2), of p]
  have o: "ft 0 \<noteq> None" "ft 1 \<noteq> None" using PIPE.prems(2) by (auto simp: ready_fds_def)
  have "procs (runcmd b l) (ft(1 \<mapsto> PipeW p)) (True # p) = den (cmd_text b l) (ft(1 \<mapsto> PipeW p)) (True # p)"
    using PIPE.IH(1) [OF _ ready_upd [OF PIPE.prems(2) o(2), of "PipeW p"]] PIPE.prems(1) by (simp del: fun_upd_apply)
  moreover have "procs (runcmd b r) (ft(0 \<mapsto> PipeR p)) (True # False # p) = den (cmd_text b r) (ft(0 \<mapsto> PipeR p)) (True # False # p)"
    using PIPE.IH(2) [OF _ ready_upd [OF PIPE.prems(2) o(1), of "PipeR p"]] PIPE.prems(1) by (simp del: fun_upd_apply)
  ultimately show ?case using pe by (simp add: procs_fork1 Let_def del: fun_upd_upd fun_upd_apply)
next
  case (LIST l r)
  then show ?case by (simp add: procs_fork1)
next
  case (BACK c)
  then show ?case by (simp add: procs_fork1)
qed

lemma std_foldl: "std_fds a \<Longrightarrow> std_fds (foldl aredir a (map rdr_val rs))"
proof (induction rs arbitrary: a)
  case (Cons r rs)
  then show ?case by (cases r) (simp add: aredir_def)
qed simp

lemma std_back: "std_fds a \<Longrightarrow> std_fds ((ABACK ^^ k) a)"
  by (induction k) simp_all

lemma std_line: "std_fds (simple_cmd c)" "std_fds (pipel_cmd p)" "std_fds (line_cmd l)"
  by (induction c and p and l) (simp_all add: std_foldl std_back del: map_append)

text \<open>C8: What the shell does with a command line. When no call fails, the child that the shell forks becomes, or starts, exactly the
  processes that the line denotes, in the right order of forking and waiting. Each executes the file that the
  first word of its command names, with the words as arguments, and finds the descriptors it should: the ends of its pipes as
  standard input and output, its redirections, and otherwise those of the shell, with no other end of a pipe left open.\<close>

theorem shell_runs:
  assumes "vline l" "ready_fds ft"
  shows "procs (sh_child (unlex (line_toks l))) ft p = den (line_cmd l) ft p"
proof -
  obtain c b' where c: "parsecmd (unlex (line_toks l)) = Ok (c, b')" "cmd_text b' c = line_cmd l"
    using parsecmd_ok [OF assms(1)] by blast
  then show ?thesis using runcmd_procs [of b' c ft p] assms(2) std_line(3) [of l] by (simp add: sh_child_def)
qed

definition demo_ft :: ftab where
  "demo_ft = (\<lambda>fd. if fd < 3 then Some Console else None)"

theorem shell_runs_witness:
  "procs (sh_child '' a < i | b'') demo_ft [] =
     PFork (PProg ''a'' [''a''] (demo_ft(0 \<mapsto> FileOf ''i'' 0, 1 \<mapsto> PipeW [])))
       (PFork (PProg ''b'' [''b''] (demo_ft(0 \<mapsto> PipeR []))) (PWait (PWait PEnd)))"
proof -
  let ?l = "L1 (P2 (Simple [] [(''a'', [Rdr (CHR ''<'') ''i''])]) (P1 (Simple [] [(''b'', [])]))) 0"
  have "wchar CHR ''a''" "wchar CHR ''b''" "wchar CHR ''i''" by (simp_all add: wchar_def is_ws_def is_sym_def whitespace_def symbols_def)
  then have v: "vline ?l" by (simp add: vword_def)
  have "low demo_ft = 3" "low (demo_ft(3 \<mapsto> Console)) = 4" by (rule low_least; simp add: demo_ft_def)+
  then have r: "ready_fds demo_ft" by (simp add: ready_fds_def demo_ft_def)
  have t: "unlex (line_toks ?l) = '' a < i | b''" by (simp add: unlex_def words_toks_def rdrs_toks_def)
  have k: "line_cmd ?l = APIPE (AREDIR (AEXEC [''a'']) ''i'' 0 0) (AEXEC [''b''])" by (simp add: aredir_def)
  show ?thesis using shell_runs [OF v r, of "[]"] unfolding t k by (simp add: fun_upd_twist)
qed

end
