(* ===== verification/Progs.thy ===== *)
theory Progs
  imports Usys
begin

text \<open>
  The small user programs, as trees of system calls: \<open>cat.c\<close>, \<open>echo.c\<close>, \<open>kill.c\<close>, \<open>ln.c\<close>,
  \<open>mkdir.c\<close>, \<open>rm.c\<close>, \<open>wc.c\<close>, \<open>ls.c\<close>, \<open>zombie.c\<close>, \<open>init.c\<close>, \<open>forktest.c\<close>, \<open>stressfs.c\<close> and
  \<open>test0.c\<close> to \<open>test3.c\<close>. \<open>argv\<close> is the list of the arguments, the name of the program first. A loop
  that reads until the end of a file, or for ever, takes a bound; \<open>k\<close> is what comes afterwards.

  For \<open>wc\<close> the counts are shown to be those of the whole input, however \<open>read\<close> cuts it.
\<close>

section \<open>Files\<close>

primrec cat :: "nat \<Rightarrow> nat \<Rightarrow> script \<Rightarrow> script" where
  "cat 0 fd k = SLoops"
| "cat (Suc n) fd k =
     Call (SRead fd 512) (\<lambda>r.
     if rv r > 0 then
       Call (SWrite 1 (take (nat (rv r)) (dat r))) (\<lambda>w.
       if rv w \<noteq> rv r then say 1 (''cat: write error'' @ [NL]) [] SExit else cat n fd k)
     else if rv r < 0 then say 1 (''cat: read error'' @ [NL]) [] SExit
     else k)"

primrec cat_files :: "nat \<Rightarrow> string list \<Rightarrow> script" where
  "cat_files n [] = SExit"
| "cat_files n (f # fs) =
     Call (SOpen f 0) (\<lambda>r.
     if rv r < 0 then say 1 (''cat: cannot open %s'' @ [NL]) [UStr (Some f)] SExit
     else cat n (nat (rv r)) (Call (SClose (nat (rv r))) (\<lambda>_. cat_files n fs)))"

definition cat_main :: "nat \<Rightarrow> string list \<Rightarrow> script" where
  "cat_main n argv = (if length argv \<le> 1 then cat n 0 SExit else cat_files n (tl argv))"

text \<open>The counters of \<open>wc\<close>: lines, words, characters, and whether the last character was in a word.\<close>

type_synonym wcs = "uint \<times> uint \<times> uint \<times> bool"

definition wc_space :: "char \<Rightarrow> bool" where
  "wc_space x \<longleftrightarrow> strchr [CHR '' '', CHR 0x0D, CHR 0x09, NL, CHR 0x0B] x \<noteq> None"

definition wc_char :: "wcs \<Rightarrow> char \<Rightarrow> wcs" where
  "wc_char st x =
     (case st of (l, w, c, inword) \<Rightarrow>
      let c = c + 1;
          l = (if x = NL then l + 1 else l)
      in
      if wc_space x then (l, w, c, False)
      else if \<not> inword then (l, w + 1, c, True)
      else (l, w, c, inword))"

primrec wc :: "nat \<Rightarrow> nat \<Rightarrow> string \<Rightarrow> wcs \<Rightarrow> script \<Rightarrow> script" where
  "wc 0 fd name st k = SLoops"
| "wc (Suc n) fd name st k =
     Call (SRead fd 512) (\<lambda>r.
     if rv r > 0 then wc n fd name (foldl wc_char st (take (nat (rv r)) (dat r))) k
     else if rv r < 0 then say 1 (''wc: read error'' @ [NL]) [] SExit
     else
       (case st of (l, w, c, inword) \<Rightarrow>
        say 1 (''%d %d %d %s'' @ [NL]) [UInt l, UInt w, UInt c, UStr (Some name)] k))"

primrec wc_files :: "nat \<Rightarrow> string list \<Rightarrow> script" where
  "wc_files n [] = SExit"
| "wc_files n (f # fs) =
     Call (SOpen f 0) (\<lambda>r.
     if rv r < 0 then say 1 (''wc: cannot open %s'' @ [NL]) [UStr (Some f)] SExit
     else wc n (nat (rv r)) f (0, 0, 0, False) (Call (SClose (nat (rv r))) (\<lambda>_. wc_files n fs)))"

definition wc_main :: "nat \<Rightarrow> string list \<Rightarrow> script" where
  "wc_main n argv = (if length argv \<le> 1 then wc n 0 [] (0, 0, 0, False) SExit else wc_files n (tl argv))"

primrec echo_args :: "string list \<Rightarrow> script" where
  "echo_args [] = SExit"
| "echo_args (a # as) =
     say 1 ''%s%s'' [UStr (Some a), UStr (Some (if as \<noteq> [] then '' '' else [NL]))] (echo_args as)"

definition echo_main :: "string list \<Rightarrow> script" where
  "echo_main argv = echo_args (tl argv)"

section \<open>Names\<close>

primrec kill_args :: "string list \<Rightarrow> script" where
  "kill_args [] = SExit"
| "kill_args (a # as) = Call (SKill (atoi a)) (\<lambda>_. kill_args as)"

definition kill_main :: "string list \<Rightarrow> script" where
  "kill_main argv =
     (if length argv < 2 then say 2 (''usage: kill pid...'' @ [NL]) [] SExit else kill_args (tl argv))"

definition ln_main :: "string list \<Rightarrow> script" where
  "ln_main argv =
     (if length argv \<noteq> 3 then say 2 (''Usage: ln old new'' @ [NL]) [] SExit
      else
        Call (SLink (argv ! 1) (argv ! 2)) (\<lambda>r.
        if rv r < 0 then
          say 2 (''link %s %s: failed'' @ [NL]) [UStr (Some (argv ! 1)), UStr (Some (argv ! 2))] SExit
        else SExit))"

primrec mkdir_args :: "string list \<Rightarrow> script" where
  "mkdir_args [] = SExit"
| "mkdir_args (a # as) =
     Call (SMkdir a) (\<lambda>r.
     if rv r < 0 then say 2 (''mkdir: %s failed to create'' @ [NL]) [UStr (Some a)] SExit
     else mkdir_args as)"

definition mkdir_main :: "string list \<Rightarrow> script" where
  "mkdir_main argv =
     (if length argv < 2 then say 2 (''Usage: mkdir files...'' @ [NL]) [] SExit else mkdir_args (tl argv))"

primrec rm_args :: "string list \<Rightarrow> script" where
  "rm_args [] = SExit"
| "rm_args (a # as) =
     Call (SUnlink a) (\<lambda>r.
     if rv r < 0 then say 2 (''rm: %s failed to delete'' @ [NL]) [UStr (Some a)] SExit
     else rm_args as)"

definition rm_main :: "string list \<Rightarrow> script" where
  "rm_main argv =
     (if length argv < 2 then say 2 (''Usage: rm files...'' @ [NL]) [] SExit else rm_args (tl argv))"

text \<open>\<open>fmtname\<close>: the last component of a path, padded with blanks to \<open>DIRSIZ\<close> characters.\<close>

definition DIRSIZ_ls :: nat where [simp]: "DIRSIZ_ls = 14"

definition fmtname :: "string \<Rightarrow> string" where
  "fmtname path =
     (let p = rev (takeWhile (\<lambda>c. c \<noteq> CHR ''/'') (rev path)) in
      if length p \<ge> DIRSIZ_ls then p else p @ replicate (DIRSIZ_ls - length p) (CHR '' ''))"

definition ls_line :: "string \<Rightarrow> uint \<times> uint \<times> uint \<Rightarrow> script \<Rightarrow> script" where
  "ls_line path st k =
     (case st of (ty, ino, sz) \<Rightarrow>
      say 1 (''%s %d %d %d'' @ [NL]) [UStr (Some (fmtname path)), UInt ty, UInt ino, UInt sz] k)"

text \<open>\<open>stat\<close> of \<open>ulib.c\<close>.\<close>

definition stat_path :: "string \<Rightarrow> (int \<times> (uint \<times> uint \<times> uint) \<Rightarrow> script) \<Rightarrow> script" where
  "stat_path f k =
     Call (SOpen f 0) (\<lambda>fd.
     if rv fd < 0 then k (- 1, (0, 0, 0))
     else
       Call (SFstat (nat (rv fd))) (\<lambda>r.
       Call (SClose (nat (rv fd))) (\<lambda>_. k (rv r, sta r))))"

text \<open>The loop over a directory. The first two characters of an entry are its inode number, the
  others its name.\<close>

primrec ls_dir :: "nat \<Rightarrow> string \<Rightarrow> nat \<Rightarrow> script \<Rightarrow> script" where
  "ls_dir 0 path fd k = SLoops"
| "ls_dir (Suc n) path fd k =
     Call (SRead fd 16) (\<lambda>r.
     if rv r \<noteq> 16 then k
     else if take 2 (dat r) = [NUL, NUL] then ls_dir n path fd k
     else
       let buf = path @ ''/'' @ takeWhile (\<lambda>c. c \<noteq> NUL) (take DIRSIZ_ls (drop 2 (dat r))) in
       stat_path buf (\<lambda>(v, st).
       if v < 0 then say 1 (''ls: cannot stat %s'' @ [NL]) [UStr (Some buf)] (ls_dir n path fd k)
       else ls_line buf st (ls_dir n path fd k)))"

definition ls :: "nat \<Rightarrow> string \<Rightarrow> script \<Rightarrow> script" where
  "ls n path k =
     Call (SOpen path 0) (\<lambda>r.
     if rv r < 0 then say 2 (''ls: cannot open %s'' @ [NL]) [UStr (Some path)] k
     else
       let fd = nat (rv r); done = Call (SClose fd) (\<lambda>_. k) in
       Call (SFstat fd) (\<lambda>s.
       if rv s < 0 then say 2 (''ls: cannot stat %s'' @ [NL]) [UStr (Some path)] done
       else if fst (sta s) = 2 then ls_line path (sta s) done
       else if fst (sta s) = 1 then
         if length path + 1 + DIRSIZ_ls + 1 > 512 then say 1 (''ls: path too long'' @ [NL]) [] done
         else ls_dir n path fd done
       else done))"

definition ls_main :: "nat \<Rightarrow> string list \<Rightarrow> script" where
  "ls_main n argv = (if length argv < 2 then ls n ''.'' SExit else fold (\<lambda>f k. ls n f k) (rev (tl argv)) SExit)"

section \<open>Processes\<close>

definition zombie_main :: script where
  "zombie_main = Call SFork (\<lambda>r. if rv r > 0 then Call (SSleep 5) (\<lambda>_. SExit) else SExit)"

primrec init_wait :: "nat \<Rightarrow> int \<Rightarrow> script \<Rightarrow> script" where
  "init_wait 0 pid k = SLoops"
| "init_wait (Suc n) pid k =
     Call SWait (\<lambda>w.
     if rv w \<ge> 0 \<and> rv w \<noteq> pid then say 1 (''zombie!'' @ [NL]) [] (init_wait n pid k) else k)"

primrec init_loop :: "nat \<Rightarrow> nat \<Rightarrow> script" where
  "init_loop 0 m = SLoops"
| "init_loop (Suc n) m =
     say 1 (''init: starting sh'' @ [NL]) []
       (Call SFork (\<lambda>r.
        if rv r < 0 then say 1 (''init: fork failed'' @ [NL]) [] SExit
        else if rv r = 0 then
          Call (SExec ''sh'' [''sh'']) (\<lambda>_. say 1 (''init: exec sh failed'' @ [NL]) [] SExit)
        else init_wait m (rv r) (init_loop n m)))"

definition init_main :: "nat \<Rightarrow> nat \<Rightarrow> script" where
  "init_main n m =
     (let go = Call (SDup 0) (\<lambda>_. Call (SDup 0) (\<lambda>_. init_loop n m)) in
      Call (SOpen ''console'' 2) (\<lambda>r.
      if rv r < 0 then Call (SMknod ''console'' 1 1) (\<lambda>_. Call (SOpen ''console'' 2) (\<lambda>_. go))
      else go))"

text \<open>\<open>forktest\<close> has its own \<open>printf\<close>, which writes the format as it is.\<close>

primrec ft_wait :: "nat \<Rightarrow> script" where
  "ft_wait 0 =
     Call SWait (\<lambda>w.
     if rv w \<noteq> - 1 then Call (SWrite 1 (''wait got too many'' @ [NL])) (\<lambda>_. SExit)
     else Call (SWrite 1 (''fork test OK'' @ [NL])) (\<lambda>_. SExit))"
| "ft_wait (Suc n) =
     Call SWait (\<lambda>w.
     if rv w < 0 then Call (SWrite 1 (''wait stopped early'' @ [NL])) (\<lambda>_. SExit) else ft_wait n)"

primrec ft_fork :: "nat \<Rightarrow> nat \<Rightarrow> script" where
  "ft_fork 0 n = Call (SWrite 1 (''fork claimed to work N times!'' @ [NL])) (\<lambda>_. SExit)"
| "ft_fork (Suc m) n =
     Call SFork (\<lambda>r.
     if rv r < 0 then ft_wait n
     else if rv r = 0 then SExit
     else ft_fork m (n + 1))"

definition forktest_main :: script where
  "forktest_main = Call (SWrite 1 (''fork test'' @ [NL])) (\<lambda>_. ft_fork 1000 0)"

primrec repeat_call :: "nat \<Rightarrow> sys \<Rightarrow> script \<Rightarrow> script" where
  "repeat_call 0 c k = k"
| "repeat_call (Suc n) c k = Call c (\<lambda>_. repeat_call n c k)"

definition stressfs_work :: "nat \<Rightarrow> script" where
  "stressfs_work i =
     (let path = ''stressfs'' @ [char_of (48 + i)]; data = replicate 512 (CHR ''a'') in
      say 1 (''write %d'' @ [NL]) [UInt (of_nat i)]
        (Call (SOpen path 0x202) (\<lambda>fd.
         repeat_call 20 (SWrite (nat (rv fd)) data)
           (Call (SClose (nat (rv fd))) (\<lambda>_.
            say 1 (''read'' @ [NL]) []
              (Call (SOpen path 0) (\<lambda>fd.
               repeat_call 20 (SRead (nat (rv fd)) 512)
                 (Call (SClose (nat (rv fd))) (\<lambda>_. Call SWait (\<lambda>_. SExit))))))))))"

primrec stressfs_fork :: "nat \<Rightarrow> nat \<Rightarrow> script" where
  "stressfs_fork 0 i = stressfs_work i"
| "stressfs_fork (Suc m) i = Call SFork (\<lambda>r. if rv r > 0 then stressfs_work i else stressfs_fork m (i + 1))"

definition stressfs_main :: script where
  "stressfs_main = say 1 (''stressfs starting'' @ [NL]) [] (stressfs_fork 4 0)"

section \<open>The tests of the page counts\<close>

text \<open>The stores of the tests to their own data are not system calls and do not show in the tree.\<close>

definition verdict :: "nat \<Rightarrow> bool \<Rightarrow> script \<Rightarrow> script" where
  "verdict i ok k =
     say 1 (''[Test %d] '' @ (if ok then ''pass'' else ''fail'') @ [NL, NL]) [UInt (of_nat i)] k"

definition counts :: "(int \<times> int \<times> int \<times> int \<Rightarrow> script) \<Rightarrow> script" where
  "counts k =
     Call SCountfp (\<lambda>f. Call SCountvp (\<lambda>v. Call SCountpp (\<lambda>p. Call SCountptp (\<lambda>t.
     k (rv f, rv v, rv p, rv t)))))"

definition test0_main :: script where
  "test0_main =
     say 1 (''[Test 0] default'' @ [NL]) []
       (counts (\<lambda>(numfp, numvp, numpp, numptp).
        Call (SSbrk 4096) (\<lambda>_.
        counts (\<lambda>(numfpa, numvpa, numppa, numptpa).
        say 1 (''ptp: %d %d'' @ [NL]) [UInt (of_int numptp), UInt (of_int numptpa)]
          (verdict 0 (numvp = numpp \<and> numvpa = numppa \<and> numfp - numfpa = 1) SExit)))))"

definition test1_main :: script where
  "test1_main =
     say 1 (''[Test 1] initial sharing'' @ [NL]) []
       (Call SCountfp (\<lambda>p.
        Call SFork (\<lambda>r.
        if rv r = 0 then Call SCountfp (\<lambda>c. verdict 1 (rv p - rv c = 68) SExit)
        else Call SWait (\<lambda>_. SExit))))"

definition test2_main :: script where
  "test2_main =
     say 1 (''[Test 2] Make a Copy'' @ [NL]) []
       (Call SFork (\<lambda>r.
        if rv r = 0 then
          Call SCountfp (\<lambda>c. Call SCountfp (\<lambda>m. verdict 2 (rv c - rv m = 1) SExit))
        else Call SWait (\<lambda>_. SExit)))"

primrec test3_fork :: "nat \<Rightarrow> nat \<Rightarrow> script \<Rightarrow> script" where
  "test3_fork 0 i k = k"
| "test3_fork (Suc m) i k =
     Call SFork (\<lambda>r.
     if rv r = 0 then
       Call (SSleep (100 + 50 * i)) (\<lambda>_.
       Call SCountfp (\<lambda>c. Call SCountfp (\<lambda>d.
       say 1 (''child [%d]'' @ [CHR 0x27] @ ''s result: %d'' @ [NL]) [UInt (of_nat i), UInt (of_int (rv c - rv d))]
         (if rv c - rv d = 0 then verdict 3 False SExit else SExit))))
     else test3_fork m (i + 1) k)"

definition test3_main :: script where
  "test3_main =
     say 1 (''[Test 3] Make Copies'' @ [NL]) []
       (Call SCountfp (\<lambda>p.
        test3_fork 10 0
          (repeat_call 10 SWait
            (Call SCountfp (\<lambda>q. verdict 3 (rv p - rv q = 0) SExit)))))"

section \<open>Counting does not depend on the reads\<close>

text \<open>A run of a program whose input arrives in pieces at the descriptor \<open>inp\<close>, then ends: what it writes, with the
  descriptor it writes to. A call of \<open>read\<close> delivers the next piece, or as much of it as the call asks
  for; on any other descriptor it fails.\<close>

primrec serve :: "nat \<Rightarrow> script \<Rightarrow> string list \<Rightarrow> (nat \<times> string) list" where
  "serve inp SExit cs = []"
| "serve inp SUndef cs = []"
| "serve inp SLoops cs = []"
| "serve inp (Call c k) cs =
     (case c of
        SRead fd n \<Rightarrow>
          if fd \<noteq> inp then serve inp (k (R (-1))) cs
          else
          (case cs of
             [] \<Rightarrow> serve inp (k (R 0)) []
           | x # cs \<Rightarrow>
               serve inp (k (Ret (int (length (take n x))) 0 0 (take n x) (0, 0, 0)))
                 (if length x \<le> n then cs else drop n x # cs))
      | SWrite fd s \<Rightarrow> (fd, s) # serve inp (k (R (int (length s)))) cs
      | _ \<Rightarrow> serve inp (k (R 0)) cs)"

text \<open>The number of reads into a buffer of 512 bytes that the pieces need.\<close>

definition reads :: "string list \<Rightarrow> nat" where
  "reads cs = (\<Sum>c\<leftarrow>cs. (length c + 511) div 512)"

text \<open>The words of a text: the places where one starts.\<close>

definition word_starts :: "string \<Rightarrow> nat list" where
  "word_starts s = filter (\<lambda>i. \<not> wc_space (s ! i) \<and> (i = 0 \<or> wc_space (s ! (i - 1)))) [0..<length s]"

definition wc_of :: "string \<Rightarrow> wcs" where
  "wc_of s = (of_nat (length (filter (\<lambda>x. x = NL) s)), of_nat (length (word_starts s)), of_nat (length s),
     s \<noteq> [] \<and> \<not> wc_space (last s))"

lemma word_starts_snoc:
  "word_starts (s @ [x]) = word_starts s @ (if \<not> wc_space x \<and> (s = [] \<or> wc_space (last s)) then [length s] else [])"
proof -
  have "filter (\<lambda>i. \<not> wc_space ((s @ [x]) ! i) \<and> (i = 0 \<or> wc_space ((s @ [x]) ! (i - 1)))) [0..<length s] = word_starts s"
    unfolding word_starts_def by (rule filter_cong) (auto simp: nth_append)
  then show ?thesis by (cases "s = []") (simp_all add: word_starts_def nth_append last_conv_nth)
qed

lemma wc_char_snoc: "wc_char (wc_of s) x = wc_of (s @ [x])"
  by (auto simp: wc_char_def wc_of_def word_starts_snoc Let_def)

lemma wc_foldl: "foldl wc_char (wc_of s) t = wc_of (s @ t)"
  by (induction t arbitrary: s) (simp_all add: wc_char_snoc)

lemma reads_next:
  assumes "x \<noteq> []"
  shows "reads (x # cs) = Suc (reads (if length x \<le> 512 then cs else drop 512 x # cs))"
proof (cases "length x \<le> 512")
  case True
  then have "(length x + 511) div 512 = 1" using assms by (cases x) (auto intro!: div_nat_eqI)
  then show ?thesis using True by (simp add: reads_def)
next
  case False
  then have "length x + 511 = length x - 512 + 511 + 512" by simp
  then have "(length x + 511) div 512 = Suc ((length x - 512 + 511) div 512)" by (metis div_add_self2 Suc_eq_plus1 zero_neq_numeral)
  then show ?thesis using False by (simp add: reads_def)
qed

lemma wc_serve:
  assumes "\<forall>c\<in>set cs. c \<noteq> []" "reads cs < n"
  shows "serve fd (wc n fd name (wc_of s) SExit) cs =
     (case wc_of (s @ concat cs) of (l, w, c, _) \<Rightarrow>
      serve fd (say 1 (''%d %d %d %s'' @ [NL]) [UInt l, UInt w, UInt c, UStr (Some name)] SExit) [])"
  using assms
proof (induction n arbitrary: s cs)
  case (Suc n)
  show ?case
  proof (cases cs)
    case Nil
    then show ?thesis by (simp split: prod.splits)
  next
    case (Cons x ys)
    define rest where "rest = (if length x \<le> 512 then ys else drop 512 x # ys)"
    have x: "x \<noteq> []" "concat cs = take 512 x @ concat rest" using Suc.prems(1) by (simp_all add: Cons rest_def)
    have "reads cs = Suc (reads rest)" unfolding Cons rest_def by (rule reads_next [OF x(1)])
    then have "reads rest < n" using Suc.prems(2) by simp
    moreover have "\<forall>c\<in>set rest. c \<noteq> []" using Suc.prems(1) by (simp add: Cons rest_def)
    ultimately have "serve fd (wc n fd name (wc_of (s @ take 512 x)) SExit) rest =
       (case wc_of (s @ concat cs) of (l, w, c, _) \<Rightarrow>
        serve fd (say 1 (''%d %d %d %s'' @ [NL]) [UInt l, UInt w, UInt c, UStr (Some name)] SExit) [])"
      using Suc.IH [of rest "s @ take 512 x"] x(2) by simp
    moreover have "serve fd (wc (Suc n) fd name (wc_of s) SExit) cs = serve fd (wc n fd name (wc_of (s @ take 512 x)) SExit) rest"
      using x(1) by (simp add: Cons wc_foldl rest_def)
    ultimately show ?thesis by simp
  qed
qed simp

text \<open>C40: \<open>wc\<close> prints on the standard output, and nowhere else, the number of newlines, of words and of characters of the
  whole input, in whatever pieces \<open>read\<close> delivers it: a word that a read cuts in two counts once.\<close>

theorem wc_counts:
  assumes "\<forall>c\<in>set cs. c \<noteq> []" "reads cs < n"
  shows "serve fd (wc n fd name (0, 0, 0, False) SExit) cs =
     (case printf (''%d %d %d %s'' @ [NL])
        [UInt (of_nat (length (filter (\<lambda>x. x = NL) (concat cs)))), UInt (of_nat (length (word_starts (concat cs)))),
         UInt (of_nat (length (concat cs))), UStr (Some name)] of Inl _ \<Rightarrow> [] | Inr t \<Rightarrow> [(1, t)])"
proof -
  have "wc_of [] = (0, 0, 0, False)" by (simp add: wc_of_def word_starts_def)
  then show ?thesis using wc_serve [OF assms, of fd name "[]"] by (simp add: wc_of_def say_def split: sum.splits)
qed

theorem wc_counts_witness:
  "serve 0 (wc 3 0 ''f'' (0, 0, 0, False) SExit) [''on'', ''e two'' @ [NL]] = [(1, ''1 2 8 f'' @ [NL])]"
proof -
  have s: "wc_space (CHR '' '')" "wc_space NL" "\<not> wc_space (CHR ''o'')" "\<not> wc_space (CHR ''n'')" "\<not> wc_space (CHR ''e'')"
    "\<not> wc_space (CHR ''t'')" "\<not> wc_space (CHR ''w'')" by (simp_all add: wc_space_def)
  have u: "upt 0 8 = [0, 1, 2, 3, 4, 5, 6, 7]" by (simp add: upt_rec)
  have w: "length (word_starts (''one two'' @ [NL])) = 2" using s by (simp add: word_starts_def u)
  have "uprintint_loop 16 10 x = Ok [udigits ! unat x]" if "x = 1 \<or> x = 2 \<or> x = 8" for x
    using uprintint_loop.simps(2) [of 15 10 x] that by auto
  then have "uprintint 1 10 True = Ok ''1''" "uprintint 2 10 True = Ok ''2''" "uprintint 8 10 True = Ok ''8''"
    by (simp_all add: uprintint_def udigits_def)
  then have "printf (''%d %d %d %s'' @ [NL]) [UInt 1, UInt 2, UInt 8, UStr (Some ''f'')] = Ok (''1 2 8 f'' @ [NL])"
    by (simp add: printf_def)
  then show ?thesis using wc_counts [of "[''on'', ''e two'' @ [NL]]" 3 0 "''f''"] w by (simp add: reads_def)
qed

end
