(* ===== verification/Spec2Isabelle.thy ===== *)
theory Spec2Isabelle
  imports Fswrite Isolation Trap Grep Shrun Progs
begin

text \<open>
  A verification of \<open>xv6-public\<close>, a small Unix kernel for the x86 whose \<open>fork\<close> shares pages
  copy-on-write. Files are named relative to \<open>src/xv6-public\<close>.

  \<^bold>\<open>The program and its theories.\<close> Each theory models the files named beside it; it imports
  the components it calls, so the state of the kernel is a chain of record extensions that
  grows upwards in this order.

  \<^item> \<open>Prelude\<close>: machine words, byte-addressed memory, and the outcomes of a kernel routine.
  \<^item> \<open>Spinlock\<close> (\<open>spinlock.c\<close>, \<open>mycpu\<close> of \<open>proc.c\<close>): spin locks, interrupt nesting, per-CPU data.
  \<^item> \<open>Cstr\<close> (\<open>string.c\<close>), \<open>Mmu\<close> (\<open>mmu.h\<close>, \<open>memlayout.h\<close>), \<open>Ring\<close> (ring buffers of \<open>pipe.c\<close> and
    \<open>console.c\<close>): leaf libraries.
  \<^item> \<open>Kalloc\<close> (\<open>kalloc.c\<close>): the page allocator with its reference counts.
  \<^item> \<open>Pgtable\<close>, \<open>Vm\<close> (\<open>vm.c\<close>): page tables in memory and every operation on them; \<open>Cow\<close> and \<open>Isolation\<close>
    hold the invariant that ties the reference counts to the page tables, and what follows from it.
  \<^item> \<open>Sched\<close>, \<open>Proc\<close> (\<open>proc.c\<close>): the process table, the scheduler, sleep and wakeup; then the life
    cycle of a process, which needs files.
  \<^item> \<open>Bio\<close> (\<open>sleeplock.c\<close>, \<open>bio.c\<close>, \<open>memide.c\<close>), \<open>Logfs\<close> (\<open>log.c\<close>), \<open>Fs\<close> (\<open>fs.c\<close>), \<open>File\<close>
    (\<open>file.c\<close>, \<open>pipe.c\<close>): the file system, from the disk up. Their lemmas are in theories of their own:
    \<open>Cache\<close> for the buffer cache, \<open>Crash\<close> for commit, crashes and recovery, \<open>Txn\<close> for transactions, \<open>Fsread\<close>,
    \<open>Fsdir\<close> and \<open>Fswrite\<close> for reading, directories and writing.
  \<^item> \<open>Syscall\<close> (argument fetching of \<open>syscall.c\<close>), \<open>Exec\<close> (\<open>exec.c\<close>), \<open>Sysfile\<close> (\<open>sysfile.c\<close>),
    \<open>Console\<close> (\<open>console.c\<close>, \<open>uart.c\<close>, \<open>kbd.c\<close>), \<open>Trap\<close> (\<open>sysproc.c\<close>, \<open>trap.c\<close> and the dispatch of
    \<open>syscall.c\<close>): system calls, the console and traps.
  \<^item> \<open>Ulib\<close> (\<open>ulib.c\<close>, \<open>printf.c\<close>), \<open>Usys\<close> (the system calls as a program makes them), \<open>Grep\<close> (\<open>grep.c\<close>), \<open>Sh\<close>,
    \<open>Shparse\<close>, \<open>Shrun\<close> (\<open>sh.c\<close>: parser, lemmas on it, execution), \<open>Progs\<close> (\<open>cat.c\<close>, \<open>wc.c\<close>, \<open>echo.c\<close>, \<open>kill.c\<close>,
    \<open>ln.c\<close>, \<open>mkdir.c\<close>, \<open>rm.c\<close>, \<open>ls.c\<close>, \<open>zombie.c\<close>, \<open>init.c\<close>, \<open>forktest.c\<close>, \<open>stressfs.c\<close> and the tests of
    the copy-on-write fork): the user level, which knows the kernel only through system calls.

  \<^bold>\<open>How code is modelled.\<close> A routine of the kernel is a function from the state to \<open>err + result\<close>. \<open>Panic\<close> is a call
  of \<open>panic\<close>, \<open>Spin\<close> a lock held by another CPU, \<open>Sleeps\<close> a caller that gives up the CPU, \<open>Undef\<close>
  an access that C leaves undefined. Memory words, disk words and addresses keep their width and wrap. Four counters of type
  \<open>int\<close> are integers of the model: \<open>ncli\<close>, the counts of references of pages and of inodes, and \<open>nextpid\<close>; a
  statement that lets one of them grow without limit keeps it in the range of \<open>int\<close> by a hypothesis, and
  one on a single call speaks of a counter below its largest value. A pointer to a kernel object is the index of the object
  in its table. A routine that calls \<open>swtch\<close> is split there into an \<open>_out\<close> and an \<open>_in\<close> part.
  Interleavings of several CPUs are step relations of their own: \<open>lstep\<close> for a
  spin lock, \<open>kstep\<close> for the allocator, \<open>wstep\<close> for sleep and wakeup. A user program is a tree of system calls, which
  branches on what the kernel answers, or a function over the answers of \<open>read\<close>. User memory is read and written by
  the kernel through \<open>uload\<close> and \<open>ustore\<close>, which ignore the user bit of a page as supervisor mode does, and by programs through
  \<open>user_load\<close> and \<open>user_store\<close>, which do not.

  \<^bold>\<open>Bounds.\<close> A loop whose end the code does not bound takes a bound and ends in \<open>Loops\<close> when it is used up. The
  loops over pages are bounded by the number of pages of the address space, those over files and directories by the number of bytes
  wanted, the bitmap by the \<open>2 ^ 20\<close> blocks it can have; each turn of these makes progress, and the theorems on them state
  that they return. The parser of the shell recurses to a depth that is linear in the length of the line, which
  \<open>parsecmd_ends\<close> shows to be enough.

  \<^bold>\<open>What is shown.\<close>
  \<^item> Locks and processes: locks exclude each other and restore the interrupt flag; the process table hands out
    slots, a process runs on one CPU at a time, a wakeup is never lost:
    nobody sleeps on a condition that holds, except while its signaller is about to call \<open>wakeup\<close>.
  \<^item> Memory: the allocator keeps its free list and its reference counts; \<open>copyuvm\<close> shares every page read-only and
    counts the sharing; the fault handler gives a private copy, or write permission to a last reference; a store is seen by one
    address space alone; \<open>deallocuvm\<close> frees what nobody maps any more. The string routines are right under every overlap. The
    pointers that system calls accept lie inside the process.
  \<^item> Files: the buffer cache is transparent; a commit is atomic under crashes at any write, also during recovery;
    \<open>log_write\<close> pins and absorbs; \<open>readi\<close> and \<open>writei\<close> read and replace exactly the bytes of their range; \<open>dirlookup\<close>
    finds the first entry of a name and one cache slot for its inode.
  \<^item> Queues and text: pipes and the console input are queues although their counters wrap; the screen cursor stays in
    range; the characters that \<open>printint\<close> and
    \<open>printf\<close> emit for a number read back as that number.
  \<^item> User level: the matcher of \<open>grep\<close> decides its regular expressions and \<open>grep\<close> selects the lines that match; the shell's
    parser ends on every line and inverts printing, and the shell starts the processes that the line denotes, with their
    files, arguments, descriptors and waits; \<open>wc\<close> counts the whole input.

  Some lemmas state defects: the counter of free pages after a failed \<open>kalloc\<close>, the race on \<open>use_lock\<close>, \<open>kill\<close> on a free
  slot, the reservation of \<open>begin_op\<close>, the guard page after a fork, \<open>grep\<close> on a line that arrives in pieces, and \<open>memmove\<close>
  of the user library on overlapping blocks.

  \<^bold>\<open>Interfaces.\<close> The contracts between components are locales, each interpreted on the definitions of the component that
  provides it: among them a mutual exclusion lock in \<open>Spinlock\<close>, a ring buffer in \<open>Ring\<close> and a store of blocks in \<open>Cache\<close>.

  \<^bold>\<open>Not modelled.\<close> Set-up of the processor and of the interrupt controllers, the port protocol of the
  IDE controller and assembly files, which are hardware access only; the host program \<open>mkfs\<close>; the test driver
  \<open>usertests.c\<close> and the memory allocator \<open>umalloc.c\<close> of the user library. For writes that extend a file and for path names the
  operations are modelled, but no theorem is stated.
\<close>

end
